(* ===== verification/Persist_Prelude.thy ===== *)
theory Persist_Prelude
  imports Complex_Main "HOL-Library.Multiset" "HOL-Library.List_Lexorder" "HOL-Library.Char_ord"
begin

text \<open>
  The prelude of the development: what the modelled Rust code uses of its language, stated once.

  \<^item> integer widths (\<open>u32\<close>, \<open>u64\<close>, \<open>usize\<close>, \<open>i64\<close>) as bounds on \<^typ>\<open>nat\<close> and \<^typ>\<open>int\<close>, and the
    saturating operations of the standard library;
  \<^item> string slices: \<open>strip_prefix\<close>, \<open>split_once\<close>, decimal \<open>parse\<close> and \<open>Display\<close>, with the round-trip
    lemmas the protocol-string parsers rest on;
  \<^item> \<open>BTreeMap\<close> as a key-sorted association list;
  \<^item> JSON values (the data of a signed envelope) and their accessors;
  \<^item> the calendar operations of the \<open>chrono\<close> crate, which is not part of the repository: a record of
    functions the model is parametric in, with its documented laws as a predicate.
\<close>

named_theorems text_simps \<open>evaluation of the string operations on rendered protocol strings\<close>

section \<open>Machine integers\<close>

text \<open>
  Counts and sizes are \<^typ>\<open>nat\<close>; a width is written out where the code depends on it. \<open>usize\<close> is
  64 bits, as on every target the crate is built for.
\<close>

definition u32_max :: nat where
  "u32_max = 2 ^ 32 - 1"

definition u64_max :: nat where
  "u64_max = 2 ^ 64 - 1"

definition usize_max :: nat where
  "usize_max = 2 ^ 64 - 1"

definition i64_max :: int where
  "i64_max = 2 ^ 63 - 1"

definition saturating_add :: "nat \<Rightarrow> nat \<Rightarrow> nat" where
  "saturating_add a b = min (a + b) usize_max"

definition saturating_sub :: "nat \<Rightarrow> nat \<Rightarrow> nat" where
  "saturating_sub a b = a - b"

lemma saturating_add_exact: "a + b \<le> usize_max \<Longrightarrow> saturating_add a b = a + b"
  by (simp add: saturating_add_def)

lemma saturating_add_ge: "a \<le> usize_max \<Longrightarrow> a \<le> saturating_add a b"
  by (simp add: saturating_add_def)

lemma saturating_add_bound: "saturating_add a b \<le> usize_max"
  by (simp add: saturating_add_def)

section \<open>Results\<close>

text \<open>\<open>Result\<close> is a sum with the error on the left; the \<open>?\<close> operator is \<open>and_then\<close>.\<close>

fun and_then :: "'e + 'a \<Rightarrow> ('a \<Rightarrow> 'e + 'b) \<Rightarrow> 'e + 'b" where
  "and_then (Inl e) f = Inl e"
| "and_then (Inr a) f = f a"

fun ok_or :: "'e \<Rightarrow> 'a option \<Rightarrow> 'e + 'a" where
  "ok_or e None = Inl e"
| "ok_or e (Some a) = Inr a"

lemma and_then_Inr: "and_then r f = Inr b \<longleftrightarrow> (\<exists>a. r = Inr a \<and> f a = Inr b)"
  by (cases r) auto

lemma and_then_Inl: "and_then r f = Inl e \<longleftrightarrow> r = Inl e \<or> (\<exists>a. r = Inr a \<and> f a = Inl e)"
  by (cases r) auto

lemma ok_or_Inr: "ok_or e x = Inr a \<longleftrightarrow> x = Some a"
  by (cases x) auto

lemma ok_or_Inl: "ok_or e x = Inl e' \<longleftrightarrow> x = None \<and> e' = e"
  by (cases x) auto

lemmas result_simps = and_then_Inr and_then_Inl ok_or_Inr ok_or_Inl

text \<open>A loop whose body may fail stops at the first error.\<close>

fun try_map :: "('a \<Rightarrow> 'e + 'b) \<Rightarrow> 'a list \<Rightarrow> 'e + 'b list" where
  "try_map f [] = Inr []"
| "try_map f (x # xs) = and_then (f x) (\<lambda>y. and_then (try_map f xs) (\<lambda>ys. Inr (y # ys)))"

lemma try_map_Inr: "try_map f xs = Inr ys \<longleftrightarrow> list_all2 (\<lambda>x y. f x = Inr y) xs ys"
  by (induction xs arbitrary: ys) (auto simp: and_then_Inr list_all2_Cons1)

text \<open>A fallible step that may also not return: \<open>None\<close> is not returning.\<close>

definition run_then :: "('e + 'a) option \<Rightarrow> ('a \<Rightarrow> ('e + 'b) option) \<Rightarrow> ('e + 'b) option" where
  "run_then r f = (case r of None \<Rightarrow> None | Some (Inl e) \<Rightarrow> Some (Inl e) | Some (Inr a) \<Rightarrow> f a)"

lemma run_then_Some_Inr [simp]: "run_then (Some (Inr a)) f = f a"
  by (simp add: run_then_def)

lemma run_then_Inr: "run_then r f = Some (Inr b) \<longleftrightarrow> (\<exists>a. r = Some (Inr a) \<and> f a = Some (Inr b))"
  by (auto simp: run_then_def split: option.splits sum.splits)

fun run_map :: "('a \<Rightarrow> ('e + 'b) option) \<Rightarrow> 'a list \<Rightarrow> ('e + 'b list) option" where
  "run_map f [] = Some (Inr [])"
| "run_map f (x # xs) = run_then (f x) (\<lambda>y. run_then (run_map f xs) (\<lambda>ys. Some (Inr (y # ys))))"

lemma run_map_Inr: "run_map f xs = Some (Inr ys) \<longleftrightarrow> list_all2 (\<lambda>x y. f x = Some (Inr y)) xs ys"
  by (induction xs arbitrary: ys) (auto simp: run_then_Inr list_all2_Cons1)

section \<open>Lists of distinct keys\<close>

lemma distinct_map_unique:
  "distinct (map f xs) \<Longrightarrow> x \<in> set xs \<Longrightarrow> y \<in> set xs \<Longrightarrow> f x = f y \<Longrightarrow> x = y"
  by (auto simp: distinct_map inj_on_def)

lemma distinct_sorted_wrt: "distinct xs \<longleftrightarrow> sorted_wrt (\<lambda>a b. a \<noteq> b) xs"
  by (induction xs) auto

lemma sorted_last_max: "sorted (map f xs) \<Longrightarrow> x \<in> set xs \<Longrightarrow> f x \<le> f (last xs)"
  by (induction xs rule: rev_induct) (auto simp: sorted_append)

lemma distinct_singleton_list: "distinct xs \<Longrightarrow> set xs = {a} \<Longrightarrow> xs = [a]"
  by (cases xs; cases "tl xs") auto

section \<open>String slices\<close>

fun strip_prefix :: "string \<Rightarrow> string \<Rightarrow> string option" where
  "strip_prefix [] s = Some s"
| "strip_prefix (p # ps) [] = None"
| "strip_prefix (p # ps) (c # cs) = (if p = c then strip_prefix ps cs else None)"

definition starts_with :: "string \<Rightarrow> string \<Rightarrow> bool" where
  "starts_with p s \<longleftrightarrow> strip_prefix p s \<noteq> None"

lemma strip_prefix_append [simp, text_simps]: "strip_prefix p (p @ s) = Some s"
  by (induction p) auto

lemma strip_prefix_Some: "strip_prefix p s = Some r \<longleftrightarrow> s = p @ r"
  by (induction p s rule: strip_prefix.induct) auto

lemma starts_with_append [simp]: "starts_with p (p @ s)"
  by (simp add: starts_with_def)

lemma starts_with_iff: "starts_with p s \<longleftrightarrow> (\<exists>r. s = p @ r)"
  by (auto simp: starts_with_def strip_prefix_Some)

lemma strip_prefix_hd_neq: "p \<noteq> [] \<Longrightarrow> hd p \<noteq> c \<Longrightarrow> strip_prefix p (c # cs) = None"
  by (cases p) auto

text \<open>\<open>str::split_once\<close>: split at the first occurrence of the pattern.\<close>

fun split_once :: "string \<Rightarrow> string \<Rightarrow> (string \<times> string) option" where
  "split_once pat [] = (if pat = [] then Some ([], []) else None)"
| "split_once pat (c # cs) =
     (case strip_prefix pat (c # cs) of
        Some r \<Rightarrow> Some ([], r)
      | None \<Rightarrow> map_option (\<lambda>(a, b). (c # a, b)) (split_once pat cs))"

lemma split_once_concat: "split_once pat s = Some (a, b) \<Longrightarrow> s = a @ pat @ b"
  by (induction pat s arbitrary: a b rule: split_once.induct)
    (auto simp: strip_prefix_Some split: if_splits option.splits)

lemma split_once_at:
  "pat \<noteq> [] \<Longrightarrow> hd pat \<notin> set a \<Longrightarrow> split_once pat (a @ pat @ b) = Some (a, b)"
proof (induction a)
  case Nil
  then obtain c cs where pat: "pat = c # cs" by (cases pat) auto
  have "strip_prefix pat (pat @ b) = Some b" by simp
  then show ?case unfolding pat by simp
next
  case (Cons c a)
  then have "strip_prefix pat (c # a @ pat @ b) = None"
    by (intro strip_prefix_hd_neq) auto
  with Cons show ?case by simp
qed

lemma split_once_at_char [text_simps]: "c \<notin> set a \<Longrightarrow> split_once [c] (a @ c # b) = Some (a, b)"
  using split_once_at[of "[c]" a b] by simp

lemma split_once_absent [text_simps]: "pat \<noteq> [] \<Longrightarrow> hd pat \<notin> set s \<Longrightarrow> split_once pat s = None"
proof (induction s)
  case (Cons c s)
  then have "strip_prefix pat (c # s) = None"
    by (intro strip_prefix_hd_neq) auto
  with Cons show ?case by simp
qed simp

subsection \<open>Decimal parsing and printing\<close>

text \<open>
  \<open>str::parse\<close> at an unsigned type: one optional leading \<open>+\<close> (not alone), then one or more ASCII
  digits, refused on overflow. The bound is the type's maximum.
\<close>

definition digit_val :: "char \<Rightarrow> nat option" where
  "digit_val c = (let n = of_char c in if 48 \<le> n \<and> n \<le> 57 then Some (n - 48) else None)"

fun parse_digits :: "nat \<Rightarrow> string \<Rightarrow> nat option" where
  "parse_digits acc [] = Some acc"
| "parse_digits acc (c # cs) =
     (case digit_val c of None \<Rightarrow> None | Some d \<Rightarrow> parse_digits (10 * acc + d) cs)"

definition parse_uint :: "nat \<Rightarrow> string \<Rightarrow> nat option" where
  "parse_uint mx s =
     (case s of
        [] \<Rightarrow> None
      | c # cs \<Rightarrow>
          (case parse_digits 0 (if c = CHR ''+'' \<and> cs \<noteq> [] then cs else s) of
             None \<Rightarrow> None
           | Some n \<Rightarrow> if n \<le> mx then Some n else None))"

definition digit_char :: "nat \<Rightarrow> char" where
  "digit_char d = char_of (48 + d)"

fun show_nat :: "nat \<Rightarrow> string" where
  "show_nat n = (if n < 10 then [digit_char n] else show_nat (n div 10) @ [digit_char (n mod 10)])"

declare show_nat.simps [simp del]

lemma digit_val_char: "d < 10 \<Longrightarrow> digit_val (digit_char d) = Some d"
  by (simp add: digit_val_def digit_char_def of_char_of Let_def)

lemma parse_digits_append:
  "parse_digits acc (xs @ ys) =
     (case parse_digits acc xs of None \<Rightarrow> None | Some n \<Rightarrow> parse_digits n ys)"
  by (induction acc xs rule: parse_digits.induct) (auto split: option.splits)

lemma parse_digits_show_nat: "parse_digits 0 (show_nat n) = Some n"
proof (induction n rule: show_nat.induct)
  case (1 n)
  show ?case
  proof (cases "n < 10")
    case True
    then show ?thesis by (subst show_nat.simps) (simp add: digit_val_char)
  next
    case False
    with 1 show ?thesis
      by (subst show_nat.simps) (simp add: parse_digits_append digit_val_char)
  qed
qed

lemma digit_val_None_bounds: "of_char c < (48::nat) \<or> of_char c > (57::nat) \<Longrightarrow> digit_val c = None"
  by (auto simp: digit_val_def Let_def)

lemma show_nat_digits: "c \<in> set (show_nat n) \<Longrightarrow> digit_val c \<noteq> None"
proof (induction n rule: show_nat.induct)
  case (1 n)
  show ?case
  proof (cases "n < 10")
    case True
    with "1.prems" show ?thesis by (subst (asm) show_nat.simps) (simp add: digit_val_char)
  next
    case False
    with 1 show ?thesis by (subst (asm) show_nat.simps) (auto simp: digit_val_char)
  qed
qed

lemma show_nat_nonempty [simp]: "show_nat n \<noteq> []"
  by (subst show_nat.simps) simp

lemma not_in_show_nat [simp, text_simps]: "digit_val c = None \<Longrightarrow> c \<notin> set (show_nat n)"
  using show_nat_digits by blast

lemma punctuation_no_digit [simp, text_simps]:
  "digit_val (CHR ''+'') = None" "digit_val (CHR '':'') = None" "digit_val (CHR ''/'') = None"
  by (simp_all add: digit_val_def)

text \<open>The round trip every protocol-string parser rests on.\<close>

lemma parse_uint_show_nat [text_simps]: "n \<le> mx \<Longrightarrow> parse_uint mx (show_nat n) = Some n"
proof -
  assume le: "n \<le> mx"
  obtain c cs where s: "show_nat n = c # cs" by (cases "show_nat n") auto
  then have "c \<in> set (show_nat n)" by simp
  then have "c \<noteq> CHR ''+''" using not_in_show_nat[of "CHR ''+''" n] by auto
  with le s parse_digits_show_nat[of n] show ?thesis by (simp add: parse_uint_def)
qed

lemma parse_uint_bound: "parse_uint mx s = Some n \<Longrightarrow> n \<le> mx"
  by (auto simp: parse_uint_def split: list.splits option.splits if_splits)

section \<open>Ordered maps\<close>

text \<open>
  \<open>BTreeMap\<close> as an association list in strictly increasing key order; \<open>BTreeSet<String>\<close> is a
  \<^typ>\<open>string set\<close> wherever the code only asks membership and size.
\<close>

fun btree_insert :: "'k::linorder \<Rightarrow> 'v \<Rightarrow> ('k \<times> 'v) list \<Rightarrow> ('k \<times> 'v) list" where
  "btree_insert k v [] = [(k, v)]"
| "btree_insert k v ((k', v') # m) =
     (if k < k' then (k, v) # (k', v') # m
      else if k = k' then (k, v) # m
      else (k', v') # btree_insert k v m)"

abbreviation btree_ok :: "('k::linorder \<times> 'v) list \<Rightarrow> bool" where
  "btree_ok m \<equiv> sorted_wrt (<) (map fst m)"

lemma btree_insert_keys [simp]: "fst ` set (btree_insert k v m) = insert k (fst ` set m)"
  by (induction k v m rule: btree_insert.induct) auto

lemma btree_insert_ok [simp]: "btree_ok m \<Longrightarrow> btree_ok (btree_insert k v m)"
proof (induction k v m rule: btree_insert.induct)
  case (2 k v k' v' m)
  then have "\<forall>x \<in> fst ` set m. k' < x" by auto
  with 2 show ?case
    using btree_insert_keys[of k v m] by auto
qed simp

lemma btree_lookup_insert [simp]:
  "btree_ok m \<Longrightarrow> map_of (btree_insert k v m) = (map_of m)(k \<mapsto> v)"
proof (induction k v m rule: btree_insert.induct)
  case (2 k v k' v' m)
  then show ?case by (auto simp: fun_eq_iff)
qed (simp add: fun_eq_iff)

lemma btree_distinct: "btree_ok m \<Longrightarrow> distinct (map fst m)"
  using strict_sorted_iff by blast

lemma btree_eqI:
  assumes "btree_ok m" "btree_ok m'" "map_of m = map_of m'"
  shows "m = m'"
proof -
  have "set m = set m'"
    using assms by (simp add: btree_distinct map_of_inject_set)
  then have keys: "map fst m = map fst m'"
    using assms(1,2)
    by (metis list.set_map sorted_distinct_set_unique strict_sorted_iff)
  then show ?thesis
    using assms(3) btree_distinct[OF assms(1)] btree_distinct[OF assms(2)]
    by (intro nth_equalityI)
      (metis length_map, metis keys length_map map_of_eq_Some_iff nth_map nth_mem option.inject
        prod.collapse)
qed

definition btree_remove :: "'k \<Rightarrow> ('k \<times> 'v) list \<Rightarrow> ('k \<times> 'v) list" where
  "btree_remove k m = filter (\<lambda>kv. fst kv \<noteq> k) m"

lemma btree_remove_ok [simp]: "btree_ok m \<Longrightarrow> btree_ok (btree_remove k m)"
  by (induction m) (auto simp: btree_remove_def)

lemma btree_lookup_remove [simp]: "map_of (btree_remove k m) = (map_of m)(k := None)"
  by (induction m) (auto simp: btree_remove_def fun_eq_iff)

lemma btree_in_set_iff: "btree_ok m \<Longrightarrow> (k, v) \<in> set m \<longleftrightarrow> map_of m k = Some v"
  using map_of_eq_Some_iff[OF btree_distinct] by metis

lemma btree_fold_ok [simp]: "btree_ok m \<Longrightarrow> btree_ok (fold (\<lambda>x. btree_insert (f x) (g x)) xs m)"
  by (induction xs arbitrary: m) simp_all

lemma btree_fold_lookup:
  "btree_ok m \<Longrightarrow>
     map_of (fold (\<lambda>x. btree_insert (f x) (g x)) xs m) = map_of m ++ map_of (rev (map (\<lambda>x. (f x, g x)) xs))"
  by (induction xs arbitrary: m) (simp_all add: map_add_upds)

section \<open>Options\<close>

definition is_none_or :: "'a option \<Rightarrow> ('a \<Rightarrow> bool) \<Rightarrow> bool" where
  "is_none_or x f = (case x of None \<Rightarrow> True | Some y \<Rightarrow> f y)"

lemma is_none_or_simps [simp]: "is_none_or None f" "is_none_or (Some y) f \<longleftrightarrow> f y"
  by (simp_all add: is_none_or_def)

lemma is_none_or_cong: "(\<And>y. x = Some y \<Longrightarrow> f y = g y) \<Longrightarrow> is_none_or x f = is_none_or x g"
  by (simp add: is_none_or_def split: option.splits)

section \<open>Replaying dated events\<close>

text \<open>A log is replayed by sorting its events by a key that refines their instants and folding them into a
  state. The contract is shared by every fold that promises the same answer for every arrival order.\<close>

lemma sort_key_unique:
  assumes "mset xs = mset ys" "distinct (map f xs)"
  shows "sort_key f xs = sort_key f ys"
proof (rule map_inj_on)
  have "set ys = set xs" using assms(1) by (metis mset_eq_setD)
  then show "inj_on f (set (sort_key f xs) \<union> set (sort_key f ys))"
    using assms(2) by (simp add: distinct_map)
  have "sort (map f zs) = map f (sort_key f zs)" for zs
    by (rule properties_for_sort) (simp_all add: sorted_sort_key)
  moreover have "sort (map f xs) = sort (map f ys)"
    using assms(1) by (intro properties_for_sort) (simp_all add: sorted_sort_key)
  ultimately show "map f (sort_key f xs) = map f (sort_key f ys)" by simp
qed

lemma insort_key_last: "\<forall>x \<in> set xs. f x < f e \<Longrightarrow> insort_key f e xs = xs @ [e]"
  by (induction xs) auto

locale replay =
  fixes instant_of :: "'e \<Rightarrow> int" and order_of :: "'e \<Rightarrow> 'o::linorder" and apply_event :: "'e \<Rightarrow> 's \<Rightarrow> 's"
  assumes order_refines: "order_of a \<le> order_of b \<Longrightarrow> instant_of a \<le> instant_of b"
begin

abbreviation ordered_to :: "int \<Rightarrow> 'e list \<Rightarrow> 'e list" where
  "ordered_to t es \<equiv> sort_key order_of (filter (\<lambda>e. instant_of e \<le> t) es)"

abbreviation replay_to :: "int \<Rightarrow> 'e list \<Rightarrow> 's \<Rightarrow> 's" where
  "replay_to t es \<equiv> fold apply_event (ordered_to t es)"

lemma replay_perm: "mset es = mset es' \<Longrightarrow> distinct (map order_of es) \<Longrightarrow> ordered_to t es = ordered_to t es'"
  by (rule sort_key_unique) (simp_all add: distinct_map_filter)

lemma ordered_instants: "sorted (map instant_of (sort_key order_of es))"
proof -
  have "sorted (map order_of (sort_key order_of es))" by (rule sorted_sort_key)
  then have "sorted_wrt (\<lambda>a b. order_of a \<le> order_of b) (sort_key order_of es)" by (simp add: sorted_map)
  then show ?thesis
    unfolding sorted_map by (rule sorted_wrt_mono_rel[rotated]) (rule order_refines)
qed

lemma ordered_filter: "ordered_to t es = filter (\<lambda>e. instant_of e \<le> t) (sort_key order_of es)"
  by (simp add: filter_sort)

lemma filter_sorted_split:
  assumes "sorted (map instant_of es)"
  shows "es = filter (\<lambda>e. instant_of e \<le> t) es @ filter (\<lambda>e. t < instant_of e) es"
  using assms
proof (induction es)
  case (Cons e es)
  show ?case
  proof (cases "instant_of e \<le> t")
    case False
    with Cons.prems have "\<forall>x \<in> set es. t < instant_of x" by force
    then have "filter (\<lambda>e. instant_of e \<le> t) es = []" "filter (\<lambda>e. t < instant_of e) es = es"
      by (auto simp: filter_empty_conv filter_id_conv)
    with False show ?thesis by simp
  qed (use Cons in simp)
qed simp

lemma ordered_extend:
  assumes "t \<le> u"
  shows "ordered_to u es = ordered_to t es @ sort_key order_of (filter (\<lambda>e. t < instant_of e \<and> instant_of e \<le> u) es)"
proof -
  have "ordered_to u es = filter (\<lambda>e. instant_of e \<le> t) (ordered_to u es) @ filter (\<lambda>e. t < instant_of e) (ordered_to u es)"
    by (rule filter_sorted_split[OF ordered_instants])
  moreover have "filter (\<lambda>e. instant_of e \<le> t) (ordered_to u es) = ordered_to t es"
    using assms by (simp add: filter_sort) (rule arg_cong[where f = "sort_key order_of"], auto intro: filter_cong)
  ultimately show ?thesis by (simp add: filter_sort conj_commute)
qed

lemma ordered_alone:
  assumes "\<forall>x \<in> set es. instant_of x \<noteq> instant_of e"
  shows "ordered_to (instant_of e) (e # es) = ordered_to (instant_of e) es @ [e]"
proof -
  have "\<forall>x \<in> set (ordered_to (instant_of e) es). order_of x < order_of e"
  proof
    fix x assume "x \<in> set (ordered_to (instant_of e) es)"
    then have "instant_of x < instant_of e" using assms by fastforce
    then show "order_of x < order_of e" using order_refines[of e x] by force
  qed
  then show ?thesis by (simp add: insort_key_last)
qed

end

section \<open>JSON\<close>

text \<open>
  The value of a signed envelope or of a group's policy blob. A number is what the JSON text
  carries: a non-negative integer, a negative integer, or a fraction (an exact rational, which the
  code reads as the nearest double).
\<close>

datatype json_number = PosInt nat | NegInt int | Frac rat

datatype json =
    JNull
  | JBool bool
  | JNumber json_number
  | JString string
  | JArray "json list"
  | JObject "(string \<times> json) list"

fun json_get :: "json \<Rightarrow> string \<Rightarrow> json option" where
  "json_get (JObject kvs) k = map_of kvs k"
| "json_get _ k = None"

fun as_str :: "json \<Rightarrow> string option" where
  "as_str (JString s) = Some s"
| "as_str _ = None"

fun as_u64 :: "json \<Rightarrow> nat option" where
  "as_u64 (JNumber (PosInt n)) = (if n \<le> u64_max then Some n else None)"
| "as_u64 _ = None"

fun as_array :: "json \<Rightarrow> json list option" where
  "as_array (JArray xs) = Some xs"
| "as_array _ = None"

fun as_object :: "json \<Rightarrow> (string \<times> json) list option" where
  "as_object (JObject kvs) = Some kvs"
| "as_object _ = None"

section \<open>Calendar time\<close>

text \<open>
  Instants and durations are nanosecond counts. What \<open>chrono\<close> decides, the conversion of seconds to
  a duration, the largest duration, checked addition and the last representable instant, is a
  parameter of every definition that adds a window to an instant.
\<close>

type_synonym instant = int

record chrono =
  try_seconds :: "int \<Rightarrow> int option"
  duration_max :: int
  checked_add_signed :: "instant \<Rightarrow> int \<Rightarrow> instant option"
  max_utc :: instant

definition nanos :: "int \<Rightarrow> int" where
  "nanos s = s * 1000000000"

text \<open>
  The documented behaviour the code relies on: a duration of seconds is that many seconds, a
  checked addition that succeeds is the sum and is representable, and addition fails only past the
  representable range.
\<close>

definition chrono_laws :: "chrono \<Rightarrow> bool" where
  "chrono_laws C \<longleftrightarrow>
     (\<forall>s d. try_seconds C s = Some d \<longrightarrow> d = nanos s) \<and>
     (\<forall>t d t'. checked_add_signed C t d = Some t' \<longrightarrow> t' = t + d \<and> t' \<le> max_utc C) \<and>
     0 \<le> duration_max C"

definition chrono_std :: chrono where
  "chrono_std =
     \<lparr> try_seconds = (\<lambda>s. if \<bar>s\<bar> \<le> i64_max div 1000 then Some (nanos s) else None),
       duration_max = i64_max * 1000000,
       checked_add_signed =
         (\<lambda>t d. if t + d \<le> 8210266876799999999999 \<and> - 8334601228800000000000 \<le> t + d
                then Some (t + d) else None),
       max_utc = 8210266876799999999999 \<rparr>"

lemma chrono_std_laws: "chrono_laws chrono_std"
  by (auto simp: chrono_laws_def chrono_std_def i64_max_def split: if_splits)

section \<open>Joining\<close>

text \<open>\<open>[String]::join\<close>.\<close>

fun join :: "string \<Rightarrow> string list \<Rightarrow> string" where
  "join sep [] = []"
| "join sep [x] = x"
| "join sep (x # y # xs) = x @ sep @ join sep (y # xs)"

end
