(* ===== verification/Majority.thy ===== *)
theory Majority
  imports Persist_Prelude
begin

text \<open>
  The interface between the counting rules and the decisions built on them: a threshold that always
  exceeds half of its base. The clients of the interface are the two-path decision, the reverse
  quorum and the consensus evaluator, and each of them provides interpretations on its own
  thresholds.

  \<open>ciris_verify_core::accord_genesis::strict_majority\<close> is not part of the repository: it is an argument
  \<open>sm\<close> of every definition that calls it, and its documented value is the predicate
  \<open>strict_majority_law\<close>.
\<close>

locale majority_threshold =
  fixes need :: "nat \<Rightarrow> nat"
  assumes over_half: "n < 2 * need n"
begin

lemma need_pos: "0 < need n"
  using over_half[of n] by simp

text \<open>No two disjoint groups of one electorate both reach the threshold.\<close>

lemma exclusive: "a + b \<le> n \<Longrightarrow> need n \<le> a \<Longrightarrow> b < need n"
  using over_half[of n] by simp

text \<open>One voice never reaches the threshold of an electorate of two or more.\<close>

lemma one_voice_short: "2 \<le> n \<Longrightarrow> 1 < need n"
  using over_half[of n] by simp

text \<open>Any two groups that reach the threshold share a member.\<close>

lemma quorums_meet:
  assumes fin: "finite R" and sub: "A \<subseteq> R" "B \<subseteq> R"
    and reach: "need (card R) \<le> card A" "need (card R) \<le> card B"
  shows "A \<inter> B \<noteq> {}"
proof
  assume disj: "A \<inter> B = {}"
  have finAB: "finite A" "finite B" using fin sub finite_subset by auto
  have "card A + card B = card (A \<union> B)"
    using disj finAB by (simp add: card_Un_disjoint)
  also have "\<dots> \<le> card R" using fin sub by (intro card_mono) auto
  finally show False using reach over_half[of "card R"] by linarith
qed

end

text \<open>The strict majority: the least threshold of that kind.\<close>

locale least_majority = majority_threshold +
  assumes at_most: "need n \<le> n div 2 + 1"
begin

lemma need_eq: "need n = n div 2 + 1"
  using over_half[of n] at_most[of n] by linarith

lemma reached_iff: "need n \<le> k \<longleftrightarrow> n < 2 * k"
  by (auto simp: need_eq)

end

definition strict_majority_law :: "(nat \<Rightarrow> nat) \<Rightarrow> bool" where
  "strict_majority_law sm \<longleftrightarrow> (\<forall>n. sm n = n div 2 + 1)"

lemma strict_majority_lawD: "strict_majority_law sm \<Longrightarrow> sm n = n div 2 + 1"
  by (simp add: strict_majority_law_def)

lemma strict_majority_law_least: "strict_majority_law sm \<Longrightarrow> least_majority sm"
  by unfold_locales (simp_all add: strict_majority_lawD)

lemma strict_majority_law_majority: "strict_majority_law sm \<Longrightarrow> majority_threshold sm"
  by unfold_locales (simp add: strict_majority_lawD)

lemma strict_majority_law_doc: "strict_majority_law (\<lambda>n. n div 2 + 1)"
  by (simp add: strict_majority_law_def)

text \<open>Raising a majority threshold keeps it one.\<close>

lemma majority_threshold_mono:
  assumes "majority_threshold f" and "\<And>n. f n \<le> g n"
  shows "majority_threshold g"
proof
  fix n
  show "n < 2 * g n"
    using majority_threshold.over_half[OF assms(1), of n] assms(2)[of n] by linarith
qed

end
