(* ===== verification/Two_Path.thy ===== *)
theory Two_Path
  imports Majority "HOL-Library.Product_Lexorder"
begin

text \<open>
  The two-path decision (\<open>src/src/federation/two_path.rs\<close>): one member's proposal, a window, and the
  standing roster deciding whether it lands, by a quorum of approvals at once or by the window
  passing without a cancelling quorum of objections. The module is pure; \<open>decide\<close> and \<open>decide_all\<close>
  are translated whole, with the panic of an instant beyond the calendar as \<open>None\<close>.
\<close>

section \<open>The policy vocabulary\<close>

datatype proposal_kind = Add | Evict

datatype silence_rule = EvictOnly | SilenceNever

datatype cmp = MoreThan | AtLeast

datatype threshold = StrictMajority | Fraction (th_num: nat) (th_den: nat) (th_cmp: cmp)

definition div_ceil :: "nat \<Rightarrow> nat \<Rightarrow> nat" where
  "div_ceil a b = (a + b - 1) div b"

fun votes :: "(nat \<Rightarrow> nat) \<Rightarrow> threshold \<Rightarrow> nat \<Rightarrow> nat" where
  "votes sm StrictMajority n = sm n"
| "votes sm (Fraction num den c) n =
     (let den = max den 1 in
      case c of
        MoreThan \<Rightarrow> num * n div den + 1
      | AtLeast \<Rightarrow> div_ceil (num * n) den)"

datatype side = Forward | Reverse

datatype base = StandingRoster

fun base_count :: "base \<Rightarrow> string set \<Rightarrow> string \<Rightarrow> side \<Rightarrow> bool \<Rightarrow> nat" where
  "base_count StandingRoster roster proposer Forward exclude_proposer = card roster"
| "base_count StandingRoster roster proposer Reverse exclude_proposer =
     card roster - (if exclude_proposer \<and> proposer \<in> roster then 1 else 0)"

datatype floor_class = Voters | SameIdentity

fun min_count :: "floor_class \<Rightarrow> nat" where
  "min_count Voters = 2"
| "min_count SameIdentity = 1"

datatype cancel_over = CancelOverBase | CancelOverOthers

datatype at_window = WindowCancel | WindowStayOpen

record two_path_policy =
  tp_base :: base
  tp_enact :: threshold
  tp_cancel :: "threshold option"
  tp_cancel_over :: cancel_over
  tp_floor :: "threshold option"
  tp_floor_class :: floor_class
  tp_reverse_path :: bool
  tp_at_window :: at_window
  tp_irreversible :: bool
  tp_window_secs :: int
  tp_silence :: silence_rule
  tp_one_open_per_proposer :: bool
  tp_one_open_per_target :: bool

record resolved =
  r_enact :: nat
  r_cancel :: "nat option"
  r_floor :: "nat option"

record counts =
  c_approvals :: nat
  c_objections :: nat
  c_target_spoke :: bool
  c_window_closed :: bool

datatype landing_path = Quorum | Lone

datatype cancel_reason = CancelReached | BelowFloor | NoReversePath | TargetSpoke

datatype two_path_refusal =
    ProposerNotOnRoster
  | TargetAlreadyOnRoster
  | TargetNotOnRoster
  | ProposerIsTarget
  | ProposerHasOpenProposal
  | TargetHasOpenProposal

datatype two_path_decision =
    Lands landing_path
  | Pending "instant option" nat
  | Refused two_path_refusal
  | Cancelled cancel_reason

fun lands :: "two_path_decision \<Rightarrow> bool" where
  "lands (Lands p) = True"
| "lands _ = False"

section \<open>Resolving a policy and deciding over counts\<close>

definition resolve_over ::
  "(nat \<Rightarrow> nat) \<Rightarrow> two_path_policy \<Rightarrow> nat \<Rightarrow> nat \<Rightarrow> resolved" where
  "resolve_over sm p forward reverse =
     (let mc = min_count (tp_floor_class p) in
      \<lparr> r_enact = votes sm (tp_enact p) forward,
        r_cancel = map_option (\<lambda>c. max (votes sm c reverse) mc) (tp_cancel p),
        r_floor = map_option (\<lambda>f. max (votes sm f forward) mc) (tp_floor p) \<rparr>)"

definition resolve ::
  "(nat \<Rightarrow> nat) \<Rightarrow> two_path_policy \<Rightarrow> string set \<Rightarrow> string \<Rightarrow> resolved" where
  "resolve sm p roster proposer =
     resolve_over sm p
       (base_count (tp_base p) roster proposer Forward False)
       (base_count (tp_base p) roster proposer Reverse (tp_cancel_over p = CancelOverOthers))"

definition decide_counts ::
  "two_path_policy \<Rightarrow> resolved \<Rightarrow> counts \<Rightarrow> instant \<Rightarrow> two_path_decision" where
  "decide_counts p r c opens_at =
     (let enact_met = r_enact r \<le> c_approvals c in
      if enact_met \<and> \<not> tp_irreversible p then Lands Quorum
      else
        let cancel_reached =
              (case r_cancel r of None \<Rightarrow> False | Some v \<Rightarrow> v \<le> c_objections c);
            lone_open = (tp_reverse_path p \<and> \<not> cancel_reached \<and> \<not> c_target_spoke c);
            pending = Pending (if lone_open then Some opens_at else None)
                        (r_enact r - c_approvals c);
            cancelled = (\<lambda>reason. case tp_at_window p of
                           WindowCancel \<Rightarrow> Cancelled reason
                         | WindowStayOpen \<Rightarrow> pending)
        in
        if \<not> c_window_closed c then pending
        else if cancel_reached then cancelled CancelReached
        else if enact_met then Lands Quorum
        else if \<not> tp_reverse_path p then cancelled NoReversePath
        else if c_target_spoke c then cancelled TargetSpoke
        else if (case r_floor r of None \<Rightarrow> False | Some f \<Rightarrow> f \<le> c_approvals c) then Lands Lone
        else cancelled BelowFloor)"

section \<open>The corridor\<close>

datatype corridor_refusal =
    CancelAboveEnact
  | EnactBelowStrictMajority
  | FloorAboveEnact
  | CancelBySingleVoter
  | EnactNeedsEveryone
  | EnactBySingleVoter
  | CancelNeedsEveryone
  | FloorBelowTwoVoters
  | WindowBelowFloor

definition check_corridor ::
  "(nat \<Rightarrow> nat) \<Rightarrow> two_path_policy \<Rightarrow> nat \<Rightarrow> int \<Rightarrow> corridor_refusal + unit" where
  "check_corridor sm p base_n family_floor_secs =
     (let e = votes sm (tp_enact p) base_n;
          c = votes sm (case tp_cancel p of None \<Rightarrow> tp_enact p | Some t \<Rightarrow> t) base_n;
          f = votes sm (case tp_floor p of None \<Rightarrow> tp_enact p | Some t \<Rightarrow> t) base_n;
          many = 1 < base_n
      in
      if many \<and> e \<le> 1 then Inl EnactBySingleVoter
      else if many \<and> base_n \<le> c then Inl CancelNeedsEveryone
      else if e < c then Inl CancelAboveEnact
      else if e < sm base_n then Inl EnactBelowStrictMajority
      else if e < f then Inl FloorAboveEnact
      else if many \<and> c \<le> 1 then Inl CancelBySingleVoter
      else if many \<and> base_n \<le> e then Inl EnactNeedsEveryone
      else if f < 2 \<and> tp_floor_class p \<noteq> SameIdentity then Inl FloorBelowTwoVoters
      else if tp_window_secs p < family_floor_secs then Inl WindowBelowFloor
      else Inr ())"

section \<open>Deciding a proposal\<close>

record proposal =
  pr_id :: string
  pr_kind :: proposal_kind
  pr_proposer :: string
  pr_target :: string
  pr_asserted_at :: instant
  pr_received_at :: instant

record answers =
  approvers :: "string set"
  objectors :: "string set"
  target_acts :: "instant list"

record open_ahead =
  by_proposer :: bool
  on_target :: bool

text \<open>
  \<open>received_at + Duration::seconds(window_secs)\<close>: both the conversion and the addition panic when
  the result is not representable.
\<close>

definition opens_at :: "chrono \<Rightarrow> two_path_policy \<Rightarrow> proposal \<Rightarrow> instant option" where
  "opens_at C policy pr =
     (case try_seconds C (tp_window_secs policy) of
        None \<Rightarrow> None
      | Some d \<Rightarrow> checked_add_signed C (pr_received_at pr) d)"

definition live_votes :: "string set \<Rightarrow> proposal \<Rightarrow> string set \<Rightarrow> string set" where
  "live_votes roster pr keys = {k \<in> keys. k \<in> roster \<and> k \<noteq> pr_proposer pr}"

definition decide_refusal ::
  "string set \<Rightarrow> proposal \<Rightarrow> open_ahead \<Rightarrow> two_path_policy \<Rightarrow> two_path_refusal option" where
  "decide_refusal roster pr ahead policy =
     (if pr_proposer pr \<notin> roster then Some ProposerNotOnRoster
      else if pr_kind pr = Add \<and> pr_target pr \<in> roster then Some TargetAlreadyOnRoster
      else if pr_kind pr = Evict \<and> pr_target pr = pr_proposer pr then Some ProposerIsTarget
      else if pr_kind pr = Evict \<and> pr_target pr \<notin> roster then Some TargetNotOnRoster
      else if tp_one_open_per_proposer policy \<and> by_proposer ahead
        then Some ProposerHasOpenProposal
      else if tp_one_open_per_target policy \<and> on_target ahead then Some TargetHasOpenProposal
      else None)"

definition silence_asked :: "two_path_policy \<Rightarrow> proposal \<Rightarrow> bool" where
  "silence_asked policy pr =
     (case tp_silence policy of EvictOnly \<Rightarrow> pr_kind pr = Evict | SilenceNever \<Rightarrow> False)"

definition proposal_counts ::
  "string set \<Rightarrow> proposal \<Rightarrow> answers \<Rightarrow> instant \<Rightarrow> two_path_policy \<Rightarrow> instant \<Rightarrow> counts" where
  "proposal_counts roster pr ans now policy opens =
     (let obj = live_votes roster pr (objectors ans);
          app = live_votes roster pr (approvers ans) - obj
      in
      \<lparr> c_approvals = card app + 1,
        c_objections = card obj,
        c_target_spoke =
          (silence_asked policy pr \<and> (\<exists>a \<in> set (target_acts ans). pr_received_at pr \<le> a)),
        c_window_closed = (opens \<le> now) \<rparr>)"

definition decide ::
  "chrono \<Rightarrow> (nat \<Rightarrow> nat) \<Rightarrow> string set \<Rightarrow> proposal \<Rightarrow> answers \<Rightarrow> open_ahead \<Rightarrow> instant
     \<Rightarrow> two_path_policy \<Rightarrow> two_path_decision option" where
  "decide C sm roster pr ans ahead now policy =
     (case decide_refusal roster pr ahead policy of
        Some reason \<Rightarrow> Some (Refused reason)
      | None \<Rightarrow>
          (case opens_at C policy pr of
             None \<Rightarrow> None
           | Some opens \<Rightarrow>
               Some (decide_counts policy (resolve sm policy roster (pr_proposer pr))
                       (proposal_counts roster pr ans now policy opens) opens)))"

section \<open>Deciding every proposal a roster holds\<close>

fun is_open :: "two_path_decision \<Rightarrow> bool" where
  "is_open (Refused r) = False"
| "is_open (Cancelled r) = False"
| "is_open _ = True"

definition ahead_of :: "proposal list \<Rightarrow> proposal \<Rightarrow> open_ahead" where
  "ahead_of opn p =
     \<lparr> by_proposer = (\<exists>q \<in> set opn. pr_proposer q = pr_proposer p),
       on_target = (\<exists>q \<in> set opn. pr_kind q = pr_kind p \<and> pr_target q = pr_target p) \<rparr>"

fun decide_loop ::
  "chrono \<Rightarrow> (nat \<Rightarrow> nat) \<Rightarrow> string set \<Rightarrow> instant \<Rightarrow> two_path_policy \<Rightarrow> proposal list
     \<Rightarrow> (proposal \<times> answers) list \<Rightarrow> (proposal \<times> two_path_decision) list option" where
  "decide_loop C sm roster now policy opn [] = Some []"
| "decide_loop C sm roster now policy opn ((p, ans) # rest) =
     (case decide C sm roster p ans (ahead_of opn p) now policy of
        None \<Rightarrow> None
      | Some d \<Rightarrow>
          map_option ((#) (p, d))
            (decide_loop C sm roster now policy (if is_open d then opn @ [p] else opn) rest))"

definition proposal_order :: "proposal \<times> answers \<Rightarrow> instant \<times> string" where
  "proposal_order pa = (pr_asserted_at (fst pa), pr_id (fst pa))"

definition decide_all ::
  "chrono \<Rightarrow> (nat \<Rightarrow> nat) \<Rightarrow> string set \<Rightarrow> (proposal \<times> answers) list \<Rightarrow> instant
     \<Rightarrow> two_path_policy \<Rightarrow> (proposal \<times> two_path_decision) list option" where
  "decide_all C sm roster proposals now policy =
     decide_loop C sm roster now policy [] (sort_key proposal_order proposals)"

section \<open>Stable tokens\<close>

fun proposal_kind_str :: "proposal_kind \<Rightarrow> string" where
  "proposal_kind_str Add = ''add''"
| "proposal_kind_str Evict = ''evict''"

fun cancel_reason_str :: "cancel_reason \<Rightarrow> string" where
  "cancel_reason_str CancelReached = ''cancel_reached''"
| "cancel_reason_str BelowFloor = ''below_floor''"
| "cancel_reason_str NoReversePath = ''no_reverse_path''"
| "cancel_reason_str TargetSpoke = ''target_spoke''"

fun corridor_refusal_str :: "corridor_refusal \<Rightarrow> string" where
  "corridor_refusal_str CancelAboveEnact = ''cancel_above_enact''"
| "corridor_refusal_str EnactBelowStrictMajority = ''enact_below_strict_majority''"
| "corridor_refusal_str FloorAboveEnact = ''floor_above_enact''"
| "corridor_refusal_str CancelBySingleVoter = ''cancel_by_single_voter''"
| "corridor_refusal_str EnactNeedsEveryone = ''enact_needs_everyone''"
| "corridor_refusal_str EnactBySingleVoter = ''enact_by_single_voter''"
| "corridor_refusal_str CancelNeedsEveryone = ''cancel_needs_everyone''"
| "corridor_refusal_str FloorBelowTwoVoters = ''floor_below_two_voters''"
| "corridor_refusal_str WindowBelowFloor = ''window_below_floor''"

fun two_path_refusal_str :: "two_path_refusal \<Rightarrow> string" where
  "two_path_refusal_str ProposerNotOnRoster = ''proposer_not_on_roster''"
| "two_path_refusal_str TargetAlreadyOnRoster = ''target_already_on_roster''"
| "two_path_refusal_str TargetNotOnRoster = ''target_not_on_roster''"
| "two_path_refusal_str ProposerIsTarget = ''proposer_is_target''"
| "two_path_refusal_str ProposerHasOpenProposal = ''proposer_has_open_proposal''"
| "two_path_refusal_str TargetHasOpenProposal = ''target_has_open_proposal''"

fun decision_token :: "two_path_decision \<Rightarrow> string" where
  "decision_token (Lands p) = ''lands''"
| "decision_token (Pending a n) = ''pending''"
| "decision_token (Refused reason) = two_path_refusal_str reason"
| "decision_token (Cancelled reason) = ''cancelled''"

text \<open>A token names its refusal: what a caller logs is enough to tell the clauses apart.\<close>

lemma corridor_refusal_str_inj: "corridor_refusal_str a = corridor_refusal_str b \<longleftrightarrow> a = b"
  by (cases a; cases b) simp_all

lemma two_path_refusal_str_inj: "two_path_refusal_str a = two_path_refusal_str b \<longleftrightarrow> a = b"
  by (cases a; cases b) simp_all

lemma decision_token_refusal:
  "decision_token d = two_path_refusal_str r \<longleftrightarrow> d = Refused r"
proof (cases d)
  case (Refused x)
  then show ?thesis by (simp add: two_path_refusal_str_inj)
qed (cases r; simp)+

section \<open>What a threshold counts\<close>

lemma max_one [simp]: "0 < d \<Longrightarrow> max d (Suc 0) = d"
  by simp

lemma more_than_reached:
  "0 < den \<Longrightarrow> votes sm (Fraction num den MoreThan) n \<le> k \<longleftrightarrow> num * n < k * den"
  by (simp add: Let_def Suc_le_eq div_less_iff_less_mult)

lemma at_least_reached:
  assumes "0 < den"
  shows "votes sm (Fraction num den AtLeast) n \<le> k \<longleftrightarrow> num * n \<le> k * den"
proof -
  have "votes sm (Fraction num den AtLeast) n \<le> k \<longleftrightarrow> (num * n + den - 1) div den < k + 1"
    using assms by (simp add: Let_def div_ceil_def less_Suc_eq_le)
  also have "\<dots> \<longleftrightarrow> num * n + den - 1 < (k + 1) * den"
    using assms by (simp only: div_less_iff_less_mult)
  also have "\<dots> \<longleftrightarrow> num * n \<le> k * den"
    using assms by auto
  finally show ?thesis .
qed

interpretation half_votes: least_majority "votes sm (Fraction 1 2 MoreThan)" for sm
  by unfold_locales (simp_all add: Let_def numeral_2_eq_2[symmetric])

text \<open>A fraction threshold asks exactly the votes its comparison names: \<open>more than num/den\<close> is reached
  by \<open>k\<close> votes of a base of \<open>n\<close> iff \<open>k * den > num * n\<close>, \<open>at least num/den\<close> iff \<open>k * den \<ge> num * n\<close>.\<close>

theorem fraction_votes_exact:
  assumes "0 < den"
  shows "(votes sm (Fraction num den MoreThan) n \<le> k \<longleftrightarrow> num * n < k * den) \<and>
         (votes sm (Fraction num den AtLeast) n \<le> k \<longleftrightarrow> num * n \<le> k * den)"
  using assms more_than_reached at_least_reached by blast

theorem fraction_votes_exact_witness:
  "(votes (\<lambda>n. n div 2 + 1) (Fraction 2 3 MoreThan) 7 \<le> 5 \<longleftrightarrow> 2 * 7 < 5 * (3::nat)) \<and>
   (votes (\<lambda>n. n div 2 + 1) (Fraction 2 3 AtLeast) 7 \<le> 5 \<longleftrightarrow> 2 * 7 \<le> 5 * (3::nat))"
  using fraction_votes_exact[of 3 "\<lambda>n. n div 2 + 1" 2 7 5] by simp

text \<open>Resolving a policy over a base of at most \<open>2^32 - 1\<close> voters never overflows \<open>usize\<close>: a fraction's
  members are \<open>u32\<close>, so the product the code forms fits 64 bits, and the vote count stays below it.\<close>

theorem votes_no_overflow:
  assumes "num \<le> u32_max" "n \<le> u32_max"
  shows "num * n + 1 \<le> usize_max \<and> votes sm (Fraction num den c) n \<le> num * n + 1"
proof -
  have "num * n \<le> u32_max * u32_max" using assms by (rule mult_le_mono)
  then have "num * n + 1 \<le> usize_max" by (simp add: u32_max_def usize_max_def)
  moreover have "num * n div m \<le> num * n" for m by (rule div_le_dividend)
  moreover have "div_ceil (num * n) d \<le> num * n + 1" if "0 < d" for d
  proof -
    have "num * n + d - 1 \<le> (num * n + 1) * d"
      using that by (cases d) auto
    then have "(num * n + d - 1) div d \<le> (num * n + 1) * d div d"
      by (rule div_le_mono)
    then show ?thesis using that by (simp add: div_ceil_def)
  qed
  ultimately show ?thesis by (cases c) (auto simp: Let_def)
qed

theorem votes_no_overflow_witness:
  "(2::nat) * 10000 + 1 \<le> usize_max \<and>
   votes (\<lambda>n. n div 2 + 1) (Fraction 2 3 MoreThan) 10000 \<le> 2 * 10000 + 1"
  using votes_no_overflow[of 2 10000 "\<lambda>n. n div 2 + 1" 3 MoreThan] by (simp add: u32_max_def)

section \<open>The decision over counts\<close>

abbreviation cancel_met :: "resolved \<Rightarrow> counts \<Rightarrow> bool" where
  "cancel_met r c \<equiv> (case r_cancel r of None \<Rightarrow> False | Some v \<Rightarrow> v \<le> c_objections c)"

abbreviation floor_met :: "resolved \<Rightarrow> counts \<Rightarrow> bool" where
  "floor_met r c \<equiv> (case r_floor r of None \<Rightarrow> False | Some f \<Rightarrow> f \<le> c_approvals c)"

lemma decide_counts_quorum_iff:
  "decide_counts p r c t = Lands Quorum \<longleftrightarrow>
     r_enact r \<le> c_approvals c \<and>
     (tp_irreversible p \<longrightarrow> c_window_closed c \<and> \<not> cancel_met r c)"
  by (auto simp: decide_counts_def Let_def split: option.splits at_window.splits)

lemma decide_counts_lone_iff:
  "decide_counts p r c t = Lands Lone \<longleftrightarrow>
     \<not> r_enact r \<le> c_approvals c \<and> c_window_closed c \<and> \<not> cancel_met r c \<and>
     tp_reverse_path p \<and> \<not> c_target_spoke c \<and> floor_met r c"
  by (auto simp: decide_counts_def Let_def split: option.splits at_window.splits)

lemma lands_iff: "lands d \<longleftrightarrow> d = Lands Quorum \<or> d = Lands Lone"
  by (cases d) (auto intro: landing_path.exhaust)

lemma lands_reversible:
  "\<not> tp_irreversible p \<Longrightarrow> tp_reverse_path p \<Longrightarrow> floor_met r c \<Longrightarrow>
     lands (decide_counts p r c t) \<longleftrightarrow>
       r_enact r \<le> c_approvals c \<or>
       c_window_closed c \<and> \<not> cancel_met r c \<and> \<not> c_target_spoke c"
  unfolding lands_iff decide_counts_quorum_iff decide_counts_lone_iff by blast

lemma decide_counts_never_refuses: "decide_counts p r c t \<noteq> Refused x"
  by (auto simp: decide_counts_def Let_def split: option.splits at_window.splits)

lemma decide_counts_pending_some:
  "decide_counts p r c t = Pending (Some t') n \<Longrightarrow>
     t' = t \<and> tp_reverse_path p \<and> \<not> cancel_met r c \<and> \<not> c_target_spoke c \<and>
     (r_enact r \<le> c_approvals c \<longrightarrow> tp_irreversible p)"
  by (auto simp: decide_counts_def Let_def split: option.splits at_window.splits if_splits)

lemma decide_counts_stay_open:
  "tp_at_window p = WindowStayOpen \<Longrightarrow> decide_counts p r c t \<noteq> Cancelled x"
  by (auto simp: decide_counts_def Let_def split: option.splits)

lemma decideE:
  assumes "decide C sm roster pr ans ahead now policy = Some d" "\<And>r. d \<noteq> Refused r"
  obtains t where "decide_refusal roster pr ahead policy = None"
    and "opens_at C policy pr = Some t"
    and "d = decide_counts policy (resolve sm policy roster (pr_proposer pr))
               (proposal_counts roster pr ans now policy t) t"
  using assms by (auto simp: decide_def split: option.splits)

lemma decide_refusal_NoneD:
  "decide_refusal roster pr ahead policy = None \<Longrightarrow>
     pr_proposer pr \<in> roster \<and>
     (tp_one_open_per_proposer policy \<longrightarrow> \<not> by_proposer ahead) \<and>
     (tp_one_open_per_target policy \<longrightarrow> \<not> on_target ahead)"
  by (auto simp: decide_refusal_def split: if_splits)

text \<open>An irreversible policy never lands at once: whatever the approvals, a landing comes only after the
  window has closed on the node's clock and with no cancelling quorum of objections standing.\<close>

theorem irreversible_waits:
  assumes "decide C sm roster pr ans ahead now policy = Some (Lands path)"
    and "tp_irreversible policy"
  shows "\<exists>t. opens_at C policy pr = Some t \<and> t \<le> now \<and>
     (\<forall>v. r_cancel (resolve sm policy roster (pr_proposer pr)) = Some v \<longrightarrow>
        card (live_votes roster pr (objectors ans)) < v)"
proof -
  from assms(1) obtain t where t: "opens_at C policy pr = Some t"
    and d: "decide_counts policy (resolve sm policy roster (pr_proposer pr))
              (proposal_counts roster pr ans now policy t) t = Lands path"
    by (auto elim!: decideE)
  from d assms(2) have "c_window_closed (proposal_counts roster pr ans now policy t)"
    and "\<not> cancel_met (resolve sm policy roster (pr_proposer pr))
             (proposal_counts roster pr ans now policy t)"
    by (cases path; simp add: decide_counts_quorum_iff decide_counts_lone_iff)+
  with t show ?thesis by (auto simp: proposal_counts_def Let_def)
qed

section \<open>The self-roster predicate\<close>

text \<open>
  The predicate the module documents (and CC's model states) for a roster of one person's keys:
  \<open>QuorumLands\<close> is a strict majority of the live roster, the proposer counted; \<open>LoneLands\<close> is the
  elapsed window, no strict majority of the other members objecting, and for an eviction a silent
  target. \<open>self_roster_shape\<close> is the policy that names this rule.
\<close>

definition majority_of :: "nat \<Rightarrow> nat \<Rightarrow> bool" where
  "majority_of k n \<longleftrightarrow> n < 2 * k"

definition quorum_lands :: "string set \<Rightarrow> proposal \<Rightarrow> answers \<Rightarrow> bool" where
  "quorum_lands member p ans \<longleftrightarrow>
     majority_of
       (card (insert (pr_proposer p)
          (live_votes member p (approvers ans) - live_votes member p (objectors ans))))
       (card member)"

definition lone_lands :: "string set \<Rightarrow> proposal \<Rightarrow> answers \<Rightarrow> instant \<Rightarrow> instant \<Rightarrow> bool" where
  "lone_lands member p ans t now \<longleftrightarrow>
     t \<le> now \<and>
     \<not> majority_of (card (live_votes member p (objectors ans))) (card (member - {pr_proposer p})) \<and>
     (pr_kind p = Add \<or> \<not> (\<exists>a \<in> set (target_acts ans). pr_received_at p \<le> a))"

definition self_roster_shape :: "two_path_policy \<Rightarrow> bool" where
  "self_roster_shape p \<longleftrightarrow>
     tp_base p = StandingRoster \<and> tp_enact p = Fraction 1 2 MoreThan \<and>
     tp_cancel p = Some StrictMajority \<and> tp_cancel_over p = CancelOverOthers \<and>
     tp_floor p = Some (Fraction 0 1 AtLeast) \<and> tp_floor_class p = SameIdentity \<and>
     tp_reverse_path p \<and> tp_at_window p = WindowStayOpen \<and> \<not> tp_irreversible p \<and>
     tp_silence p = EvictOnly"

lemma shape_rev:
  "self_roster_shape p \<Longrightarrow> \<not> tp_irreversible p" "self_roster_shape p \<Longrightarrow> tp_reverse_path p"
  by (simp_all add: self_roster_shape_def)

lemma live_votes_no_proposer: "pr_proposer p \<notin> live_votes roster p ks"
  by (simp add: live_votes_def)

lemma finite_live_votes: "finite roster \<Longrightarrow> finite (live_votes roster p ks)"
  by (rule finite_subset[of _ roster]) (auto simp: live_votes_def)

lemma self_shape_resolve:
  assumes "strict_majority_law sm" "self_roster_shape p" "finite roster" "x \<in> roster"
  shows "r_enact (resolve sm p roster x) \<le> k \<longleftrightarrow> majority_of k (card roster)"
    and "\<exists>v. r_cancel (resolve sm p roster x) = Some v \<and>
             (\<forall>k. v \<le> k \<longleftrightarrow> majority_of k (card (roster - {x})))"
    and "r_floor (resolve sm p roster x) = Some 1"
proof -
  show "r_enact (resolve sm p roster x) \<le> k \<longleftrightarrow> majority_of k (card roster)"
    using assms(2) half_votes.reached_iff[of sm "card roster" k]
    by (simp add: self_roster_shape_def resolve_def resolve_over_def majority_of_def del: votes.simps)
  show "r_floor (resolve sm p roster x) = Some 1"
    using assms(2) by (simp add: self_roster_shape_def resolve_def resolve_over_def div_ceil_def)
  have "card (roster - {x}) = card roster - 1" using assms(3,4) by simp
  with assms strict_majority_lawD[OF assms(1)]
  show "\<exists>v. r_cancel (resolve sm p roster x) = Some v \<and>
             (\<forall>k. v \<le> k \<longleftrightarrow> majority_of k (card (roster - {x})))"
    by (auto simp: self_roster_shape_def resolve_def resolve_over_def majority_of_def max_def)
qed

text \<open>C1: The decision implements the documented predicate. Under the self-roster policy, a well-formed
  proposal lands at \<open>now\<close> exactly when \<open>QuorumLands\<close> or \<open>LoneLands\<close> holds of the live roster; in
  particular votes of keys off the roster, the proposer's own answers and the approvals of a key
  that also objected count for nothing.\<close>

theorem decide_implements_two_paths:
  assumes sm: "strict_majority_law sm" and shape: "self_roster_shape policy"
    and fin: "finite roster"
    and wf: "decide_refusal roster pr ahead policy = None"
    and t: "opens_at C policy pr = Some t"
  shows "\<exists>d. decide C sm roster pr ans ahead now policy = Some d \<and>
           (lands d \<longleftrightarrow> quorum_lands roster pr ans \<or> lone_lands roster pr ans t now)"
proof -
  let ?r = "resolve sm policy roster (pr_proposer pr)"
  let ?c = "proposal_counts roster pr ans now policy t"
  from wf have mem: "pr_proposer pr \<in> roster" by (auto dest: decide_refusal_NoneD)
  have app: "c_approvals ?c = card (insert (pr_proposer pr)
      (live_votes roster pr (approvers ans) - live_votes roster pr (objectors ans)))"
    using finite_live_votes[OF fin] live_votes_no_proposer
    by (simp add: proposal_counts_def Let_def)
  have enact: "r_enact ?r \<le> c_approvals ?c \<longleftrightarrow> quorum_lands roster pr ans"
    using self_shape_resolve(1)[OF sm shape fin mem, of "c_approvals ?c"]
    by (simp only: quorum_lands_def app)
  have cancel: "cancel_met ?r ?c \<longleftrightarrow>
      majority_of (card (live_votes roster pr (objectors ans))) (card (roster - {pr_proposer pr}))"
  proof -
    obtain v where "r_cancel ?r = Some v"
      and v: "\<And>k. v \<le> k \<longleftrightarrow> majority_of k (card (roster - {pr_proposer pr}))"
      using self_shape_resolve(2)[OF sm shape fin mem] by blast
    then show ?thesis by (simp only: option.case v proposal_counts_def Let_def counts.simps)
  qed
  have closed: "c_window_closed ?c \<longleftrightarrow> t \<le> now"
    and spoke: "c_target_spoke ?c \<longleftrightarrow>
      pr_kind pr \<noteq> Add \<and> (\<exists>a \<in> set (target_acts ans). pr_received_at pr \<le> a)"
    and floor: "floor_met ?r ?c"
    using shape self_shape_resolve(3)[OF sm shape fin mem]
    by (cases "pr_kind pr";
        simp add: self_roster_shape_def proposal_counts_def Let_def silence_asked_def)+
  have "lands (decide_counts policy ?r ?c t) \<longleftrightarrow>
      quorum_lands roster pr ans \<or> lone_lands roster pr ans t now"
    unfolding lands_reversible[OF shape_rev(1)[OF shape] shape_rev(2)[OF shape] floor]
      lone_lands_def enact cancel closed spoke by blast
  with wf t show ?thesis by (simp add: decide_def)
qed

text \<open>C16: A pending proposal's announced instant is honest: when the decision says the lone path opens at
  \<open>t\<close> and the answers do not change, the proposal lands by the lone path at every instant from \<open>t\<close> on.\<close>

theorem pending_lands_when_open:
  assumes sm: "strict_majority_law sm" and shape: "self_roster_shape policy"
    and fin: "finite roster"
    and pend: "decide C sm roster pr ans ahead now policy = Some (Pending (Some t) n)"
    and later: "t \<le> now'"
  shows "decide C sm roster pr ans ahead now' policy = Some (Lands Lone)"
proof -
  let ?r = "resolve sm policy roster (pr_proposer pr)"
  from pend obtain u where wf: "decide_refusal roster pr ahead policy = None"
    and u: "opens_at C policy pr = Some u"
    and d: "decide_counts policy ?r (proposal_counts roster pr ans now policy u) u = Pending (Some t) n"
    by (auto elim!: decideE)
  let ?c = "proposal_counts roster pr ans now policy u"
  let ?c' = "proposal_counts roster pr ans now' policy u"
  have same: "c_approvals ?c' = c_approvals ?c" "cancel_met ?r ?c' = cancel_met ?r ?c"
    "c_target_spoke ?c' = c_target_spoke ?c" "c_window_closed ?c' \<longleftrightarrow> u \<le> now'"
    by (simp_all add: proposal_counts_def Let_def cong: option.case_cong)
  from wf have mem: "pr_proposer pr \<in> roster" by (auto dest: decide_refusal_NoneD)
  have floor: "floor_met ?r ?c'"
    using self_shape_resolve(3)[OF sm shape fin mem] by (simp add: proposal_counts_def Let_def)
  from decide_counts_pending_some[OF d] shape same later floor
  have "decide_counts policy ?r ?c' u = Lands Lone"
    by (auto simp: decide_counts_lone_iff self_roster_shape_def)
  with wf u show ?thesis by (simp add: decide_def)
qed

section \<open>Corridor policies\<close>

lemma check_corridor_clauses:
  "check_corridor sm p n w = Inr () \<longleftrightarrow>
     (let e = votes sm (tp_enact p) n;
          c = votes sm (case tp_cancel p of None \<Rightarrow> tp_enact p | Some t \<Rightarrow> t) n;
          f = votes sm (case tp_floor p of None \<Rightarrow> tp_enact p | Some t \<Rightarrow> t) n
      in \<not> (1 < n \<and> e \<le> 1) \<and> \<not> (1 < n \<and> n \<le> c) \<and> \<not> e < c \<and> \<not> e < sm n \<and> \<not> e < f \<and>
         \<not> (1 < n \<and> c \<le> 1) \<and> \<not> (1 < n \<and> n \<le> e) \<and>
         \<not> (f < 2 \<and> tp_floor_class p \<noteq> SameIdentity) \<and> \<not> tp_window_secs p < w)"
  unfolding check_corridor_def Let_def by (simp split: if_split)

text \<open>The corridor check accepts exactly the policies between its two poles: enacting takes a strict
  majority but not everyone, cancelling takes at least two voices, not everyone and no more than
  enacting, the floor is no higher than enacting and (unless every voter is one person) at least two
  voices, and the window keeps the family's floor. The pole clauses are waived for a single voter.\<close>

theorem check_corridor_iff:
  "check_corridor sm p n w = Inr () \<longleftrightarrow>
     (let e = votes sm (tp_enact p) n;
          c = votes sm (case tp_cancel p of None \<Rightarrow> tp_enact p | Some t \<Rightarrow> t) n;
          f = votes sm (case tp_floor p of None \<Rightarrow> tp_enact p | Some t \<Rightarrow> t) n
      in (n \<le> 1 \<or> 1 < c \<and> c < n \<and> 1 < e \<and> e < n) \<and> c \<le> e \<and> f \<le> e \<and> sm n \<le> e \<and>
         (2 \<le> f \<or> tp_floor_class p = SameIdentity) \<and> w \<le> tp_window_secs p)"
  unfolding check_corridor_clauses Let_def by (simp only: not_less not_le de_Morgan_conj) blast

lemma corridor_enact_majority:
  assumes "strict_majority_law sm" "check_corridor sm p n w = Inr ()"
  shows "n < 2 * votes sm (tp_enact p) n"
proof -
  from assms(2) have "\<not> votes sm (tp_enact p) n < sm n"
    by (simp add: check_corridor_clauses Let_def)
  with strict_majority_lawD[OF assms(1), of n] show ?thesis by simp
qed

definition supporters :: "string set \<Rightarrow> proposal \<Rightarrow> answers \<Rightarrow> string set" where
  "supporters roster p a =
     insert (pr_proposer p) (live_votes roster p (approvers a) - live_votes roster p (objectors a))"

lemma supporters_vote: "k \<in> supporters roster p a \<Longrightarrow> k = pr_proposer p \<or> k \<in> approvers a"
  by (auto simp: supporters_def live_votes_def)

lemma card_supporters:
  "finite roster \<Longrightarrow> card (supporters roster p a) =
     card (live_votes roster p (approvers a) - live_votes roster p (objectors a)) + 1"
  using finite_live_votes live_votes_no_proposer by (simp add: supporters_def)

lemma forward_base [simp]: "base_count b roster x Forward e = card roster"
  by (cases b) auto

lemma lands_quorum_supporters:
  assumes "decide C sm roster pr ans ahead now policy = Some (Lands Quorum)" "finite roster"
  shows "supporters roster pr ans \<subseteq> roster \<and>
     votes sm (tp_enact policy) (card roster) \<le> card (supporters roster pr ans)"
proof -
  from assms(1) obtain t where wf: "decide_refusal roster pr ahead policy = None"
    and d: "decide_counts policy (resolve sm policy roster (pr_proposer pr))
              (proposal_counts roster pr ans now policy t) t = Lands Quorum"
    by (auto elim!: decideE)
  have "supporters roster pr ans \<subseteq> roster"
    using decide_refusal_NoneD[OF wf] by (auto simp: supporters_def live_votes_def)
  moreover have "votes sm (tp_enact policy) (card roster) \<le> card (supporters roster pr ans)"
    using d by (simp add: decide_counts_quorum_iff resolve_def resolve_over_def
        proposal_counts_def Let_def card_supporters[OF assms(2)] del: votes.simps)
  ultimately show ?thesis by blast
qed

text \<open>C11: Two proposals that both land by quorum over one roster, under a policy the corridor admits for that
  roster, share a supporter: some roster member proposed or approved the one and the other. No two
  disjoint groups can enact conflicting changes, and no single member can enact one.\<close>

theorem quorum_landings_share_supporter:
  assumes sm: "strict_majority_law sm" and fin: "finite roster"
    and corridor: "check_corridor sm policy (card roster) w = Inr ()"
    and l1: "decide C sm roster p1 a1 h_a now_a policy = Some (Lands Quorum)"
    and l2: "decide C sm roster p2 a2 h_b now_b policy = Some (Lands Quorum)"
  shows "\<exists>k \<in> roster. (k = pr_proposer p1 \<or> k \<in> approvers a1) \<and>
                       (k = pr_proposer p2 \<or> k \<in> approvers a2)"
proof -
  have half: "card roster < 2 * votes sm (tp_enact policy) (card roster)"
    by (rule corridor_enact_majority[OF sm corridor])
  have "supporters roster p1 a1 \<inter> supporters roster p2 a2 \<noteq> {}"
  proof
    assume disj: "supporters roster p1 a1 \<inter> supporters roster p2 a2 = {}"
    note s1 = lands_quorum_supporters[OF l1 fin] and s2 = lands_quorum_supporters[OF l2 fin]
    have fins: "finite (supporters roster p1 a1)" "finite (supporters roster p2 a2)"
      using s1 s2 fin by (auto intro: finite_subset)
    have "card (supporters roster p1 a1 \<union> supporters roster p2 a2) \<le> card roster"
      using s1 s2 fin by (intro card_mono) auto
    then show False
      using half s1 s2 card_Un_disjoint[OF fins disj] by linarith
  qed
  then obtain k where "k \<in> supporters roster p1 a1" "k \<in> supporters roster p2 a2" by blast
  with lands_quorum_supporters[OF l1 fin] show ?thesis
    by (meson supporters_vote subsetD)
qed

section \<open>Deciding every held proposal\<close>

lemma decide_loop_fst:
  "decide_loop C sm roster now policy opn xs = Some out \<Longrightarrow> map fst out = map fst xs"
  by (induction C sm roster now policy opn xs arbitrary: out rule: decide_loop.induct)
    (auto split: option.splits)

lemma decide_open_not_ahead:
  assumes "decide C sm roster pr ans ahead now policy = Some d" "is_open d"
  shows "(tp_one_open_per_proposer policy \<longrightarrow> \<not> by_proposer ahead) \<and>
         (tp_one_open_per_target policy \<longrightarrow> \<not> on_target ahead)"
proof -
  from assms have "decide_refusal roster pr ahead policy = None"
    by (auto simp: decide_def split: option.splits)
  then show ?thesis by (auto dest: decide_refusal_NoneD)
qed

text \<open>The loop invariant, for any attribute of a proposal that \<open>ahead_of\<close> reports as taken.\<close>

lemma decide_loop_distinct:
  assumes taken: "\<And>opn p ans d. decide C sm roster p ans (ahead_of opn p) now policy = Some d \<Longrightarrow>
      is_open d \<Longrightarrow> key p \<notin> key ` set opn"
  shows "decide_loop C sm roster now policy opn xs = Some out \<Longrightarrow> distinct (map key opn) \<Longrightarrow>
    distinct (map key (opn @ map fst (filter (\<lambda>(p, d). is_open d) out)))"
proof (induction xs arbitrary: opn out)
  case (Cons x xs)
  obtain p ans where x: "x = (p, ans)" by (cases x)
  from Cons.prems x obtain d out' where d: "decide C sm roster p ans (ahead_of opn p) now policy = Some d"
    and out: "out = (p, d) # out'"
    and rec: "decide_loop C sm roster now policy (if is_open d then opn @ [p] else opn) xs = Some out'"
    by (auto split: option.splits)
  have "distinct (map key (if is_open d then opn @ [p] else opn))"
    using taken[OF d] Cons.prems(2) by auto
  from Cons.IH[OF rec this] out show ?case by (auto split: if_splits)
qed simp


section \<open>Witnesses\<close>

text \<open>A three-key self roster, a policy of the self-roster shape, an addition and an eviction.\<close>

abbreviation (input) ex_sm :: "nat \<Rightarrow> nat" where
  "ex_sm \<equiv> (\<lambda>n. n div 2 + 1)"

definition ex_policy :: "bool \<Rightarrow> two_path_policy" where
  "ex_policy irreversible =
     \<lparr> tp_base = StandingRoster, tp_enact = Fraction 1 2 MoreThan, tp_cancel = Some StrictMajority,
       tp_cancel_over = CancelOverOthers, tp_floor = Some (Fraction 0 1 AtLeast),
       tp_floor_class = SameIdentity, tp_reverse_path = True, tp_at_window = WindowStayOpen,
       tp_irreversible = irreversible, tp_window_secs = 86400, tp_silence = EvictOnly,
       tp_one_open_per_proposer = True, tp_one_open_per_target = True \<rparr>"

definition ex_proposal :: "string \<Rightarrow> string \<Rightarrow> string \<Rightarrow> proposal" where
  "ex_proposal i by tgt =
     \<lparr> pr_id = i, pr_kind = Add, pr_proposer = by, pr_target = tgt,
       pr_asserted_at = 0, pr_received_at = 0 \<rparr>"

definition ex_answers :: "string set \<Rightarrow> string set \<Rightarrow> answers" where
  "ex_answers app obj = \<lparr> approvers = app, objectors = obj, target_acts = [] \<rparr>"

abbreviation (input) ex_roster :: "string set" where
  "ex_roster \<equiv> {''a'', ''b'', ''c''}"

abbreviation (input) ex_free :: open_ahead where
  "ex_free \<equiv> \<lparr> by_proposer = False, on_target = False \<rparr>"

abbreviation (input) ex_close :: instant where
  "ex_close \<equiv> 86400000000000"

lemma live_votes_empty [simp]: "live_votes roster p {} = {}"
  by (simp add: live_votes_def)

lemma live_votes_insert [simp]:
  "live_votes roster p (insert k ks) =
     (if k \<in> roster \<and> k \<noteq> pr_proposer p then insert k (live_votes roster p ks)
      else live_votes roster p ks)"
  by (auto simp: live_votes_def)

lemma half_of_three [simp]: "Suc (Suc (Suc 0)) div Suc (Suc 0) = Suc 0"
  unfolding numeral_2_eq_2[symmetric] numeral_3_eq_3[symmetric] by simp

lemmas two_path_eval =
  decide_def decide_refusal_def opens_at_def chrono_std_def nanos_def i64_max_def
  decide_counts_def resolve_def resolve_over_def proposal_counts_def silence_asked_def
  ex_policy_def ex_proposal_def ex_answers_def Let_def div_ceil_def

lemma ex_shape: "self_roster_shape (ex_policy False)"
  by (simp add: self_roster_shape_def ex_policy_def)

theorem irreversible_waits_witness:
  "\<exists>t. opens_at chrono_std (ex_policy True) (ex_proposal ''p'' ''a'' ''d'') = Some t \<and> t \<le> ex_close \<and>
     (\<forall>v. r_cancel (resolve ex_sm (ex_policy True) ex_roster
                      (pr_proposer (ex_proposal ''p'' ''a'' ''d''))) = Some v \<longrightarrow>
        card (live_votes ex_roster (ex_proposal ''p'' ''a'' ''d'')
                (objectors (ex_answers {''b''} {}))) < v)"
  by (rule irreversible_waits[where path = Quorum and ahead = ex_free])
    (simp_all add: two_path_eval)

theorem decide_implements_two_paths_witness:
  "\<exists>d. decide chrono_std ex_sm ex_roster (ex_proposal ''p'' ''a'' ''d'') (ex_answers {''b''} {})
          ex_free 0 (ex_policy False) = Some d \<and>
     (lands d \<longleftrightarrow> quorum_lands ex_roster (ex_proposal ''p'' ''a'' ''d'') (ex_answers {''b''} {}) \<or>
        lone_lands ex_roster (ex_proposal ''p'' ''a'' ''d'') (ex_answers {''b''} {}) ex_close 0)"
  by (rule decide_implements_two_paths[OF strict_majority_law_doc ex_shape])
    (simp_all add: two_path_eval)

theorem pending_lands_when_open_witness:
  "decide chrono_std ex_sm ex_roster (ex_proposal ''p'' ''a'' ''d'') (ex_answers {} {''b''})
     ex_free ex_close (ex_policy False) = Some (Lands Lone)"
  by (rule pending_lands_when_open[OF strict_majority_law_doc ex_shape,
        where now = 0 and t = ex_close and n = 1])
    (simp_all add: two_path_eval)

theorem quorum_landings_share_supporter_witness:
  "\<exists>k \<in> ex_roster.
     (k = pr_proposer (ex_proposal ''p'' ''a'' ''d'') \<or> k \<in> approvers (ex_answers {''b''} {})) \<and>
     (k = pr_proposer (ex_proposal ''q'' ''c'' ''e'') \<or> k \<in> approvers (ex_answers {''b''} {}))"
  by (rule quorum_landings_share_supporter[OF strict_majority_law_doc,
        where C = chrono_std and policy = "ex_policy False" and w = 86400 and now_a = 0 and now_b = 0
          and h_a = ex_free and h_b = ex_free])
    (simp_all add: two_path_eval check_corridor_def)


end
