(* ===== verification/Governance_Policy.thy ===== *)
theory Governance_Policy
  imports Two_Path
begin

text \<open>
  The two-path policy table as runtime data (\<open>src/src/federation/governance_policy.rs\<close>): a door asks
  \<open>admit\<close> for its family's row, the row is built into a policy, and the policy is refused when it is
  outside its corridor. The parsing of the vendored JSON into the table is \<open>serde\<close>'s derived code;
  a table is a record here, and the rows of the vendored file the self roster reads are written out.

  The crate is built with overflow checks in every profile, so the \<open>u32\<close> product of the forward-only
  check panics when it overflows: an operation that can reach it returns \<open>None\<close> for the panic.
\<close>

section \<open>The table\<close>

record base_law =
  law_k :: nat
  law_tail :: nat
  law_min :: nat

definition expected_active :: "base_law \<Rightarrow> nat \<Rightarrow> nat" where
  "expected_active law n =
     (if n \<le> law_k law then n
      else max (law_k law + (n - law_k law) div max (law_tail law) 1) (law_min law))"

record policy_row =
  row_family :: string
  row_kind :: string
  row_base :: string
  row_enact :: json
  row_cancel :: json
  row_floor :: json
  row_cancel_over :: string
  row_at_window :: string
  row_window_secs :: int
  row_window_class :: string
  row_irreversible :: bool
  row_reverse_path :: bool
  row_corridor :: string

record policy_table =
  families :: "policy_row list"
  table_min_count :: "(string \<times> nat) list"
  window_classes :: "(string \<times> int) list"
  table_base_law :: base_law

record door_rule =
  door_silence :: silence_rule
  door_one_open_per_proposer :: bool
  door_one_open_per_target :: bool

definition SELF_ROSTER :: door_rule where
  "SELF_ROSTER = \<lparr> door_silence = EvictOnly, door_one_open_per_proposer = True,
                   door_one_open_per_target = True \<rparr>"

datatype governance_error = GovernancePolicyRefused (refused_family: string) (refused_reason: string)

definition ROW_MISSING :: string where "ROW_MISSING = ''policy_row_missing''"
definition NOT_TWO_PATH :: string where "NOT_TWO_PATH = ''policy_not_two_path''"
definition ROW_UNREADABLE :: string where "ROW_UNREADABLE = ''policy_row_unreadable''"
definition BASE_NOT_BUILT :: string where "BASE_NOT_BUILT = ''policy_base_not_built''"
definition ROWS_DISAGREE :: string where "ROWS_DISAGREE = ''policy_rows_disagree''"

definition KIND_TWO_PATH :: string where "KIND_TWO_PATH = ''two_path''"
definition CORRIDOR_COMMUNITY :: string where "CORRIDOR_COMMUNITY = ''community''"
definition CORRIDOR_SELF :: string where "CORRIDOR_SELF = ''self''"
definition FAMILY_SELF_ROSTER_ADD :: string where "FAMILY_SELF_ROSTER_ADD = ''self_roster_add''"
definition FAMILY_SELF_ROSTER_EVICT :: string where
  "FAMILY_SELF_ROSTER_EVICT = ''self_roster_evict''"
definition CANCEL_STRICT_MAJORITY_OF_OTHERS :: string where
  "CANCEL_STRICT_MAJORITY_OF_OTHERS = ''more than 1/2 of the others (strict majority)''"
definition FLOOR_ONE_VOTER :: string where "FLOOR_ONE_VOTER = ''one_voter''"

definition COMMUNITY_CORRIDOR_BASES :: "nat list" where
  "COMMUNITY_CORRIDOR_BASES = [6, 7, 10]"
definition FORWARD_ONLY_BASES :: "nat list" where
  "FORWARD_ONLY_BASES = [3, 6, 7, 10]"
definition EXPECTED_ACTIVE_PROBE_N :: nat where "EXPECTED_ACTIVE_PROBE_N = 10000"
definition SELF_CORRIDOR_BASE :: nat where "SELF_CORRIDOR_BASE = 3"

lemmas governance_consts =
  ROW_MISSING_def NOT_TWO_PATH_def ROW_UNREADABLE_def BASE_NOT_BUILT_def ROWS_DISAGREE_def
  KIND_TWO_PATH_def CORRIDOR_COMMUNITY_def CORRIDOR_SELF_def FAMILY_SELF_ROSTER_ADD_def
  FAMILY_SELF_ROSTER_EVICT_def CANCEL_STRICT_MAJORITY_OF_OTHERS_def FLOOR_ONE_VOTER_def
  COMMUNITY_CORRIDOR_BASES_def FORWARD_ONLY_BASES_def EXPECTED_ACTIVE_PROBE_N_def
  SELF_CORRIDOR_BASE_def

section \<open>Reading a row\<close>

definition fraction :: "json \<Rightarrow> cmp \<Rightarrow> threshold option" where
  "fraction v c =
     (case Option.bind (json_get v ''num'') as_u64 of
        None \<Rightarrow> None
      | Some num \<Rightarrow>
          if u32_max < num then None
          else case Option.bind (json_get v ''den'') as_u64 of
            None \<Rightarrow> None
          | Some den \<Rightarrow>
              if u32_max < den then None
              else if 0 < den then Some (Fraction num den c) else None)"

definition row :: "policy_table \<Rightarrow> string \<Rightarrow> governance_error + policy_row" where
  "row t family =
     ok_or (GovernancePolicyRefused family ROW_MISSING)
       (List.find (\<lambda>r. row_family r = family) (families t))"

definition row_floor_class :: "policy_table \<Rightarrow> policy_row \<Rightarrow> governance_error + floor_class" where
  "row_floor_class t r =
     (let bad = Inl (GovernancePolicyRefused (row_family r) ROW_UNREADABLE);
          checked = (\<lambda>class. if map_of (table_min_count t) (row_corridor r) \<noteq> Some (min_count class)
                             then bad else Inr class)
      in
      if row_corridor r = CORRIDOR_SELF then checked SameIdentity
      else if row_corridor r = CORRIDOR_COMMUNITY then checked Voters
      else bad)"

definition row_cancel_threshold :: "policy_row \<Rightarrow> governance_error + threshold option" where
  "row_cancel_threshold r =
     (if row_cancel r = JNull then Inr None
      else if row_cancel r = JString CANCEL_STRICT_MAJORITY_OF_OTHERS then Inr (Some StrictMajority)
      else and_then
        (ok_or (GovernancePolicyRefused (row_family r) ROW_UNREADABLE) (fraction (row_cancel r) AtLeast))
        (\<lambda>t. Inr (Some t)))"

definition row_floor_threshold :: "policy_row \<Rightarrow> governance_error + threshold option" where
  "row_floor_threshold r =
     (if row_floor r = JNull then Inr None
      else if row_floor r = JString FLOOR_ONE_VOTER then Inr (Some (Fraction 0 1 AtLeast))
      else and_then
        (ok_or (GovernancePolicyRefused (row_family r) ROW_UNREADABLE) (fraction (row_floor r) AtLeast))
        (\<lambda>t. Inr (Some t)))"

definition policy_of ::
  "policy_table \<Rightarrow> policy_row \<Rightarrow> door_rule \<Rightarrow> governance_error + two_path_policy" where
  "policy_of t r door =
     (let bad = GovernancePolicyRefused (row_family r) ROW_UNREADABLE in
      if row_kind r \<noteq> KIND_TWO_PATH then Inl (GovernancePolicyRefused (row_family r) NOT_TWO_PATH)
      else if map_of (window_classes t) (row_window_class r) \<noteq> Some (row_window_secs r) then Inl bad
      else
      and_then (row_floor_class t r) (\<lambda>floor_class.
      and_then (ok_or bad (fraction (row_enact r) MoreThan)) (\<lambda>enact.
      and_then (row_cancel_threshold r) (\<lambda>cancel.
      and_then (row_floor_threshold r) (\<lambda>floor.
      and_then
        (if row_cancel_over r = ''base'' \<and> cancel \<noteq> None then Inr CancelOverBase
         else if row_cancel_over r = ''others'' \<and> cancel \<noteq> None then Inr CancelOverOthers
         else if cancel = None then Inr CancelOverBase
         else Inl bad) (\<lambda>cancel_over.
      and_then
        (if row_at_window r = ''cancelled'' then Inr WindowCancel
         else if row_at_window r = ''stay_open'' then Inr WindowStayOpen
         else Inl bad) (\<lambda>at_window.
      Inr \<lparr> tp_base = StandingRoster, tp_enact = enact, tp_cancel = cancel,
            tp_cancel_over = cancel_over, tp_floor = floor, tp_floor_class = floor_class,
            tp_reverse_path = row_reverse_path r, tp_at_window = at_window,
            tp_irreversible = row_irreversible r, tp_window_secs = row_window_secs r,
            tp_silence = door_silence door,
            tp_one_open_per_proposer = door_one_open_per_proposer door,
            tp_one_open_per_target = door_one_open_per_target door \<rparr>)))))))"

section \<open>The corridor over a row, and admission\<close>

definition window_floor :: "policy_table \<Rightarrow> policy_row \<Rightarrow> governance_error + int" where
  "window_floor t r =
     ok_or (GovernancePolicyRefused (row_family r) ROW_UNREADABLE)
       (map_of (window_classes t)
         (if row_irreversible r then ''irreversible_7d''
          else if row_window_class r = ''content_24h'' then ''content_24h''
          else ''standing_72h''))"

fun reverse_path_loop ::
  "(nat \<Rightarrow> nat) \<Rightarrow> two_path_policy \<Rightarrow> int \<Rightarrow> nat list \<Rightarrow> corridor_refusal + unit" where
  "reverse_path_loop sm p least [] = Inr ()"
| "reverse_path_loop sm p least (b # bs) =
     (case check_corridor sm p b least of
        Inl r \<Rightarrow> Inl r
      | Inr _ \<Rightarrow> reverse_path_loop sm p least bs)"

fun forward_only_loop ::
  "(nat \<Rightarrow> nat) \<Rightarrow> two_path_policy \<Rightarrow> int \<Rightarrow> nat list \<Rightarrow> (corridor_refusal + unit) option" where
  "forward_only_loop sm p least [] = Some (Inr ())"
| "forward_only_loop sm p least (b # bs) =
     (let rest = if tp_window_secs p < least then Some (Inl WindowBelowFloor)
                 else forward_only_loop sm p least bs
      in
      if votes sm (tp_enact p) b \<le> 1 then Some (Inl EnactBySingleVoter)
      else case tp_enact p of
        Fraction num den c \<Rightarrow>
          if u32_max < 2 * num then None
          else if 2 * num < den then Some (Inl EnactBelowStrictMajority)
          else rest
      | StrictMajority \<Rightarrow> rest)"

definition row_corridor_check ::
  "(nat \<Rightarrow> nat) \<Rightarrow> policy_table \<Rightarrow> policy_row \<Rightarrow> two_path_policy
     \<Rightarrow> (governance_error + (corridor_refusal + unit)) option" where
  "row_corridor_check sm t r p =
     (let unreadable = Some (Inl (GovernancePolicyRefused (row_family r) ROW_UNREADABLE)) in
      if row_corridor r = CORRIDOR_SELF then
        (case map_of (window_classes t) ''ruled_24h'' of
           None \<Rightarrow> unreadable
         | Some least \<Rightarrow> Some (Inr (check_corridor sm p SELF_CORRIDOR_BASE least)))
      else if row_corridor r = CORRIDOR_COMMUNITY then
        (case window_floor t r of
           Inl e \<Rightarrow> Some (Inl e)
         | Inr least \<Rightarrow>
             let probe = expected_active (table_base_law t) EXPECTED_ACTIVE_PROBE_N in
             if tp_reverse_path p
             then Some (Inr (reverse_path_loop sm p least (COMMUNITY_CORRIDOR_BASES @ [probe])))
             else map_option Inr (forward_only_loop sm p least (FORWARD_ONLY_BASES @ [probe])))
      else unreadable)"

definition admit ::
  "(nat \<Rightarrow> nat) \<Rightarrow> policy_table \<Rightarrow> string \<Rightarrow> door_rule \<Rightarrow> (governance_error + two_path_policy) option"
  where
  "admit sm t family door =
     (case row t family of
        Inl e \<Rightarrow> Some (Inl e)
      | Inr r \<Rightarrow>
          (case policy_of t r door of
             Inl e \<Rightarrow> Some (Inl e)
           | Inr p \<Rightarrow>
               if row_base r \<noteq> ''standing'' then Some (Inl (GovernancePolicyRefused family BASE_NOT_BUILT))
               else map_option
                 (\<lambda>checked. and_then checked (\<lambda>c.
                    case c of
                      Inl why \<Rightarrow> Inl (GovernancePolicyRefused family (corridor_refusal_str why))
                    | Inr _ \<Rightarrow> Inr p))
                 (row_corridor_check sm t r p)))"

definition self_roster ::
  "(nat \<Rightarrow> nat) \<Rightarrow> policy_table \<Rightarrow> (governance_error + two_path_policy) option" where
  "self_roster sm t =
     (case admit sm t FAMILY_SELF_ROSTER_ADD SELF_ROSTER of
        None \<Rightarrow> None
      | Some (Inl e) \<Rightarrow> Some (Inl e)
      | Some (Inr add) \<Rightarrow>
          map_option
            (\<lambda>res. and_then res (\<lambda>evict.
               if add \<noteq> evict
               then Inl (GovernancePolicyRefused FAMILY_SELF_ROSTER_EVICT ROWS_DISAGREE)
               else Inr add))
            (admit sm t FAMILY_SELF_ROSTER_EVICT SELF_ROSTER))"

section \<open>What the probed bases establish\<close>

lemma reverse_path_loop_ok:
  "reverse_path_loop sm p w bs = Inr () \<longleftrightarrow> (\<forall>b \<in> set bs. check_corridor sm p b w = Inr ())"
  by (induction bs) (auto split: sum.splits)

lemma forward_only_loop_ok:
  assumes "forward_only_loop sm p w bs = Some (Inr ())" "bs \<noteq> []"
    and enact: "tp_enact p = Fraction num den c"
  shows "den \<le> 2 * num \<and> w \<le> tp_window_secs p"
  using assms by (cases bs) (auto simp: Let_def split: if_splits)

lemma forward_only_loop_panic:
  assumes enact: "tp_enact p = Fraction num den c"
  shows "forward_only_loop sm p w bs = None \<Longrightarrow> u32_max < 2 * num"
  by (induction bs) (auto simp: enact Let_def split: if_splits)

lemma policy_of_enact:
  assumes "policy_of t r door = Inr p"
  obtains num den where "tp_enact p = Fraction num den MoreThan" "0 < den" "den \<le> u32_max"
    "num \<le> u32_max"
  using assms
  by (auto simp: policy_of_def Let_def result_simps fraction_def split: if_splits option.splits)

lemma policy_of_fields:
  assumes "policy_of t r door = Inr p"
  shows "row_kind r = KIND_TWO_PATH" "tp_reverse_path p = row_reverse_path r"
    "tp_irreversible p = row_irreversible r"
    "map_of (window_classes t) (row_window_class r) = Some (tp_window_secs p)"
    "tp_silence p = door_silence door"
  using assms by (auto simp: policy_of_def Let_def result_simps split: if_splits)

lemma policy_of_floor_class:
  assumes "policy_of t r door = Inr p"
  shows "row_floor_class t r = Inr (tp_floor_class p)"
  using assms by (auto simp: policy_of_def Let_def result_simps split: if_splits)

lemma policy_of_thresholds:
  assumes "policy_of t r door = Inr p"
  shows "row_cancel_threshold r = Inr (tp_cancel p)" "row_floor_threshold r = Inr (tp_floor p)"
  using assms by (auto simp: policy_of_def Let_def result_simps split: if_splits)

text \<open>A majority at a base of six is a fraction of at least one half, which is a majority at every base.\<close>

lemma half_fraction_majority:
  assumes "den \<le> 2 * num" "0 < den"
  shows "n < 2 * votes sm (Fraction num den MoreThan) n"
proof -
  let ?v = "votes sm (Fraction num den MoreThan) n"
  have "num * n < ?v * den"
    using more_than_reached[OF assms(2), of sm num n ?v] by blast
  moreover have "den * n \<le> 2 * num * n" using assms(1) by simp
  ultimately have "den * n < 2 * (?v * den)" by linarith
  then have "den * n < den * (2 * ?v)" by (simp add: mult.commute mult.left_commute)
  then show ?thesis by (meson mult_less_cancel1)
qed

lemma enact_at_six:
  assumes "0 < den" and "4 \<le> votes sm (Fraction num den MoreThan) 6"
  shows "den \<le> 2 * num"
proof -
  have "\<not> votes sm (Fraction num den MoreThan) 6 \<le> 3" using assms(2) by simp
  then have "\<not> num * 6 < 3 * den" by (simp only: more_than_reached[OF assms(1)] not_False_eq_True)
  then show ?thesis by linarith
qed

lemma corridor_at_six:
  assumes sm: "strict_majority_law sm"
    and ok: "check_corridor sm p 6 w = Inr ()"
    and enact: "tp_enact p = Fraction num den MoreThan" "0 < den"
  shows "den \<le> 2 * num" "6 * num < 5 * den" "w \<le> tp_window_secs p"
proof -
  note clauses = ok[unfolded check_corridor_clauses]
  have "sm 6 = 4" using strict_majority_lawD[OF sm, of 6] by simp
  with clauses have "4 \<le> votes sm (Fraction num den MoreThan) 6" "votes sm (Fraction num den MoreThan) 6 < 6"
    "w \<le> tp_window_secs p"
    unfolding enact Let_def by auto
  then show "den \<le> 2 * num" "w \<le> tp_window_secs p" using enact_at_six enact(2) by blast+
  have "votes sm (Fraction num den MoreThan) 6 \<le> 5"
    using \<open>votes sm (Fraction num den MoreThan) 6 < 6\<close> by simp
  then show "6 * num < 5 * den"
    by (simp only: more_than_reached[OF enact(2)] mult.commute)
qed

lemma votes_mono:
  assumes "strict_majority_law sm" "m \<le> n"
  shows "votes sm t m \<le> votes sm t n"
proof (cases t)
  case StrictMajority
  with assms show ?thesis by (simp add: strict_majority_lawD div_le_mono)
next
  case (Fraction num den c)
  have "num * m \<le> num * n" using assms(2) by simp
  with Fraction show ?thesis
    by (cases c) (auto simp: Let_def div_ceil_def intro!: div_le_mono diff_le_mono)
qed

lemma enact_not_everyone:
  assumes "6 * num < 5 * den" "0 < den" "6 \<le> n"
  shows "votes sm (Fraction num den MoreThan) n < n"
proof -
  have "6 * (num * n) = 6 * num * n" by simp
  also have "\<dots> < 5 * den * n" using assms by (intro mult_strict_right_mono) auto
  also have "\<dots> \<le> 6 * (n - 1) * den"
  proof -
    have "5 * n \<le> 6 * (n - 1)" using assms(3) by linarith
    then have "5 * n * den \<le> 6 * (n - 1) * den" by (rule mult_le_mono1)
    then show ?thesis by (simp add: mult_ac)
  qed
  finally have "num * n < (n - 1) * den" by simp
  then have "votes sm (Fraction num den MoreThan) n \<le> n - 1"
    by (simp only: more_than_reached[OF assms(2)])
  with assms(3) show ?thesis by linarith
qed

lemma row_corridor_community:
  assumes "row_corridor r = CORRIDOR_COMMUNITY" "row_corridor_check sm t r p = Some (Inr (Inr ()))"
  obtains least where "window_floor t r = Inr least"
    and "tp_reverse_path p \<Longrightarrow> check_corridor sm p 6 least = Inr ()"
    and "\<not> tp_reverse_path p \<Longrightarrow>
      forward_only_loop sm p least
        (FORWARD_ONLY_BASES @ [expected_active (table_base_law t) EXPECTED_ACTIVE_PROBE_N]) =
        Some (Inr ())"
  using assms
  by (auto simp: row_corridor_check_def Let_def CORRIDOR_SELF_def CORRIDOR_COMMUNITY_def
      reverse_path_loop_ok COMMUNITY_CORRIDOR_BASES_def split: sum.splits if_splits)

lemma community_enact_half:
  assumes sm: "strict_majority_law sm" and built: "policy_of t r door = Inr p"
    and corridor: "row_corridor r = CORRIDOR_COMMUNITY"
    and ok: "row_corridor_check sm t r p = Some (Inr (Inr ()))"
    and enact: "tp_enact p = Fraction num den MoreThan" "0 < den"
  shows "den \<le> 2 * num"
proof -
  obtain least where
    rev: "tp_reverse_path p \<Longrightarrow> check_corridor sm p 6 least = Inr ()"
    and fwd: "\<not> tp_reverse_path p \<Longrightarrow>
      forward_only_loop sm p least
        (FORWARD_ONLY_BASES @ [expected_active (table_base_law t) EXPECTED_ACTIVE_PROBE_N]) =
        Some (Inr ())"
    using row_corridor_community[OF corridor ok] by metis
  show ?thesis
  proof (cases "tp_reverse_path p")
    case True
    then show ?thesis using corridor_at_six(1)[OF sm rev enact] by simp
  next
    case False
    then show ?thesis using forward_only_loop_ok[OF fwd _ enact(1)] by simp
  qed
qed

text \<open>The provider side of the majority interface: what an accepted community row enacts by.\<close>

lemma community_enact_majority:
  assumes "strict_majority_law sm" "policy_of t r door = Inr p"
    "row_corridor r = CORRIDOR_COMMUNITY" "row_corridor_check sm t r p = Some (Inr (Inr ()))"
  shows "majority_threshold (votes sm (tp_enact p))"
proof
  fix n
  obtain num den where enact: "tp_enact p = Fraction num den MoreThan" "0 < den"
    using policy_of_enact[OF assms(2)] by metis
  show "n < 2 * votes sm (tp_enact p) n"
    unfolding enact(1) using community_enact_half[OF assms enact] enact(2)
    by (rule half_fraction_majority)
qed


section \<open>What an admitted policy guarantees\<close>

lemma admit_okE:
  assumes "admit sm t family door = Some (Inr p)"
  obtains r where "r \<in> set (families t)" "row_family r = family" "row_base r = ''standing''"
    "policy_of t r door = Inr p" "row_corridor_check sm t r p = Some (Inr (Inr ()))"
proof -
  from assms obtain r q where r: "row t family = Inr r" "policy_of t r door = Inr q"
    "row_base r = ''standing''"
    by (auto simp: admit_def split: sum.splits if_splits)
  with assms obtain c where c: "row_corridor_check sm t r q = Some c"
    and "and_then c (\<lambda>c. case c of
           Inl why \<Rightarrow> Inl (GovernancePolicyRefused family (corridor_refusal_str why))
         | Inr _ \<Rightarrow> Inr q) = Inr p"
    by (auto simp: admit_def)
  then have "c = Inr (Inr ())" "q = p" by (cases c; cases "projr c"; simp)+
  with r c show thesis
    by (intro that[of r]) (auto simp: row_def ok_or_Inr find_Some_iff)
qed

lemma row_corridor_check_cases:
  assumes "row_corridor_check sm t r p = Some (Inr (Inr ()))"
  obtains (self) least where "row_corridor r = CORRIDOR_SELF"
      "map_of (window_classes t) ''ruled_24h'' = Some least" "check_corridor sm p 3 least = Inr ()"
    | (community) "row_corridor r = CORRIDOR_COMMUNITY"
  using assms
  by (auto simp: row_corridor_check_def Let_def SELF_CORRIDOR_BASE_def split: if_splits option.splits)

lemma admitted_enact_two:
  assumes sm: "strict_majority_law sm" and adm: "admit sm t family door = Some (Inr p)" and n: "3 \<le> n"
  shows "2 \<le> votes sm (tp_enact p) n"
proof -
  obtain r where r: "policy_of t r door = Inr p" "row_corridor_check sm t r p = Some (Inr (Inr ()))"
    using admit_okE[OF adm] by metis
  from r(2) show ?thesis
  proof (cases rule: row_corridor_check_cases)
    case (self least)
    then have "3 < 2 * votes sm (tp_enact p) 3" by (intro corridor_enact_majority[OF sm])
    then show ?thesis using votes_mono[OF sm n, of "tp_enact p"] by linarith
  next
    case community
    show ?thesis
      using majority_threshold.one_voice_short[OF community_enact_majority[OF sm r(1) community r(2)], of n]
        n by simp
  qed
qed

text \<open>C15: Under every policy a door can obtain from the table, on a roster of three or more keys no
  proposal lands by quorum on its proposer's voice alone: some other roster key approved it and did
  not object.\<close>

theorem admitted_quorum_needs_second_voice:
  assumes sm: "strict_majority_law sm" and adm: "admit sm t family door = Some (Inr p)"
    and fin: "finite roster" and three: "3 \<le> card roster"
    and lands: "decide C sm roster pr ans ahead now p = Some (Lands Quorum)"
  shows "\<exists>k \<in> roster. k \<noteq> pr_proposer pr \<and> k \<in> approvers ans \<and> k \<notin> objectors ans"
proof (rule ccontr)
  assume none: "\<not> ?thesis"
  have sub: "supporters roster pr ans \<subseteq> {pr_proposer pr}"
    using none by (auto simp: supporters_def live_votes_def)
  have "2 \<le> card (supporters roster pr ans)"
    using admitted_enact_two[OF sm adm three] lands_quorum_supporters[OF lands fin] by linarith
  moreover have "card (supporters roster pr ans) \<le> 1"
    using card_mono[OF _ sub] by simp
  ultimately show False by simp
qed

section \<open>The vendored self-roster rows\<close>

definition self_row :: "string \<Rightarrow> policy_row" where
  "self_row family =
     \<lparr> row_family = family, row_kind = ''two_path'', row_base = ''standing'',
       row_enact = JObject [(''num'', JNumber (PosInt 1)), (''den'', JNumber (PosInt 2))],
       row_cancel = JString ''more than 1/2 of the others (strict majority)'',
       row_floor = JString ''one_voter'', row_cancel_over = ''others'', row_at_window = ''stay_open'',
       row_window_secs = 86400, row_window_class = ''ruled_24h'', row_irreversible = False,
       row_reverse_path = True, row_corridor = ''self'' \<rparr>"

definition community_row :: "string \<Rightarrow> json \<Rightarrow> json \<Rightarrow> string \<Rightarrow> int \<Rightarrow> string \<Rightarrow> bool \<Rightarrow> bool \<Rightarrow> policy_row"
  where
  "community_row family cancel flr over secs class irreversible two_sided =
     \<lparr> row_family = family, row_kind = ''two_path'', row_base = ''active'',
       row_enact = JObject [(''num'', JNumber (PosInt 2)), (''den'', JNumber (PosInt 3))],
       row_cancel = cancel, row_floor = flr, row_cancel_over = over, row_at_window = ''cancelled'',
       row_window_secs = secs, row_window_class = class, row_irreversible = irreversible,
       row_reverse_path = two_sided, row_corridor = ''community'' \<rparr>"

definition third :: json where
  "third = JObject [(''num'', JNumber (PosInt 1)), (''den'', JNumber (PosInt 3))]"

text \<open>The two-path rows of the vendored table, in its order, and its remaining members.\<close>

definition vendored_table :: policy_table where
  "vendored_table =
     \<lparr> families =
         [community_row ''default_content'' third third ''base'' 86400 ''content_24h'' False True,
          community_row ''default_standing'' third third ''base'' 259200 ''standing_72h'' False True,
          community_row ''default_irreversible'' third third ''base'' 604800 ''irreversible_7d'' True True,
          community_row ''community_invite'' third third ''base'' 259200 ''standing_72h'' False True,
          community_row ''community_remove'' JNull JNull ''-'' 259200 ''standing_72h'' False False,
          self_row ''self_roster_add'', self_row ''self_roster_evict''],
       table_min_count = [(''community'', 2), (''self'', 1)],
       window_classes =
         [(''content_24h'', 86400), (''standing_72h'', 259200), (''irreversible_7d'', 604800),
          (''ruled_24h'', 86400), (''ruled_48h'', 172800), (''fuse_24h'', 86400), (''none'', 0)],
       table_base_law = \<lparr> law_k = 12, law_tail = 30, law_min = 3 \<rparr> \<rparr>"

lemmas table_eval =
  governance_consts vendored_table_def community_row_def self_row_def third_def row_def policy_of_def
  row_floor_class_def row_cancel_threshold_def row_floor_threshold_def fraction_def Let_def
  u32_max_def u64_max_def window_floor_def expected_active_def

lemma vendored_self_admitted:
  assumes sm: "strict_majority_law sm" and fam: "family \<in> {''self_roster_add'', ''self_roster_evict''}"
  shows "admit sm vendored_table family SELF_ROSTER = Some (Inr (ex_policy False))"
proof -
  have row: "row vendored_table family = Inr (self_row family)"
    using fam by (auto simp: table_eval)
  have built: "policy_of vendored_table (self_row family) SELF_ROSTER = Inr (ex_policy False)"
    by (simp add: table_eval SELF_ROSTER_def ex_policy_def)
  have "check_corridor sm (ex_policy False) 3 86400 = Inr ()"
    by (simp add: check_corridor_def ex_policy_def Let_def div_ceil_def strict_majority_lawD[OF sm]
      numeral_2_eq_2[symmetric])
  then have "row_corridor_check sm vendored_table (self_row family) (ex_policy False) =
      Some (Inr (Inr ()))"
    by (simp add: row_corridor_check_def Let_def vendored_table_def governance_consts self_row_def)
  then show ?thesis using row built by (simp add: admit_def self_row_def)
qed

text \<open>The vendored table gives the self-roster door one policy for its additions and evictions, of the
  shape the two-path theorems need: a strict majority enacts, a strict majority of the others
  cancels, one key is the floor, the window is a day and does not cancel at its close.\<close>

theorem vendored_self_roster:
  assumes sm: "strict_majority_law sm"
  shows "\<exists>p. self_roster sm vendored_table = Some (Inr p) \<and> self_roster_shape p \<and>
    tp_window_secs p = 86400 \<and> tp_one_open_per_proposer p \<and> tp_one_open_per_target p"
  using vendored_self_admitted[OF sm, of "''self_roster_add''"]
    vendored_self_admitted[OF sm, of "''self_roster_evict''"] ex_shape
  by (simp add: self_roster_def FAMILY_SELF_ROSTER_ADD_def FAMILY_SELF_ROSTER_EVICT_def ex_policy_def)


section \<open>Witnesses of the table\<close>

abbreviation (input) content_row :: policy_row where
  "content_row \<equiv> community_row ''default_content'' third third ''base'' 86400 ''content_24h'' False True"

definition content_policy :: two_path_policy where
  "content_policy =
     \<lparr> tp_base = StandingRoster, tp_enact = Fraction 2 3 MoreThan,
       tp_cancel = Some (Fraction 1 3 AtLeast), tp_cancel_over = CancelOverBase,
       tp_floor = Some (Fraction 1 3 AtLeast), tp_floor_class = Voters, tp_reverse_path = True,
       tp_at_window = WindowCancel, tp_irreversible = False, tp_window_secs = 86400,
       tp_silence = SilenceNever, tp_one_open_per_proposer = False, tp_one_open_per_target = False \<rparr>"

abbreviation (input) content_door :: door_rule where
  "content_door \<equiv> \<lparr> door_silence = SilenceNever, door_one_open_per_proposer = False,
                     door_one_open_per_target = False \<rparr>"

lemma content_built: "policy_of vendored_table content_row content_door = Inr content_policy"
  by (simp add: table_eval content_policy_def)

lemma content_corridor:
  "row_corridor_check ex_sm vendored_table content_row content_policy = Some (Inr (Inr ()))"
proof -
  have "check_corridor ex_sm content_policy n 86400 = Inr ()" if "n \<in> {6, 7, 10, 344}" for n
    using that by (auto simp: check_corridor_def content_policy_def Let_def div_ceil_def)
  then show ?thesis
    by (simp add: row_corridor_check_def Let_def reverse_path_loop_ok governance_consts
        vendored_table_def community_row_def window_floor_def expected_active_def content_policy_def)
qed


theorem admitted_quorum_needs_second_voice_witness:
  "\<exists>k \<in> ex_roster. k \<noteq> ''a'' \<and> k \<in> approvers (ex_answers {''b''} {}) \<and>
     k \<notin> objectors (ex_answers {''b''} {})"
proof -
  have "decide chrono_std ex_sm ex_roster (ex_proposal ''p'' ''a'' ''d'') (ex_answers {''b''} {})
      ex_free 0 (ex_policy False) = Some (Lands Quorum)"
    by (simp add: two_path_eval)
  from admitted_quorum_needs_second_voice[OF strict_majority_law_doc
      vendored_self_admitted[OF strict_majority_law_doc] _ _ this, of "''self_roster_add''"]
  show ?thesis by (simp add: ex_proposal_def)
qed

theorem vendored_self_roster_witness:
  "\<exists>p. self_roster ex_sm vendored_table = Some (Inr p) \<and> self_roster_shape p \<and>
    tp_window_secs p = 86400 \<and> tp_one_open_per_proposer p \<and> tp_one_open_per_target p"
  by (rule vendored_self_roster[OF strict_majority_law_doc])


text \<open>A cancelled proposal is not void for good: under a policy whose window cancels, a proposal that was
  cancelled at the close for want of voices lands on the next decision once a quorum of approvals is
  held, because a reversible policy asks the enacting quorum before the window.\<close>

theorem cancelled_not_final:
  "decide chrono_std ex_sm {''a'', ''b'', ''c''} (ex_proposal ''p'' ''a'' ''d'') (ex_answers {} {})
     ex_free ex_close content_policy = Some (Cancelled BelowFloor) \<and>
   decide chrono_std ex_sm {''a'', ''b'', ''c''} (ex_proposal ''p'' ''a'' ''d'') (ex_answers {''b'', ''c''} {})
     ex_free (ex_close + 1) content_policy = Some (Lands Quorum)"
  by (simp add: two_path_eval content_policy_def)

end
