(* ===== verification/Cache_Key.thy ===== *)
theory Cache_Key
  imports Persist_Prelude
begin

text \<open>
  Cache-key derivation (\<open>src/src/cache/key.rs\<close>): invalidation buckets, the content-addressed key of a cached
  aggregate, and the digest of a caller's scope. SHA-256 comes from the \<open>sha2\<close> crate and is a parameter
  \<open>sha\<close>; what the module is responsible for is the byte string it hashes, and the theorems are about
  that byte string: two keys or scopes that hash alike without being alike exhibit a collision of
  \<open>sha\<close>. Byte strings are \<^typ>\<open>string\<close> values, one character per byte.
\<close>

section \<open>Bytes\<close>

definition le_bytes :: "nat \<Rightarrow> string" where
  "le_bytes n = map (\<lambda>i. char_of (n div 256 ^ i)) [0..<8]"

text \<open>\<open>i64::to_le_bytes\<close> is the two's complement.\<close>

definition le_bytes_i64 :: "int \<Rightarrow> string" where
  "le_bytes_i64 z = le_bytes (nat (z mod 2 ^ 64))"

section \<open>Invalidation buckets\<close>

text \<open>A \<open>Duration\<close> is a count of nanoseconds.\<close>

type_synonym duration = nat
type_synonym bucket = int

definition bucket_ms :: "duration \<Rightarrow> int" where
  "bucket_ms d = int (min (max (d div 1000000) 1) (nat i64_max))"

definition bucket_of :: "int \<Rightarrow> duration \<Rightarrow> bucket" where
  "bucket_of unix_ms d = unix_ms div bucket_ms d"

definition window_bounds :: "int \<Rightarrow> int \<Rightarrow> int \<times> int" where
  "window_bounds a b = (if a \<le> b then (a, b) else (b, a))"

definition buckets_for_window :: "int \<Rightarrow> int \<Rightarrow> duration \<Rightarrow> bucket list" where
  "buckets_for_window a b d =
     (let (lo, hi) = window_bounds a b in [bucket_of lo d .. bucket_of hi d])"

section \<open>Keys\<close>

record cache_key =
  ck_digest :: string
  first_bucket :: bucket
  last_bucket :: bucket

definition NUL :: char where
  "NUL = char_of (0::nat)"

definition key_preimage :: "string \<Rightarrow> string \<Rightarrow> string \<Rightarrow> bucket \<Rightarrow> bucket \<Rightarrow> duration \<Rightarrow> string" where
  "key_preimage method_id filter_digest scope fst_b lst_b d =
     ''CacheKey:v4.0'' @ [NUL] @ le_bytes (length method_id) @ method_id @ filter_digest @ scope @
     le_bytes_i64 fst_b @ le_bytes_i64 lst_b @ le_bytes_i64 (bucket_ms d)"

definition cache_key_new ::
  "(string \<Rightarrow> string) \<Rightarrow> string \<Rightarrow> string \<Rightarrow> string \<Rightarrow> int \<Rightarrow> int \<Rightarrow> duration \<Rightarrow> cache_key" where
  "cache_key_new sha method_id filter_digest scope window_start window_end d =
     (let (lo, hi) = window_bounds window_start window_end;
          fst_b = bucket_of lo d;
          lst_b = bucket_of hi d
      in
      \<lparr> ck_digest = sha (key_preimage method_id filter_digest scope fst_b lst_b d),
        first_bucket = fst_b,
        last_bucket = lst_b \<rparr>)"

definition overlaps_bucket :: "cache_key \<Rightarrow> bucket \<Rightarrow> bool" where
  "overlaps_bucket k b \<longleftrightarrow> first_bucket k \<le> b \<and> b \<le> last_bucket k"

text \<open>\<open>PartialEq\<close> and \<open>Hash\<close> read the digest alone.\<close>

definition key_eq :: "cache_key \<Rightarrow> cache_key \<Rightarrow> bool" where
  "key_eq a b \<longleftrightarrow> ck_digest a = ck_digest b"

section \<open>Scopes\<close>

definition lp :: "string \<Rightarrow> string" where
  "lp s = le_bytes (length s) @ s"

definition lp_list :: "string list \<Rightarrow> string" where
  "lp_list ids = le_bytes (length ids) @ concat (map lp (sort ids))"

definition scope_preimage ::
  "bool \<Rightarrow> string \<Rightarrow> string list \<Rightarrow> string list \<Rightarrow> string \<Rightarrow> string list \<Rightarrow> string" where
  "scope_preimage authenticated identity families communities occurrence selves =
     ''CallerScope:v46.3.1'' @ [NUL] @
     (if \<not> authenticated then [char_of (0::nat)]
      else [char_of (1::nat)] @ lp identity @ lp_list families @ lp_list communities @
           lp occurrence @ lp_list selves)"

definition scope_digest ::
  "(string \<Rightarrow> string) \<Rightarrow> bool \<Rightarrow> string \<Rightarrow> string list \<Rightarrow> string list \<Rightarrow> string \<Rightarrow> string list \<Rightarrow> string"
  where
  "scope_digest sha authenticated identity families communities occurrence selves =
     sha (scope_preimage authenticated identity families communities occurrence selves)"

section \<open>Buckets partition time\<close>

lemma bucket_ms_pos: "0 < bucket_ms d"
  by (simp add: bucket_ms_def i64_max_def)

lemma bucket_of_mono: "a \<le> b \<Longrightarrow> bucket_of a d \<le> bucket_of b d"
  by (simp add: bucket_of_def zdiv_mono1 bucket_ms_pos)

lemma bucket_of_bounds:
  "bucket_of t d * bucket_ms d \<le> t \<and> t < (bucket_of t d + 1) * bucket_ms d"
proof -
  have "t = bucket_of t d * bucket_ms d + t mod bucket_ms d"
    by (simp add: bucket_of_def)
  moreover have "0 \<le> t mod bucket_ms d" "t mod bucket_ms d < bucket_ms d"
    using bucket_ms_pos[of d] by simp_all
  ultimately show ?thesis by (simp add: algebra_simps)
qed

lemma overlaps_bucket_run:
  "overlaps_bucket (cache_key_new sha m f s a b d) t \<longleftrightarrow> t \<in> set (buckets_for_window a b d)"
  by (auto simp: overlaps_bucket_def cache_key_new_def buckets_for_window_def Let_def
      split: prod.splits)

lemma window_overlaps:
  assumes "min a b \<le> t" "t \<le> max a b"
  shows "overlaps_bucket (cache_key_new sha m f s a b d) (bucket_of t d)"
  using assms
  by (auto simp: overlaps_bucket_def cache_key_new_def window_bounds_def Let_def
      intro!: bucket_of_mono split: if_splits)

text \<open>The key's two endpoint buckets are exactly the buckets its window touches: a bucket is in the key's
  range iff some millisecond of the closed window falls into it, whichever way round the window was
  given. No write inside a window is missed and no write in an untouched bucket invalidates.\<close>

theorem key_range_is_window:
  "overlaps_bucket (cache_key_new sha m f s a b d) t \<longleftrightarrow>
     (\<exists>ms. min a b \<le> ms \<and> ms \<le> max a b \<and> bucket_of ms d = t)"
proof
  assume ov: "overlaps_bucket (cache_key_new sha m f s a b d) t"
  let ?lo = "min a b" and ?hi = "max a b"
  have t: "bucket_of ?lo d \<le> t" "t \<le> bucket_of ?hi d"
    using ov by (auto simp: overlaps_bucket_def cache_key_new_def window_bounds_def Let_def min_def
        max_def split: if_splits)
  let ?ms = "max ?lo (t * bucket_ms d)"
  have "t * bucket_ms d \<le> ?hi"
  proof -
    have "t * bucket_ms d \<le> bucket_of ?hi d * bucket_ms d"
      using t(2) bucket_ms_pos[of d] by simp
    then show ?thesis using bucket_of_bounds[of ?hi d] by linarith
  qed
  moreover have "bucket_of ?ms d = t"
  proof (cases "?lo \<le> t * bucket_ms d")
    case True
    then show ?thesis using bucket_ms_pos[of d] by (simp add: bucket_of_def max_def)
  next
    case False
    then have "t * bucket_ms d < (bucket_of ?lo d + 1) * bucket_ms d"
      using bucket_of_bounds[of ?lo d] by linarith
    then have "t \<le> bucket_of ?lo d" using bucket_ms_pos[of d] by simp
    with t(1) False show ?thesis by (simp add: max_def)
  qed
  ultimately show "\<exists>ms. ?lo \<le> ms \<and> ms \<le> ?hi \<and> bucket_of ms d = t"
    by (intro exI[of _ ?ms]) simp
next
  assume "\<exists>ms. min a b \<le> ms \<and> ms \<le> max a b \<and> bucket_of ms d = t"
  then show "overlaps_bucket (cache_key_new sha m f s a b d) t"
    using window_overlaps by blast
qed

section \<open>The hashed byte strings are injective\<close>

lemma le_bytes_length [simp]: "length (le_bytes n) = 8" "length (le_bytes_i64 z) = 8"
  by (simp_all add: le_bytes_def le_bytes_i64_def)

lemma little_endian_inj:
  fixes n m :: nat
  assumes "map (\<lambda>i. char_of (n div 256 ^ i)) [0..<k] = map (\<lambda>i. char_of (m div 256 ^ i)) [0..<k]"
    and "n < 256 ^ k" "m < 256 ^ k"
  shows "n = m"
  using assms
proof (induction k arbitrary: n m)
  case (Suc k)
  have tail: "map (\<lambda>i. char_of (x div 256 ^ Suc i)) [0..<k] =
      map (\<lambda>i. char_of (x div 256 div 256 ^ i)) [0..<k]" for x :: nat
    by (simp add: div_mult2_eq)
  from Suc.prems(1) have hd: "char_of n = char_of m"
    and tl: "map (\<lambda>i. char_of (n div 256 div 256 ^ i)) [0..<k] =
             map (\<lambda>i. char_of (m div 256 div 256 ^ i)) [0..<k]"
    unfolding map_upt_Suc tail by simp_all
  have "n div 256 < 256 ^ k" "m div 256 < 256 ^ k"
    using Suc.prems(2,3) by (simp_all add: less_mult_imp_div_less mult.commute)
  then have "n div 256 = m div 256" using Suc.IH[OF tl] by blast
  moreover have "n mod 256 = m mod 256" using hd by (simp add: char_of_eq_iff take_bit_eq_mod)
  ultimately show ?case by (metis div_mult_mod_eq)
qed simp

lemma le_bytes_inj: "n < 2 ^ 64 \<Longrightarrow> m < 2 ^ 64 \<Longrightarrow> le_bytes n = le_bytes m \<longleftrightarrow> n = m"
  using little_endian_inj[of n 8 m] by (auto simp: le_bytes_def)

definition fits :: "'a list \<Rightarrow> bool" where
  "fits xs \<longleftrightarrow> length xs < 2 ^ 64"

definition is_i64 :: "int \<Rightarrow> bool" where
  "is_i64 z \<longleftrightarrow> - (2 ^ 63) \<le> z \<and> z \<le> i64_max"

lemma le_bytes_i64_inj:
  assumes "is_i64 a" "is_i64 b"
  shows "le_bytes_i64 a = le_bytes_i64 b \<longleftrightarrow> a = b"
proof
  assume eq: "le_bytes_i64 a = le_bytes_i64 b"
  have "nat (a mod 2 ^ 64) < 2 ^ 64" "nat (b mod 2 ^ 64) < 2 ^ 64"
    by (simp_all add: nat_less_iff)
  then have "a mod 2 ^ 64 = b mod 2 ^ 64"
    using eq le_bytes_inj by (simp add: le_bytes_i64_def)
  then obtain k where "a = b + 2 ^ 64 * k" by (metis mod_eqE)
  then show "a = b" using assms by (auto simp: is_i64_def i64_max_def)
qed simp

lemma lp_append_inj:
  assumes "fits s" "fits t"
  shows "lp s @ x = lp t @ y \<longleftrightarrow> s = t \<and> x = y"
  using assms le_bytes_inj[of "length s" "length t"] by (auto simp: lp_def fits_def)

lemma lp_concat_inj:
  "length xs = length ys \<Longrightarrow> \<forall>s \<in> set xs \<union> set ys. fits s \<Longrightarrow>
     concat (map lp xs) @ u = concat (map lp ys) @ v \<longleftrightarrow> xs = ys \<and> u = v"
proof (induction xs ys rule: list_induct2)
  case (Cons x xs y ys)
  then show ?case using lp_append_inj[of x y] by auto
qed simp

lemma sort_eq_mset: "sort xs = sort ys \<longleftrightarrow> mset xs = mset (ys :: 'a::linorder list)"
  by (metis mset_sort properties_for_sort sorted_sort)

lemma lp_list_append_inj:
  assumes "fits xs" "fits ys" "\<forall>s \<in> set xs \<union> set ys. fits s"
  shows "lp_list xs @ u = lp_list ys @ v \<longleftrightarrow> mset xs = mset ys \<and> u = v"
proof (cases "length xs = length ys")
  case True
  with assms(3) lp_concat_inj[of "sort xs" "sort ys" u v] show ?thesis
    by (simp add: lp_list_def sort_eq_mset)
next
  case False
  then have "mset xs \<noteq> mset ys" by (metis size_mset)
  with False assms(1,2) le_bytes_inj[of "length xs" "length ys"] show ?thesis
    by (simp add: lp_list_def fits_def)
qed

text \<open>Scope-disjointness. Two callers get the same scope digest exactly when their resolved admissions
  are the same up to the order the resolver listed the ids (every unauthenticated caller alike), or
  when the two byte strings hashed are a collision of SHA-256: the serialisation never merges two
  admissions.\<close>

theorem scope_digest_separates:
  assumes "fits i" "fits i'" "fits o1" "fits o2"
    and "\<forall>xs \<in> {f, f', c, c', s, s'}. fits xs \<and> (\<forall>x \<in> set xs. fits x)"
  shows "scope_digest sha a i f c o1 s = scope_digest sha a' i' f' c' o2 s' \<longleftrightarrow>
    (\<not> a \<and> \<not> a' \<or>
     a \<and> a' \<and> i = i' \<and> mset f = mset f' \<and> mset c = mset c' \<and> o1 = o2 \<and> mset s = mset s') \<or>
    (let x = scope_preimage a i f c o1 s; y = scope_preimage a' i' f' c' o2 s' in x \<noteq> y \<and> sha x = sha y)"
proof -
  have ends: "lp_list xs = lp_list ys \<longleftrightarrow> mset xs = mset ys"
    if "fits xs" "fits ys" "\<forall>z \<in> set xs \<union> set ys. fits z" for xs ys
    using lp_list_append_inj[OF that, of "[]" "[]"] by simp
  have "scope_preimage a i f c o1 s = scope_preimage a' i' f' c' o2 s' \<longleftrightarrow>
    (\<not> a \<and> \<not> a' \<or>
     a \<and> a' \<and> i = i' \<and> mset f = mset f' \<and> mset c = mset c' \<and> o1 = o2 \<and> mset s = mset s')"
    using assms
    by (cases a; cases a')
      (simp_all add: scope_preimage_def lp_append_inj lp_list_append_inj ends Ball_def Un_iff)
  then show ?thesis by (auto simp: scope_digest_def Let_def)
qed

lemma bucket_of_i64:
  assumes "is_i64 t"
  shows "is_i64 (bucket_of t d)"
proof (cases "0 \<le> t")
  case True
  then have "bucket_of t d \<le> t" "0 \<le> bucket_of t d"
    using bucket_ms_pos[of d] zdiv_mono2[of t 1 "bucket_ms d"]
    by (simp_all add: bucket_of_def pos_imp_zdiv_nonneg_iff)
  with assms show ?thesis by (simp add: is_i64_def)
next
  case False
  then have "bucket_of t d < 0" using bucket_ms_pos[of d] by (simp add: bucket_of_def pos_imp_zdiv_neg_iff)
  moreover have "t \<le> bucket_of t d"
  proof -
    have "t * bucket_ms d \<le> t" using False bucket_ms_pos[of d] by (simp add: mult_le_cancel_left1)
    then have "t * bucket_ms d < (bucket_of t d + 1) * bucket_ms d"
      using bucket_of_bounds[of t d] by linarith
    then show ?thesis using bucket_ms_pos[of d] by simp
  qed
  ultimately show ?thesis using assms by (simp add: is_i64_def i64_max_def)
qed

lemma bucket_ms_i64: "is_i64 (bucket_ms d)"
  by (auto simp: bucket_ms_def is_i64_def i64_max_def)

lemma cache_key_new_digest:
  "ck_digest (cache_key_new sha m f s a b d) =
     sha (key_preimage m f s (bucket_of (min a b) d) (bucket_of (max a b) d) d)"
  by (simp add: cache_key_new_def window_bounds_def Let_def min_def max_def)

text \<open>C22: Two cache keys are equal, so share an entry, exactly when they agree on the method, the filter
  digest, the scope digest, the bucket run of the window and the bucket width, or when the two byte
  strings hashed are a collision of SHA-256.\<close>

theorem cache_key_separates:
  assumes "fits m" "fits m'" "length f = 32" "length f' = 32" "length s = 32" "length s' = 32"
    and "\<forall>t \<in> {a, b, a', b'}. is_i64 t"
  shows "key_eq (cache_key_new sha m f s a b d) (cache_key_new sha m' f' s' a' b' d') \<longleftrightarrow>
    (m = m' \<and> f = f' \<and> s = s' \<and> bucket_ms d = bucket_ms d' \<and>
     set (buckets_for_window a b d) = set (buckets_for_window a' b' d')) \<or>
    (let x = key_preimage m f s (bucket_of (min a b) d) (bucket_of (max a b) d) d;
         y = key_preimage m' f' s' (bucket_of (min a' b') d') (bucket_of (max a' b') d') d'
     in x \<noteq> y \<and> sha x = sha y)"
proof -
  have i64: "is_i64 (bucket_of (min a b) d)" "is_i64 (bucket_of (max a b) d)"
    "is_i64 (bucket_of (min a' b') d')" "is_i64 (bucket_of (max a' b') d')"
    using assms(7) by (auto intro!: bucket_of_i64 simp: min_def max_def)
  have runs: "set (buckets_for_window x y w) = {bucket_of (min x y) w .. bucket_of (max x y) w}" for x y w
    by (auto simp: buckets_for_window_def window_bounds_def min_def max_def)
  have le: "bucket_of (min x y) w \<le> bucket_of (max x y) w" for x y w
    by (intro bucket_of_mono) simp
  have "key_preimage m f s (bucket_of (min a b) d) (bucket_of (max a b) d) d =
      key_preimage m' f' s' (bucket_of (min a' b') d') (bucket_of (max a' b') d') d' \<longleftrightarrow>
    m = m' \<and> f = f' \<and> s = s' \<and> bucket_of (min a b) d = bucket_of (min a' b') d' \<and>
    bucket_of (max a b) d = bucket_of (max a' b') d' \<and> bucket_ms d = bucket_ms d'"
    using assms(1-6) lp_append_inj[of m m'] i64 bucket_ms_i64 le_bytes_i64_inj
    by (simp add: key_preimage_def lp_def[symmetric] append_assoc[symmetric] del: append_assoc)
  then show ?thesis
    by (auto simp: key_eq_def cache_key_new_digest Let_def runs le)
qed

section \<open>Witnesses of the keys\<close>

text \<open>Concrete digests: a hash that keeps its input (no collisions), and one that forgets it.\<close>

theorem scope_digest_separates_witness:
  "scope_digest (\<lambda>x. x) True ''id'' [''f1'', ''f2''] [] ''occ'' [] =
     scope_digest (\<lambda>x. x) True ''id'' [''f2'', ''f1''] [] ''occ'' [] \<and>
   scope_digest (\<lambda>x. x) True ''id'' [''f1''] [] ''occ'' [] \<noteq>
     scope_digest (\<lambda>x. x) True ''id'' [''f2''] [] ''occ'' []"
proof (rule conjI)
  show "scope_digest (\<lambda>x. x) True ''id'' [''f1'', ''f2''] [] ''occ'' [] =
     scope_digest (\<lambda>x. x) True ''id'' [''f2'', ''f1''] [] ''occ'' []"
    by (subst scope_digest_separates) (simp_all add: fits_def)
  show "scope_digest (\<lambda>x. x) True ''id'' [''f1''] [] ''occ'' [] \<noteq>
     scope_digest (\<lambda>x. x) True ''id'' [''f2''] [] ''occ'' []"
    by (subst scope_digest_separates) (simp_all add: fits_def Let_def)
qed

theorem cache_key_separates_witness:
  "\<not> key_eq (cache_key_new (\<lambda>x. x) ''m'' (replicate 32 NUL) (replicate 32 NUL) 0 5 1000000)
            (cache_key_new (\<lambda>x. x) ''n'' (replicate 32 NUL) (replicate 32 NUL) 0 5 1000000)"
  by (subst cache_key_separates) (simp_all add: fits_def is_i64_def i64_max_def Let_def)

end
