(* ===== verification/Cache_Lru.thy ===== *)
theory Cache_Lru
  imports Cache_Key
begin

text \<open>
  The bounded LRU (\<open>src/src/cache/lru.rs\<close>), the structure behind the aggregate cache. A \<open>HashMap\<close> is an
  association list in some order of its slots, with at most one slot per key; keys are compared as
  \<open>CacheKey\<close> compares them, by digest. The only place the code depends on the order is the choice among
  slots of equal recency, and \<open>ticks_ok\<close> below excludes equal recencies until the 64-bit tick wraps.
  Instants are nanosecond counts of the monotonic clock.

  The interface a client relies on, removal by key, is the locale \<open>keyed_store\<close>; this theory interprets
  it on the LRU and the admission cache interprets it on its two maps.
\<close>

section \<open>Removing a list of keys\<close>

text \<open>The loop every invalidation runs: remove each victim and count the ones that were present.\<close>

fun drop_keys :: "('s \<Rightarrow> 'k \<Rightarrow> 's \<times> bool) \<Rightarrow> 's \<Rightarrow> 'k list \<Rightarrow> 's \<times> nat" where
  "drop_keys rm s [] = (s, 0)"
| "drop_keys rm s (k # ks) =
     (let (s', was) = rm s k;
          (s'', n) = drop_keys rm s' ks
      in (s'', if was then n + 1 else n))"

locale keyed_store =
  fixes ok :: "'s \<Rightarrow> bool"
    and peek :: "'s \<Rightarrow> 'k \<Rightarrow> 'e option"
    and rm :: "'s \<Rightarrow> 'k \<Rightarrow> 's \<times> bool"
    and same :: "'k \<Rightarrow> 'k \<Rightarrow> bool"
  assumes rm_ok: "ok s \<Longrightarrow> ok (fst (rm s k))"
    and peek_rm: "ok s \<Longrightarrow> peek (fst (rm s k)) k' = (if same k k' then None else peek s k')"
    and rm_present: "ok s \<Longrightarrow> snd (rm s k) \<longleftrightarrow> peek s k \<noteq> None"
    and same_refl: "same k k"
begin

lemma drop_keys_ok: "ok s \<Longrightarrow> ok (fst (drop_keys rm s ks))"
proof (induction ks arbitrary: s)
  case (Cons k ks)
  then have "ok (fst (rm s k))" using rm_ok by blast
  with Cons.IH show ?case by (simp add: Let_def case_prod_beta)
qed simp

lemma peek_drop_keys:
  "ok s \<Longrightarrow> peek (fst (drop_keys rm s ks)) k' = (if \<exists>k \<in> set ks. same k k' then None else peek s k')"
proof (induction ks arbitrary: s)
  case (Cons k ks)
  have "ok (fst (rm s k))" using rm_ok Cons.prems by blast
  from Cons.IH[OF this] peek_rm[OF Cons.prems] show ?case
    by (simp add: Let_def case_prod_beta)
qed simp

text \<open>The count of a removal loop over pairwise different resident keys is their number.\<close>

lemma drop_keys_count:
  assumes "ok s" "\<forall>k \<in> set ks. peek s k \<noteq> None"
    and "sorted_wrt (\<lambda>a b. \<not> same a b) ks"
  shows "snd (drop_keys rm s ks) = length ks"
  using assms
proof (induction ks arbitrary: s)
  case (Cons k ks)
  have "ok (fst (rm s k))" using rm_ok Cons.prems by blast
  moreover have "\<forall>k' \<in> set ks. peek (fst (rm s k)) k' \<noteq> None"
    using Cons.prems by (simp add: peek_rm)
  ultimately have "snd (drop_keys rm (fst (rm s k)) ks) = length ks"
    using Cons by simp
  moreover have "snd (rm s k)" using Cons.prems rm_present by simp
  ultimately show ?case by (simp add: Let_def case_prod_beta)
qed simp

end

section \<open>The structure\<close>

record 'v cache_entry =
  ce_value :: 'v
  ce_byte_size :: nat
  ce_inserted_at :: nat

definition is_expired :: "'v cache_entry \<Rightarrow> duration \<Rightarrow> nat \<Rightarrow> bool" where
  "is_expired e ttl now \<longleftrightarrow> ttl \<le> now - ce_inserted_at e"

record 'v slot =
  sl_entry :: "'v cache_entry"
  sl_last_tick :: nat

type_synonym 'v slots = "(cache_key \<times> 'v slot) list"

record 'v lru =
  lru_map :: "'v slots"
  lru_max_entries :: nat
  lru_max_bytes :: nat
  lru_bytes :: nat
  lru_tick :: nat

fun slot_of :: "'v slots \<Rightarrow> cache_key \<Rightarrow> 'v slot option" where
  "slot_of [] key = None"
| "slot_of ((k, s) # m) key = (if key_eq k key then Some s else slot_of m key)"

definition drop_slot :: "'v slots \<Rightarrow> cache_key \<Rightarrow> 'v slots" where
  "drop_slot m key = filter (\<lambda>(k, s). \<not> key_eq k key) m"

definition lru_new :: "nat \<Rightarrow> nat \<Rightarrow> 'v lru" where
  "lru_new max_entries max_bytes =
     \<lparr> lru_map = [], lru_max_entries = max_entries, lru_max_bytes = max_bytes,
       lru_bytes = 0, lru_tick = 0 \<rparr>"

definition lru_len :: "'v lru \<Rightarrow> nat" where
  "lru_len l = length (lru_map l)"

definition next_tick :: "nat \<Rightarrow> nat" where
  "next_tick t = (t + 1) mod 2 ^ 64"

definition remove_internal :: "'v lru \<Rightarrow> cache_key \<Rightarrow> 'v lru \<times> bool" where
  "remove_internal l key =
     (case slot_of (lru_map l) key of
        Some s \<Rightarrow>
          (l\<lparr>lru_map := drop_slot (lru_map l) key,
             lru_bytes := saturating_sub (lru_bytes l) (ce_byte_size (sl_entry s))\<rparr>, True)
      | None \<Rightarrow> (l, False))"

definition set_tick :: "'v slots \<Rightarrow> cache_key \<Rightarrow> nat \<Rightarrow> 'v slots" where
  "set_tick m key t = map (\<lambda>(k, s). if key_eq k key then (k, s\<lparr>sl_last_tick := t\<rparr>) else (k, s)) m"

definition lru_get ::
  "'v lru \<Rightarrow> cache_key \<Rightarrow> duration \<Rightarrow> nat \<Rightarrow> 'v lru \<times> 'v option \<times> nat" where
  "lru_get l key ttl now =
     (case slot_of (lru_map l) key of
        None \<Rightarrow> (l, None, 0)
      | Some s \<Rightarrow>
          if is_expired (sl_entry s) ttl now then (fst (remove_internal l key), None, 1)
          else
            let t = next_tick (lru_tick l) in
            (l\<lparr>lru_tick := t, lru_map := set_tick (lru_map l) key t\<rparr>,
             Some (ce_value (sl_entry s)), 0))"

definition over_capacity :: "'v lru \<Rightarrow> bool" where
  "over_capacity l \<longleftrightarrow> lru_max_entries l < lru_len l \<or> lru_max_bytes l < lru_bytes l"

text \<open>\<open>min_by_key\<close>: the first slot of least recency in the iteration order.\<close>

fun lru_victim :: "'v slots \<Rightarrow> (cache_key \<times> 'v slot) option" where
  "lru_victim [] = None"
| "lru_victim ((k, s) # m) =
     (case lru_victim m of
        None \<Rightarrow> Some (k, s)
      | Some (k', s') \<Rightarrow> if sl_last_tick s \<le> sl_last_tick s' then Some (k, s) else Some (k', s'))"

definition evict_lru_victim :: "'v lru \<Rightarrow> ('v lru \<times> cache_key) option" where
  "evict_lru_victim l =
     map_option (\<lambda>(k, s). (fst (remove_internal l k), k)) (lru_victim (lru_map l))"

lemma lru_victim_in: "lru_victim m = Some (k, s) \<Longrightarrow> (k, s) \<in> set m"
  by (induction m arbitrary: k s rule: lru_victim.induct) (auto split: option.splits if_splits)

lemma key_eq_refl [simp]: "key_eq k k"
  by (simp add: key_eq_def)

lemma slot_of_in: "(k, s) \<in> set m \<Longrightarrow> slot_of m k \<noteq> None"
  by (induction m) auto

lemma drop_slot_shorter: "(k, s) \<in> set m \<Longrightarrow> length (drop_slot m k) < length m"
  unfolding drop_slot_def by (rule length_filter_less[of "(k, s)"]) auto

lemma evict_shorter: "evict_lru_victim l = Some (l', k) \<Longrightarrow> length (lru_map l') < length (lru_map l)"
  using lru_victim_in slot_of_in drop_slot_shorter
  by (fastforce simp: evict_lru_victim_def remove_internal_def split: option.splits)

function evict_loop :: "'v lru \<Rightarrow> nat \<Rightarrow> 'v lru \<times> nat" where
  "evict_loop l n =
     (if over_capacity l
      then (case evict_lru_victim l of None \<Rightarrow> (l, n) | Some (l', k) \<Rightarrow> evict_loop l' (n + 1))
      else (l, n))"
  by pat_completeness auto
termination
  by (relation "measure (\<lambda>(l, n). length (lru_map l))") (auto dest: evict_shorter)

declare evict_loop.simps [simp del]

definition insert_slot :: "'v lru \<Rightarrow> cache_key \<Rightarrow> 'v cache_entry \<Rightarrow> 'v lru" where
  "insert_slot l key e =
     (let t = next_tick (lru_tick l);
          bytes = (case slot_of (lru_map l) key of
                     Some old \<Rightarrow> saturating_sub (lru_bytes l) (ce_byte_size (sl_entry old))
                   | None \<Rightarrow> lru_bytes l)
      in
      l\<lparr>lru_tick := t,
        lru_map := (key, \<lparr> sl_entry = e, sl_last_tick = t \<rparr>) # drop_slot (lru_map l) key,
        lru_bytes := saturating_add bytes (ce_byte_size e)\<rparr>)"

definition lru_insert :: "'v lru \<Rightarrow> cache_key \<Rightarrow> 'v cache_entry \<Rightarrow> 'v lru \<times> nat" where
  "lru_insert l key e = evict_loop (insert_slot l key e) 0"

definition lru_remove :: "'v lru \<Rightarrow> cache_key \<Rightarrow> 'v lru \<times> bool" where
  "lru_remove l key = remove_internal l key"

definition evict_expired :: "'v lru \<Rightarrow> duration \<Rightarrow> nat \<Rightarrow> 'v lru \<times> cache_key list" where
  "evict_expired l ttl now =
     (let expired = map fst (filter (\<lambda>(k, s). is_expired (sl_entry s) ttl now) (lru_map l))
      in (fst (drop_keys remove_internal l expired), expired))"

definition contains_resident :: "'v lru \<Rightarrow> cache_key \<Rightarrow> bool" where
  "contains_resident l key \<longleftrightarrow> slot_of (lru_map l) key \<noteq> None"

definition keys_overlapping_bucket :: "'v lru \<Rightarrow> bucket \<Rightarrow> cache_key list" where
  "keys_overlapping_bucket l b = filter (\<lambda>k. overlaps_bucket k b) (map fst (lru_map l))"

section \<open>The invariant\<close>

definition slots_bytes :: "'v slots \<Rightarrow> nat" where
  "slots_bytes m = sum_list (map (\<lambda>(k, s). ce_byte_size (sl_entry s)) m)"

definition slots_ok :: "'v lru \<Rightarrow> bool" where
  "slots_ok l \<longleftrightarrow> distinct (map (ck_digest \<circ> fst) (lru_map l)) \<and> lru_bytes l = slots_bytes (lru_map l)"

definition lru_ok :: "'v lru \<Rightarrow> bool" where
  "lru_ok l \<longleftrightarrow> slots_ok l \<and> lru_len l \<le> lru_max_entries l \<and> lru_bytes l \<le> lru_max_bytes l"

definition ticks_ok :: "'v lru \<Rightarrow> bool" where
  "ticks_ok l \<longleftrightarrow> distinct (map (sl_last_tick \<circ> snd) (lru_map l)) \<and>
     (\<forall>(k, s) \<in> set (lru_map l). sl_last_tick s \<le> lru_tick l)"

lemma slot_of_Some: "slot_of m key = Some s \<Longrightarrow> \<exists>k. (k, s) \<in> set m \<and> key_eq k key"
  by (induction m) (auto split: if_splits)

lemma slot_of_None: "slot_of m key = None \<longleftrightarrow> (\<forall>(k, s) \<in> set m. \<not> key_eq k key)"
  by (induction m) (auto split: if_splits)

lemma slot_of_eq:
  "distinct (map (ck_digest \<circ> fst) m) \<Longrightarrow> (k, s) \<in> set m \<Longrightarrow> key_eq k key \<Longrightarrow> slot_of m key = Some s"
  by (induction m) (force simp: key_eq_def)+

lemma slot_of_drop_slot: "slot_of (drop_slot m key) k' = (if key_eq key k' then None else slot_of m k')"
  by (induction m) (auto simp: drop_slot_def key_eq_def)

lemma drop_slot_distinct:
  "distinct (map f m) \<Longrightarrow> distinct (map f (drop_slot m key))"
  by (simp add: drop_slot_def distinct_map_filter)

lemma drop_slot_absent: "slot_of m key = None \<Longrightarrow> drop_slot m key = m"
  by (auto simp: slot_of_None drop_slot_def filter_id_conv)

lemma drop_slot_bytes:
  "distinct (map (ck_digest \<circ> fst) m) \<Longrightarrow> slot_of m key = Some s \<Longrightarrow>
     slots_bytes m = slots_bytes (drop_slot m key) + ce_byte_size (sl_entry s)"
proof (induction m)
  case (Cons x m)
  obtain k s' where x: "x = (k, s')" by (cases x)
  show ?case
  proof (cases "key_eq k key")
    case True
    then have "slot_of m key = None"
      using Cons.prems x by (force simp: slot_of_None key_eq_def)
    then show ?thesis
      using True Cons.prems x by (simp add: slots_bytes_def drop_slot_def filter_id_conv slot_of_None)
  next
    case False
    then show ?thesis using Cons x by (simp add: slots_bytes_def drop_slot_def)
  qed
qed simp

lemma drop_slot_set: "set (drop_slot m key) \<subseteq> set m"
  by (auto simp: drop_slot_def)

lemma drop_slot_length: "length (drop_slot m key) \<le> length m"
  by (simp add: drop_slot_def)

lemma remove_internal_config [simp]:
  "lru_max_entries (fst (remove_internal l k)) = lru_max_entries l"
  "lru_max_bytes (fst (remove_internal l k)) = lru_max_bytes l"
  "lru_tick (fst (remove_internal l k)) = lru_tick l"
  by (simp_all add: remove_internal_def split: option.splits)

lemma remove_internal_map: "lru_map (fst (remove_internal l k)) = drop_slot (lru_map l) k"
  by (auto simp: remove_internal_def drop_slot_absent split: option.splits)

lemma remove_internal_slots_ok: "slots_ok l \<Longrightarrow> slots_ok (fst (remove_internal l k))"
  by (auto simp: remove_internal_def slots_ok_def drop_slot_distinct saturating_sub_def
      dest: drop_slot_bytes split: option.splits)

lemma remove_internal_bytes_le: "lru_bytes (fst (remove_internal l k)) \<le> lru_bytes l"
  by (simp add: remove_internal_def saturating_sub_def split: option.splits)

lemma remove_internal_ok: "lru_ok l \<Longrightarrow> lru_ok (fst (remove_internal l k))"
  using remove_internal_slots_ok remove_internal_bytes_le[of l k]
    drop_slot_length[of "lru_map l" k]
  by (auto simp: lru_ok_def lru_len_def remove_internal_map)

lemma remove_internal_ticks_ok: "ticks_ok l \<Longrightarrow> ticks_ok (fst (remove_internal l k))"
  using drop_slot_set[of "lru_map l" k]
  by (auto simp: ticks_ok_def remove_internal_map drop_slot_distinct)

interpretation lru_store: keyed_store lru_ok "\<lambda>l. slot_of (lru_map l)" remove_internal key_eq
proof
  show "lru_ok l \<Longrightarrow> lru_ok (fst (remove_internal l k))" for l :: "'v lru" and k
    by (rule remove_internal_ok)
  show "slot_of (lru_map (fst (remove_internal l k))) k' =
      (if key_eq k k' then None else slot_of (lru_map l) k')" for l :: "'v lru" and k k'
    by (simp add: remove_internal_map slot_of_drop_slot)
  show "snd (remove_internal l k) \<longleftrightarrow> slot_of (lru_map l) k \<noteq> None" for l :: "'v lru" and k
    by (simp add: remove_internal_def split: option.splits)
qed simp

lemma lru_new_ok: "lru_ok (lru_new n b)" "ticks_ok (lru_new n b)"
  by (simp_all add: lru_ok_def slots_ok_def lru_new_def lru_len_def slots_bytes_def ticks_ok_def)

section \<open>Eviction\<close>

lemma lru_victim_None: "lru_victim m = None \<longleftrightarrow> m = []"
  by (cases m) (auto split: option.splits if_splits)

lemma lru_victim_least:
  "lru_victim m = Some (k, s) \<Longrightarrow> (k', s') \<in> set m \<Longrightarrow> sl_last_tick s \<le> sl_last_tick s'"
proof (induction m arbitrary: k s)
  case (Cons x m)
  obtain k0 s0 where x: "x = (k0, s0)" by (cases x)
  show ?case
  proof (cases "lru_victim m")
    case None
    with Cons.prems x show ?thesis by (auto simp: lru_victim_None)
  next
    case (Some v)
    obtain k1 s1 where v: "v = (k1, s1)" by (cases v)
    have "(k', s') \<in> set m \<Longrightarrow> sl_last_tick s1 \<le> sl_last_tick s'"
      using Cons.IH[of k1 s1] Some v by simp
    with Cons.prems x Some v show ?thesis by (auto split: if_splits)
  qed
qed simp

lemma evict_loop_under: "\<not> over_capacity l \<Longrightarrow> evict_loop l n = (l, n)"
  by (simp add: evict_loop.simps)

lemma evict_loop_over:
  assumes "over_capacity l" "lru_victim (lru_map l) = Some (k, s)"
  shows "evict_loop l n = evict_loop (fst (remove_internal l k)) (n + 1)"
  using assms by (subst evict_loop.simps) (simp add: evict_lru_victim_def)

text \<open>The induction principle of the loop over consistent slots: each round drops a least recent slot.\<close>

lemma evict_loop_rule:
  assumes start: "P l" "slots_ok l"
    and step: "\<And>l k s. P l \<Longrightarrow> slots_ok l \<Longrightarrow> over_capacity l \<Longrightarrow> lru_victim (lru_map l) = Some (k, s) \<Longrightarrow>
      P (fst (remove_internal l k))"
  shows "P (fst (evict_loop l n)) \<and> slots_ok (fst (evict_loop l n)) \<and> \<not> over_capacity (fst (evict_loop l n))"
  using start
proof (induction l n rule: evict_loop.induct)
  case (1 l n)
  show ?case
  proof (cases "over_capacity l")
    case True
    have "lru_map l \<noteq> []"
    proof
      assume "lru_map l = []"
      with 1(3) have "\<not> over_capacity l"
        by (simp add: over_capacity_def lru_len_def slots_ok_def slots_bytes_def)
      with True show False by simp
    qed
    then obtain k s where v: "lru_victim (lru_map l) = Some (k, s)"
      using lru_victim_None[of "lru_map l"] by (cases "lru_victim (lru_map l)") auto
    have "evict_lru_victim l = Some (fst (remove_internal l k), k)"
      using v by (simp add: evict_lru_victim_def)
    from 1(1)[OF True this refl step[OF 1(2,3) True v] remove_internal_slots_ok[OF 1(3)]]
    show ?thesis using evict_loop_over[OF True v, of n] by simp
  next
    case False
    with 1 show ?thesis by (simp add: evict_loop_under)
  qed
qed

lemma evict_loop_config:
  assumes "slots_ok l"
  shows "lru_max_entries (fst (evict_loop l n)) = lru_max_entries l \<and>
    lru_max_bytes (fst (evict_loop l n)) = lru_max_bytes l \<and>
    lru_tick (fst (evict_loop l n)) = lru_tick l \<and> set (lru_map (fst (evict_loop l n))) \<subseteq> set (lru_map l)"
  using evict_loop_rule[of "\<lambda>l'. lru_max_entries l' = lru_max_entries l \<and> lru_max_bytes l' = lru_max_bytes l \<and>
      lru_tick l' = lru_tick l \<and> set (lru_map l') \<subseteq> set (lru_map l)" l n, OF _ assms]
    drop_slot_set
  by (fastforce simp: remove_internal_map)

lemma evict_loop_ok: "slots_ok l \<Longrightarrow> lru_ok (fst (evict_loop l n))"
  using evict_loop_rule[of "\<lambda>_. True" l n] by (auto simp: lru_ok_def over_capacity_def)

lemma evict_loop_ticks_ok: "slots_ok l \<Longrightarrow> ticks_ok l \<Longrightarrow> ticks_ok (fst (evict_loop l n))"
  using evict_loop_rule[of ticks_ok l n] remove_internal_ticks_ok by blast

text \<open>Eviction is by recency: whatever was dropped was less recent than everything that stays.\<close>

definition evicted_older :: "'v slots \<Rightarrow> 'v slots \<Rightarrow> bool" where
  "evicted_older m m' \<longleftrightarrow>
     (\<forall>(k, s) \<in> set m - set m'. \<forall>(k', s') \<in> set m'. sl_last_tick s < sl_last_tick s')"

lemma tick_unique:
  "distinct (map (sl_last_tick \<circ> snd) m) \<Longrightarrow> (k, s) \<in> set m \<Longrightarrow> (k', s') \<in> set m \<Longrightarrow>
     sl_last_tick s = sl_last_tick s' \<Longrightarrow> (k, s) = (k', s')"
  using distinct_map_unique[of "sl_last_tick \<circ> snd" m "(k, s)" "(k', s')"] by simp

lemma victim_dropped:
  assumes "slots_ok l" "lru_victim (lru_map l) = Some (k, s)"
  shows "set (drop_slot (lru_map l) k) = set (lru_map l) - {(k, s)}"
proof -
  have here: "(k, s) \<in> set (lru_map l)" by (rule lru_victim_in[OF assms(2)])
  have dist: "distinct (map (ck_digest \<circ> fst) (lru_map l))" using assms(1) by (simp add: slots_ok_def)
  have "key_eq (fst x) k \<longleftrightarrow> x = (k, s)" if "x \<in> set (lru_map l)" for x
    using distinct_map_unique[OF dist that here] by (auto simp: key_eq_def)
  then show ?thesis by (auto simp: drop_slot_def case_prod_beta)
qed

lemma victim_strictly_least:
  assumes ok: "ticks_ok l" and v: "lru_victim (lru_map l) = Some (k, s)"
    and x: "(k', s') \<in> set (lru_map l)" "(k', s') \<noteq> (k, s)"
  shows "sl_last_tick s < sl_last_tick s'"
proof -
  have "sl_last_tick s' \<noteq> sl_last_tick s"
    using tick_unique[OF _ x(1) lru_victim_in[OF v]] ok x(2) unfolding ticks_ok_def by metis
  with lru_victim_least[OF v x(1)] show ?thesis by simp
qed

lemma evict_loop_older:
  assumes ok: "slots_ok l" "ticks_ok l"
  shows "evicted_older (lru_map l) (lru_map (fst (evict_loop l n)))"
proof -
  define older where "older l' \<longleftrightarrow> ticks_ok l' \<and> evicted_older (lru_map l) (lru_map l')" for l'
  have step: "older (fst (remove_internal l' k))"
    if P: "older l'" and sl: "slots_ok l'" and v: "lru_victim (lru_map l') = Some (k, s)" for l' k s
  proof -
    have ti: "ticks_ok l'" and old: "evicted_older (lru_map l) (lru_map l')"
      using P by (simp_all add: older_def)
    have "sl_last_tick s1 < sl_last_tick s2"
      if a: "(k1, s1) \<in> set (lru_map l) - (set (lru_map l') - {(k, s)})"
        and b: "(k2, s2) \<in> set (lru_map l') - {(k, s)}" for k1 s1 k2 s2
    proof (cases "(k1, s1) = (k, s)")
      case True
      then show ?thesis using victim_strictly_least[OF ti v, of k2 s2] b by simp
    next
      case False
      then show ?thesis using a b old unfolding evicted_older_def by fast
    qed
    then have "evicted_older (lru_map l) (drop_slot (lru_map l') k)"
      unfolding evicted_older_def victim_dropped[OF sl v] by fast
    then show ?thesis
      unfolding older_def remove_internal_map using remove_internal_ticks_ok[OF ti] by (rule conjI[rotated])
  qed
  have "older l" using ok(2) by (simp add: older_def evicted_older_def)
  then have "older (fst (evict_loop l n)) \<and> slots_ok (fst (evict_loop l n)) \<and>
      \<not> over_capacity (fst (evict_loop l n))"
    by (rule evict_loop_rule[OF _ ok(1)]) (rule step)
  then show ?thesis by (simp add: older_def)
qed

lemma victim_newest_alone:
  assumes ok: "slots_ok l" "ticks_ok l" and v: "lru_victim (lru_map l) = Some (k, s)"
    and newest: "\<And>k' s'. (k', s') \<in> set (lru_map l) \<Longrightarrow> sl_last_tick s' \<le> sl_last_tick s"
  shows "lru_map l = [(k, s)]"
proof (rule distinct_singleton_list)
  show "distinct (lru_map l)" using ok(1) by (simp add: slots_ok_def distinct_map)
  have "(k1, s1) = (k, s)" if x: "(k1, s1) \<in> set (lru_map l)" for k1 s1
  proof (rule tick_unique[OF _ x lru_victim_in[OF v]])
    show "distinct (map (sl_last_tick \<circ> snd) (lru_map l))" using ok(2) by (simp add: ticks_ok_def)
    show "sl_last_tick s1 = sl_last_tick s"
      using newest[OF x] lru_victim_least[OF v x] by (rule le_antisym)
  qed
  then show "set (lru_map l) = {(k, s)}" using lru_victim_in[OF v] by fast
qed

lemma evict_loop_keeps_newest:
  assumes ok: "slots_ok l" "ticks_ok l" and new: "(k, s) \<in> set (lru_map l)"
    and newest: "\<And>k' s'. (k', s') \<in> set (lru_map l) \<Longrightarrow> sl_last_tick s' \<le> sl_last_tick s"
    and fits_alone: "ce_byte_size (sl_entry s) \<le> lru_max_bytes l" "0 < lru_max_entries l"
  shows "(k, s) \<in> set (lru_map (fst (evict_loop l n)))"
proof -
  define keeps where "keeps l' \<longleftrightarrow> ticks_ok l' \<and> (k, s) \<in> set (lru_map l') \<and>
    set (lru_map l') \<subseteq> set (lru_map l) \<and> lru_max_bytes l' = lru_max_bytes l \<and>
    lru_max_entries l' = lru_max_entries l" for l'
  have step: "keeps (fst (remove_internal l' k'))"
    if P: "keeps l'" and sl: "slots_ok l'" and over: "over_capacity l'"
      and v: "lru_victim (lru_map l') = Some (k', s')" for l' k' s'
  proof -
    have ti: "ticks_ok l'" and sub: "set (lru_map l') \<subseteq> set (lru_map l)"
      and bounds: "lru_max_bytes l' = lru_max_bytes l" "lru_max_entries l' = lru_max_entries l"
      and here: "(k, s) \<in> set (lru_map l')"
      using P by (simp_all add: keeps_def)
    have "(k', s') \<noteq> (k, s)"
    proof
      assume "(k', s') = (k, s)"
      with v have "lru_victim (lru_map l') = Some (k, s)" by simp
      then have "lru_map l' = [(k, s)]"
        by (rule victim_newest_alone[OF sl ti]) (use newest sub in blast)
      with sl bounds fits_alone over show False
        by (simp add: over_capacity_def lru_len_def slots_ok_def slots_bytes_def)
    qed
    with here have "(k, s) \<in> set (drop_slot (lru_map l') k')"
      unfolding victim_dropped[OF sl v] by blast
    moreover have "set (drop_slot (lru_map l') k') \<subseteq> set (lru_map l)"
      using drop_slot_set[of "lru_map l'" k'] sub by (rule subset_trans)
    ultimately show ?thesis
      unfolding keeps_def remove_internal_map remove_internal_config
      using remove_internal_ticks_ok[OF ti] bounds by (intro conjI)
  qed
  have "keeps l" using ok(2) new by (simp add: keeps_def)
  then have "keeps (fst (evict_loop l n)) \<and> slots_ok (fst (evict_loop l n)) \<and>
      \<not> over_capacity (fst (evict_loop l n))"
    by (rule evict_loop_rule[OF _ ok(1)]) (rule step)
  then show ?thesis by (simp add: keeps_def)
qed

section \<open>Insertion\<close>

lemma insert_slot_slots_ok:
  assumes "lru_ok l" "lru_max_bytes l + ce_byte_size e \<le> usize_max"
  shows "slots_ok (insert_slot l key e)"
proof -
  have dist: "distinct (map (ck_digest \<circ> fst) (lru_map l))" and bytes: "lru_bytes l = slots_bytes (lru_map l)"
    and le: "lru_bytes l \<le> lru_max_bytes l"
    using assms(1) by (auto simp: lru_ok_def slots_ok_def)
  have "ck_digest key \<notin> (ck_digest \<circ> fst) ` set (drop_slot (lru_map l) key)"
    by (auto simp: drop_slot_def key_eq_def)
  moreover have "(case slot_of (lru_map l) key of
       Some old \<Rightarrow> saturating_sub (lru_bytes l) (ce_byte_size (sl_entry old)) | None \<Rightarrow> lru_bytes l) =
     slots_bytes (drop_slot (lru_map l) key)"
    using drop_slot_bytes[OF dist] bytes
    by (auto simp: saturating_sub_def drop_slot_absent split: option.splits)
  moreover have "slots_bytes (drop_slot (lru_map l) key) \<le> lru_bytes l"
    using drop_slot_bytes[OF dist, of key] bytes
    by (cases "slot_of (lru_map l) key") (auto simp: drop_slot_absent)
  ultimately show ?thesis
    using drop_slot_distinct[OF dist, of key] assms(2) le
    by (simp add: slots_ok_def insert_slot_def Let_def slots_bytes_def saturating_add_exact comp_def)
qed

lemma insert_slot_ticks_ok:
  assumes "ticks_ok l" "lru_tick l + 1 < 2 ^ 64"
  shows "ticks_ok (insert_slot l key e)"
proof -
  have "next_tick (lru_tick l) = lru_tick l + 1" using assms(2) by (simp add: next_tick_def)
  moreover have "\<forall>(k, s) \<in> set (drop_slot (lru_map l) key). sl_last_tick s \<le> lru_tick l"
    using assms(1) drop_slot_set[of "lru_map l" key] by (auto simp: ticks_ok_def)
  ultimately show ?thesis
    using assms(1) drop_slot_distinct[of "sl_last_tick \<circ> snd" "lru_map l" key]
    by (fastforce simp: ticks_ok_def insert_slot_def Let_def comp_def)
qed

lemma insert_slot_simps [simp]:
  "lru_max_entries (insert_slot l key e) = lru_max_entries l"
  "lru_max_bytes (insert_slot l key e) = lru_max_bytes l"
  "lru_tick (insert_slot l key e) = next_tick (lru_tick l)"
  "lru_map (insert_slot l key e) =
     (key, \<lparr> sl_entry = e, sl_last_tick = next_tick (lru_tick l) \<rparr>) # drop_slot (lru_map l) key"
  by (simp_all add: insert_slot_def Let_def)

lemma lru_insert_ok:
  assumes "lru_ok l" "lru_max_bytes l + ce_byte_size e \<le> usize_max"
  shows "lru_ok (fst (lru_insert l key e))"
    "lru_max_entries (fst (lru_insert l key e)) = lru_max_entries l"
    "lru_max_bytes (fst (lru_insert l key e)) = lru_max_bytes l"
  using evict_loop_ok[OF insert_slot_slots_ok[OF assms], of key 0]
    evict_loop_config[OF insert_slot_slots_ok[OF assms], of key 0]
  by (simp_all add: lru_insert_def)

text \<open>An insert always returns a cache within both of its bounds, with one slot per key and a byte gauge
  that is the sum of the resident sizes, whatever was inserted (the only proviso is that the byte
  gauge does not saturate a machine word).\<close>

theorem lru_insert_keeps_bounds:
  assumes "lru_ok l" "lru_max_bytes l + ce_byte_size e \<le> usize_max"
  shows "lru_ok (fst (lru_insert l key e)) \<and>
    lru_max_entries (fst (lru_insert l key e)) = lru_max_entries l \<and>
    lru_max_bytes (fst (lru_insert l key e)) = lru_max_bytes l"
  using lru_insert_ok[OF assms] by blast

text \<open>Insertion is least-recently-used: every slot an insert evicts was used before every slot it keeps,
  and the inserted entry itself stays whenever it fits the cache alone.\<close>

theorem lru_insert_is_lru:
  assumes ok: "lru_ok l" "ticks_ok l" "lru_max_bytes l + ce_byte_size e \<le> usize_max"
    and no_wrap: "lru_tick l + 1 < 2 ^ 64"
  shows "evicted_older (drop_slot (lru_map l) key) (lru_map (fst (lru_insert l key e))) \<and>
    ticks_ok (fst (lru_insert l key e)) \<and>
    (ce_byte_size e \<le> lru_max_bytes l \<and> 0 < lru_max_entries l \<longrightarrow>
       slot_of (lru_map (fst (lru_insert l key e))) key =
         Some \<lparr> sl_entry = e, sl_last_tick = lru_tick l + 1 \<rparr>)"
proof -
  note sl = insert_slot_slots_ok[OF ok(1,3), of key] and ti = insert_slot_ticks_ok[OF ok(2) no_wrap, of key e]
  let ?new = "(key, \<lparr> sl_entry = e, sl_last_tick = lru_tick l + 1 \<rparr>)"
  have tick: "next_tick (lru_tick l) = lru_tick l + 1" using no_wrap by (simp add: next_tick_def)
  have "?new \<in> set (lru_map (fst (lru_insert l key e)))"
    if "ce_byte_size e \<le> lru_max_bytes l" "0 < lru_max_entries l"
    unfolding lru_insert_def using that ti[unfolded ticks_ok_def]
    by (intro evict_loop_keeps_newest[OF sl ti]) (auto simp: tick)
  moreover have "slots_ok (fst (lru_insert l key e))"
    using evict_loop_ok[OF sl, of 0] by (simp add: lru_insert_def lru_ok_def)
  ultimately show ?thesis
    using evict_loop_older[OF sl ti, of 0] evict_loop_ticks_ok[OF sl ti, of 0]
    by (auto simp: lru_insert_def evicted_older_def slots_ok_def intro!: slot_of_eq)
qed

section \<open>Lookup, removal and expiry\<close>

definition lru_entries :: "'v lru \<Rightarrow> (cache_key \<times> 'v cache_entry) set" where
  "lru_entries l = {(k, e). \<exists>s. (k, s) \<in> set (lru_map l) \<and> e = sl_entry s}"

lemma set_tick_fst: "map (ck_digest \<circ> fst) (set_tick m key t) = map (ck_digest \<circ> fst) m"
  by (induction m) (auto simp: set_tick_def)

lemma set_tick_bytes: "slots_bytes (set_tick m key t) = slots_bytes m"
  by (induction m) (auto simp: set_tick_def slots_bytes_def)

lemma set_tick_entries:
  "(\<exists>s. (k, s) \<in> set (set_tick m key t) \<and> e = sl_entry s) \<longleftrightarrow> (\<exists>s. (k, s) \<in> set m \<and> e = sl_entry s)"
proof -
  have "map (\<lambda>(k, s). (k, sl_entry s)) (set_tick m key t) = map (\<lambda>(k, s). (k, sl_entry s)) m"
    by (induction m) (auto simp: set_tick_def)
  moreover have "(k, e) \<in> set (map (\<lambda>(k, s). (k, sl_entry s)) xs) \<longleftrightarrow>
      (\<exists>s. (k, s) \<in> set xs \<and> e = sl_entry s)" for xs :: "'a slots"
    by force
  ultimately show ?thesis by metis
qed

lemma set_tick_len: "length (set_tick m key t) = length m"
  by (simp add: set_tick_def)

lemma lru_get_ok:
  assumes "lru_ok l"
  shows "lru_ok (fst (lru_get l key ttl now))"
proof (cases "\<exists>s. slot_of (lru_map l) key = Some s \<and> is_expired (sl_entry s) ttl now")
  case True
  then show ?thesis using remove_internal_ok[OF assms] by (auto simp: lru_get_def)
next
  case False
  then show ?thesis
    using assms
    by (auto simp: lru_get_def Let_def lru_ok_def slots_ok_def lru_len_def set_tick_len set_tick_bytes
        set_tick_fst split: option.splits)
qed

lemma lru_get_hit:
  assumes "lru_get l key ttl now = (l', Some v, n)"
  shows "\<exists>k e. (k, e) \<in> lru_entries l \<and> key_eq k key \<and> ce_value e = v \<and> now - ce_inserted_at e < ttl"
proof -
  from assms obtain s where s: "slot_of (lru_map l) key = Some s" "ce_value (sl_entry s) = v"
    "\<not> is_expired (sl_entry s) ttl now"
    by (auto simp: lru_get_def Let_def split: option.splits if_splits)
  then obtain k where "(k, s) \<in> set (lru_map l)" "key_eq k key" using slot_of_Some by blast
  with s show ?thesis
    by (intro exI[of _ k] exI[of _ "sl_entry s"]) (auto simp: lru_entries_def is_expired_def)
qed

lemma remove_internal_entries:
  "lru_entries (fst (remove_internal l key)) = {(k, e) \<in> lru_entries l. \<not> key_eq k key}"
  by (auto simp: lru_entries_def remove_internal_map drop_slot_def)

lemma lru_get_entries: "lru_entries (fst (lru_get l key ttl now)) \<subseteq> lru_entries l"
proof (cases "slot_of (lru_map l) key")
  case (Some s)
  then show ?thesis
    using remove_internal_entries[of l key]
    by (auto simp: lru_get_def Let_def lru_entries_def set_tick_entries)
qed (simp add: lru_get_def)

lemma drop_keys_entries:
  "lru_entries (fst (drop_keys remove_internal l ks)) =
     {(k, e) \<in> lru_entries l. \<forall>k' \<in> set ks. \<not> key_eq k k'}"
proof (induction ks arbitrary: l)
  case (Cons k ks)
  show ?case
    by (auto simp: Let_def case_prod_beta Cons.IH remove_internal_entries)
qed simp

lemma lru_insert_entries:
  assumes "lru_ok l" "lru_max_bytes l + ce_byte_size e \<le> usize_max"
  shows "lru_entries (fst (lru_insert l key e)) \<subseteq> insert (key, e) (lru_entries l)"
  using evict_loop_config[OF insert_slot_slots_ok[OF assms], of key 0] drop_slot_set[of "lru_map l" key]
  by (fastforce simp: lru_insert_def lru_entries_def)

text \<open>Draining expired entries removes exactly the entries past their time to live and keeps every other,
  and the keys it reports are the keys it removed.\<close>

theorem evict_expired_exact:
  assumes ok: "lru_ok l"
  shows "lru_entries (fst (evict_expired l ttl now)) =
      {(k, e) \<in> lru_entries l. now - ce_inserted_at e < ttl} \<and>
    set (snd (evict_expired l ttl now)) = {k. \<exists>e. (k, e) \<in> lru_entries l \<and> ttl \<le> now - ce_inserted_at e} \<and>
    length (snd (evict_expired l ttl now)) + lru_len (fst (evict_expired l ttl now)) = lru_len l"
proof -
  have dist: "distinct (map (ck_digest \<circ> fst) (lru_map l))" using ok by (simp add: lru_ok_def slots_ok_def)
  let ?old = "\<lambda>(k, s). is_expired (sl_entry s) ttl now"
  have same: "key_eq (fst x) (fst y) \<longleftrightarrow> x = y" if "x \<in> set (lru_map l)" "y \<in> set (lru_map l)" for x y
    using distinct_map_unique[OF dist that] by (auto simp: key_eq_def)
  have gone: "(\<forall>k' \<in> set (map fst (filter ?old (lru_map l))). \<not> key_eq (fst x) k') \<longleftrightarrow> \<not> ?old x"
    if x: "x \<in> set (lru_map l)" for x
  proof -
    have "(\<exists>k' \<in> set (map fst (filter ?old (lru_map l))). key_eq (fst x) k') \<longleftrightarrow>
        (\<exists>y \<in> set (lru_map l). ?old y \<and> x = y)"
      using same[OF x] by auto
    then show ?thesis using x by blast
  qed
  have maps: "lru_map (fst (drop_keys remove_internal l' ks)) =
      filter (\<lambda>x. \<forall>k' \<in> set ks. \<not> key_eq (fst x) k') (lru_map l')" for l' :: "'a lru" and ks
    by (induction ks arbitrary: l')
      (auto simp: Let_def case_prod_beta remove_internal_map drop_slot_def filter_filter intro!: filter_cong)
  have kept: "lru_map (fst (evict_expired l ttl now)) = filter (\<lambda>x. \<not> ?old x) (lru_map l)"
    unfolding evict_expired_def Let_def fst_conv maps using gone by (intro filter_cong) auto
  then have "length (snd (evict_expired l ttl now)) + lru_len (fst (evict_expired l ttl now)) = lru_len l"
    by (simp add: evict_expired_def Let_def lru_len_def sum_length_filter_compl)
  moreover have "lru_entries (fst (evict_expired l ttl now)) =
      {(k, e) \<in> lru_entries l. now - ce_inserted_at e < ttl}"
    unfolding lru_entries_def kept by (auto simp: is_expired_def)
  moreover have "set (snd (evict_expired l ttl now)) =
      {k. \<exists>e. (k, e) \<in> lru_entries l \<and> ttl \<le> now - ce_inserted_at e}"
    by (force simp: evict_expired_def Let_def lru_entries_def is_expired_def image_iff)
  ultimately show ?thesis by blast
qed

section \<open>Witnesses of the LRU\<close>

definition ex_key :: "string \<Rightarrow> bucket \<Rightarrow> bucket \<Rightarrow> cache_key" where
  "ex_key d a b = \<lparr> ck_digest = d, first_bucket = a, last_bucket = b \<rparr>"

definition ex_entry :: "nat \<Rightarrow> nat \<Rightarrow> nat \<Rightarrow> nat cache_entry" where
  "ex_entry v bytes t = \<lparr> ce_value = v, ce_byte_size = bytes, ce_inserted_at = t \<rparr>"

definition ex_lru :: "nat lru" where
  "ex_lru =
     \<lparr> lru_map = [(ex_key ''b'' 3 5, \<lparr> sl_entry = ex_entry 8 6 20, sl_last_tick = 2 \<rparr>),
                   (ex_key ''a'' 0 1, \<lparr> sl_entry = ex_entry 7 4 0, sl_last_tick = 1 \<rparr>)],
       lru_max_entries = 2, lru_max_bytes = 10, lru_bytes = 10, lru_tick = 2 \<rparr>"

lemma ex_lru_ok: "lru_ok ex_lru" "ticks_ok ex_lru"
  by (simp_all add: ex_lru_def lru_ok_def slots_ok_def lru_len_def slots_bytes_def ex_entry_def
      ex_key_def ticks_ok_def)

theorem lru_insert_keeps_bounds_witness:
  "lru_ok (fst (lru_insert ex_lru (ex_key ''c'' 2 2) (ex_entry 9 6 30)))"
  using lru_insert_keeps_bounds[OF ex_lru_ok(1), of "ex_entry 9 6 30" "ex_key ''c'' 2 2"]
  by (simp add: ex_lru_def ex_entry_def usize_max_def)

theorem lru_insert_is_lru_witness:
  "evicted_older (drop_slot (lru_map ex_lru) (ex_key ''c'' 2 2))
     (lru_map (fst (lru_insert ex_lru (ex_key ''c'' 2 2) (ex_entry 9 6 30)))) \<and>
   slot_of (lru_map (fst (lru_insert ex_lru (ex_key ''c'' 2 2) (ex_entry 9 6 30)))) (ex_key ''c'' 2 2) =
     Some \<lparr> sl_entry = ex_entry 9 6 30, sl_last_tick = 3 \<rparr>"
  using lru_insert_is_lru[OF ex_lru_ok, of "ex_entry 9 6 30" "ex_key ''c'' 2 2"]
  by (simp add: ex_lru_def ex_entry_def usize_max_def)

theorem evict_expired_exact_witness:
  "set (snd (evict_expired ex_lru 15 30)) =
     {k. \<exists>e. (k, e) \<in> lru_entries ex_lru \<and> 15 \<le> 30 - ce_inserted_at e}"
  using evict_expired_exact[OF ex_lru_ok(1), of 15 30] by blast

end
