(* ===== verification/Cache_Surface.thy ===== *)
theory Cache_Surface
  imports Cache_Lru
begin

text \<open>
  The aggregate cache (\<open>src/src/cache/mod.rs\<close>, \<open>src/src/cache/stats.rs\<close>): the LRU behind a mutex, with its counters.
  Each operation is one locked section and takes the instant it read from the clock as an argument;
  \<open>get_or_compute\<close> releases the lock while it computes, so it is modelled as its two sections,
  \<open>goc_lookup\<close> and \<open>goc_insert\<close>, composed by \<open>get_or_compute\<close> when nothing runs in between. The inductive
  predicate \<open>cache_run\<close> is the set of reachable caches under any interleaving of the sections, with the
  history of stores and invalidations that led there.
\<close>

section \<open>Configuration and counters\<close>

datatype deployment_tier = Mobile | Edge | Server

record cache_config =
  max_entries :: nat
  max_bytes :: nat
  ttl :: duration
  invalidation_bucket :: duration

definition from_secs :: "nat \<Rightarrow> duration" where
  "from_secs s = s * 1000000000"

fun default_for_tier :: "deployment_tier \<Rightarrow> cache_config" where
  "default_for_tier Mobile =
     \<lparr> max_entries = 256, max_bytes = 8 * 1024 * 1024, ttl = from_secs 30,
       invalidation_bucket = from_secs 3600 \<rparr>"
| "default_for_tier Edge =
     \<lparr> max_entries = 512, max_bytes = 32 * 1024 * 1024, ttl = from_secs 30,
       invalidation_bucket = from_secs 3600 \<rparr>"
| "default_for_tier Server =
     \<lparr> max_entries = 1024, max_bytes = 64 * 1024 * 1024, ttl = from_secs 30,
       invalidation_bucket = from_secs 3600 \<rparr>"

text \<open>The counters are atomic \<open>u64\<close>: \<open>fetch_add\<close> wraps.\<close>

record cache_stats =
  st_hits :: nat
  st_misses :: nat
  st_evictions_lru :: nat
  st_evictions_ttl :: nat
  st_invalidations_write :: nat
  st_bytes_resident :: nat
  st_entries_resident :: nat

definition fetch_add :: "nat \<Rightarrow> nat \<Rightarrow> nat" where
  "fetch_add x n = (x + n) mod 2 ^ 64"

definition stats_default :: cache_stats where
  "stats_default = \<lparr> st_hits = 0, st_misses = 0, st_evictions_lru = 0, st_evictions_ttl = 0,
     st_invalidations_write = 0, st_bytes_resident = 0, st_entries_resident = 0 \<rparr>"

definition record_hit :: "cache_stats \<Rightarrow> cache_stats" where
  "record_hit st = st\<lparr>st_hits := fetch_add (st_hits st) 1\<rparr>"

definition record_miss :: "cache_stats \<Rightarrow> cache_stats" where
  "record_miss st = st\<lparr>st_misses := fetch_add (st_misses st) 1\<rparr>"

definition record_eviction_lru :: "nat \<Rightarrow> cache_stats \<Rightarrow> cache_stats" where
  "record_eviction_lru n st =
     (if 0 < n then st\<lparr>st_evictions_lru := fetch_add (st_evictions_lru st) n\<rparr> else st)"

definition record_eviction_ttl :: "nat \<Rightarrow> cache_stats \<Rightarrow> cache_stats" where
  "record_eviction_ttl n st =
     (if 0 < n then st\<lparr>st_evictions_ttl := fetch_add (st_evictions_ttl st) n\<rparr> else st)"

definition record_invalidation_write :: "nat \<Rightarrow> cache_stats \<Rightarrow> cache_stats" where
  "record_invalidation_write n st =
     (if 0 < n then st\<lparr>st_invalidations_write := fetch_add (st_invalidations_write st) n\<rparr> else st)"

definition set_residency :: "nat \<Rightarrow> nat \<Rightarrow> cache_stats \<Rightarrow> cache_stats" where
  "set_residency bytes entries st = st\<lparr>st_bytes_resident := bytes, st_entries_resident := entries\<rparr>"

section \<open>The cache\<close>

record 'v cache =
  ca_lru :: "'v lru"
  ca_config :: cache_config
  ca_stats :: cache_stats

definition with_config :: "cache_config \<Rightarrow> 'v cache" where
  "with_config cfg =
     \<lparr> ca_lru = lru_new (max_entries cfg) (max_bytes cfg), ca_config = cfg, ca_stats = stats_default \<rparr>"

definition refresh_residency :: "'v lru \<Rightarrow> cache_stats \<Rightarrow> cache_stats" where
  "refresh_residency l st = set_residency (lru_bytes l) (lru_len l) st"

definition goc_lookup :: "'v cache \<Rightarrow> cache_key \<Rightarrow> nat \<Rightarrow> 'v cache \<times> 'v option" where
  "goc_lookup c key now =
     (let (l, hit, evicted_ttl) = lru_get (ca_lru c) key (ttl (ca_config c)) now;
          st = (if 0 < evicted_ttl
                then refresh_residency l (record_eviction_ttl evicted_ttl (ca_stats c))
                else ca_stats c)
      in
      case hit of
        Some v \<Rightarrow> (c\<lparr>ca_lru := l, ca_stats := refresh_residency l (record_hit st)\<rparr>, Some v)
      | None \<Rightarrow> (c\<lparr>ca_lru := l, ca_stats := record_miss st\<rparr>, None))"

definition goc_insert :: "'v cache \<Rightarrow> cache_key \<Rightarrow> 'v \<Rightarrow> nat \<Rightarrow> nat \<Rightarrow> 'v cache" where
  "goc_insert c key value byte_size now =
     (let (l, evicted_lru) =
            lru_insert (ca_lru c) key
              \<lparr> ce_value = value, ce_byte_size = byte_size, ce_inserted_at = now \<rparr>
      in
      c\<lparr>ca_lru := l,
        ca_stats := refresh_residency l (record_eviction_lru evicted_lru (ca_stats c))\<rparr>)"

definition get_or_compute ::
  "'v cache \<Rightarrow> cache_key \<Rightarrow> nat \<Rightarrow> 'e + 'v \<times> nat \<Rightarrow> 'v cache \<times> ('e + 'v)" where
  "get_or_compute c key now compute =
     (case goc_lookup c key now of
        (c', Some v) \<Rightarrow> (c', Inr v)
      | (c', None) \<Rightarrow>
          (case compute of
             Inl e \<Rightarrow> (c', Inl e)
           | Inr (value, byte_size) \<Rightarrow> (goc_insert c' key value byte_size now, Inr value)))"

definition try_get :: "'v cache \<Rightarrow> cache_key \<Rightarrow> nat \<Rightarrow> 'v cache \<times> 'v option" where
  "try_get c key now =
     (let (l, hit, evicted_ttl) = lru_get (ca_lru c) key (ttl (ca_config c)) now;
          st = (if 0 < evicted_ttl
                then refresh_residency l (record_eviction_ttl evicted_ttl (ca_stats c))
                else ca_stats c)
      in
      case hit of
        Some v \<Rightarrow> (c\<lparr>ca_lru := l, ca_stats := refresh_residency l (record_hit st)\<rparr>, Some v)
      | None \<Rightarrow> (c\<lparr>ca_lru := l, ca_stats := record_miss st\<rparr>, None))"

definition store :: "'v cache \<Rightarrow> cache_key \<Rightarrow> 'v \<Rightarrow> nat \<Rightarrow> nat \<Rightarrow> 'v cache \<times> 'v" where
  "store c key value byte_size now =
     (let (l, evicted_lru) =
            lru_insert (ca_lru c) key
              \<lparr> ce_value = value, ce_byte_size = byte_size, ce_inserted_at = now \<rparr>
      in
      (c\<lparr>ca_lru := l,
         ca_stats := refresh_residency l (record_eviction_lru evicted_lru (ca_stats c))\<rparr>, value))"

definition invalidate_write :: "'v cache \<Rightarrow> int \<Rightarrow> 'v cache \<times> nat" where
  "invalidate_write c write_unix_ms =
     (let wb = bucket_of write_unix_ms (invalidation_bucket (ca_config c));
          victims = keys_overlapping_bucket (ca_lru c) wb;
          (l, n) = drop_keys lru_remove (ca_lru c) victims
      in
      (c\<lparr>ca_lru := l,
         ca_stats := refresh_residency l (record_invalidation_write n (ca_stats c))\<rparr>, n))"

definition sweep_expired :: "'v cache \<Rightarrow> nat \<Rightarrow> 'v cache \<times> nat" where
  "sweep_expired c now =
     (let (l, drained) = evict_expired (ca_lru c) (ttl (ca_config c)) now;
          n = length drained
      in
      (c\<lparr>ca_lru := l, ca_stats := refresh_residency l (record_eviction_ttl n (ca_stats c))\<rparr>, n))"

section \<open>Invariant of the sections\<close>

text \<open>Both bounds hold, the budget is the configured one, and the residency gauges tell the truth.\<close>

definition cache_ok :: "cache_config \<Rightarrow> 'v cache \<Rightarrow> bool" where
  "cache_ok cfg c \<longleftrightarrow>
     ca_config c = cfg \<and> lru_ok (ca_lru c) \<and>
     lru_max_entries (ca_lru c) = max_entries cfg \<and> lru_max_bytes (ca_lru c) = max_bytes cfg \<and>
     st_bytes_resident (ca_stats c) = lru_bytes (ca_lru c) \<and>
     st_entries_resident (ca_stats c) = lru_len (ca_lru c)"

lemmas stats_defs = record_hit_def record_miss_def record_eviction_lru_def record_eviction_ttl_def
  record_invalidation_write_def refresh_residency_def set_residency_def

lemma try_get_lookup: "try_get c key now = goc_lookup c key now"
  by (simp add: try_get_def goc_lookup_def)

lemma store_insert: "store c key v sz now = (goc_insert c key v sz now, v)"
  by (simp add: store_def goc_insert_def Let_def case_prod_beta)

lemma lru_remove_internal: "lru_remove = remove_internal"
  by (simp add: fun_eq_iff lru_remove_def)

lemma ca_lru_lookup: "ca_lru (fst (goc_lookup c key now)) = fst (lru_get (ca_lru c) key (ttl (ca_config c)) now)"
  by (simp add: goc_lookup_def Let_def case_prod_beta split: option.splits)

lemma ca_lru_insert:
  "ca_lru (goc_insert c key v sz now) =
     fst (lru_insert (ca_lru c) key \<lparr> ce_value = v, ce_byte_size = sz, ce_inserted_at = now \<rparr>)"
  by (simp add: goc_insert_def Let_def case_prod_beta)

lemma ca_lru_invalidate:
  "ca_lru (fst (invalidate_write c ms)) =
     fst (drop_keys remove_internal (ca_lru c)
       (keys_overlapping_bucket (ca_lru c) (bucket_of ms (invalidation_bucket (ca_config c)))))"
  by (simp add: invalidate_write_def Let_def case_prod_beta lru_remove_internal)

lemma ca_lru_sweep: "ca_lru (fst (sweep_expired c now)) = fst (evict_expired (ca_lru c) (ttl (ca_config c)) now)"
  by (simp add: sweep_expired_def Let_def case_prod_beta)

lemma lru_get_bounds:
  "lru_max_entries (fst (lru_get l key t now)) = lru_max_entries l"
  "lru_max_bytes (fst (lru_get l key t now)) = lru_max_bytes l"
  by (simp_all add: lru_get_def Let_def split: option.splits)

lemma drop_keys_bounds:
  "lru_max_entries (fst (drop_keys remove_internal l ks)) = lru_max_entries l \<and>
   lru_max_bytes (fst (drop_keys remove_internal l ks)) = lru_max_bytes l"
  by (induction ks arbitrary: l) (simp_all add: Let_def case_prod_beta)

lemma lru_get_miss_same: "lru_get l key t now = (l', None, 0) \<Longrightarrow> l' = l"
  by (auto simp: lru_get_def Let_def split: option.splits if_splits)

lemma goc_lookup_ok:
  assumes "cache_ok cfg c"
  shows "cache_ok cfg (fst (goc_lookup c key now))"
proof -
  have cfg: "ca_config c = cfg" using assms by (simp add: cache_ok_def)
  obtain l hit n where g: "lru_get (ca_lru c) key (ttl cfg) now = (l, hit, n)"
    by (metis prod_cases3)
  have l: "lru_ok l" "lru_max_entries l = max_entries cfg" "lru_max_bytes l = max_bytes cfg"
    using assms lru_get_ok[of "ca_lru c" key "ttl cfg" now, unfolded g fst_conv]
      lru_get_bounds[of "ca_lru c" key "ttl cfg" now, unfolded g fst_conv]
    by (simp_all add: cache_ok_def)
  have "hit = None \<Longrightarrow> n = 0 \<Longrightarrow> l = ca_lru c" using lru_get_miss_same g by blast
  with l assms show ?thesis
    by (cases hit; cases "0 < n") (simp_all add: goc_lookup_def cfg g Let_def cache_ok_def stats_defs)
qed

lemma goc_insert_ok:
  assumes "cache_ok cfg c" "max_bytes cfg + sz \<le> usize_max"
  shows "cache_ok cfg (goc_insert c key v sz now)"
  using lru_insert_ok[of "ca_lru c" "\<lparr> ce_value = v, ce_byte_size = sz, ce_inserted_at = now \<rparr>" key] assms
  by (simp add: goc_insert_def Let_def case_prod_beta cache_ok_def stats_defs)

lemma invalidate_write_ok: "cache_ok cfg c \<Longrightarrow> cache_ok cfg (fst (invalidate_write c ms))"
  using lru_store.drop_keys_ok[of "ca_lru c"] drop_keys_bounds[of "ca_lru c"]
  by (simp add: invalidate_write_def Let_def case_prod_beta cache_ok_def stats_defs lru_remove_internal)

lemma sweep_expired_ok: "cache_ok cfg c \<Longrightarrow> cache_ok cfg (fst (sweep_expired c now))"
  using lru_store.drop_keys_ok[of "ca_lru c"] drop_keys_bounds[of "ca_lru c"]
  by (simp add: sweep_expired_def evict_expired_def Let_def case_prod_beta cache_ok_def stats_defs)

lemma with_config_ok: "cache_ok cfg (with_config cfg)"
  using lru_new_ok(1)
  by (simp add: cache_ok_def with_config_def stats_default_def) (simp add: lru_new_def lru_len_def)

section \<open>Every interleaving\<close>

datatype 'v cache_event = Stored cache_key 'v nat | Invalidated bucket

inductive cache_run :: "cache_config \<Rightarrow> 'v cache_event list \<Rightarrow> 'v cache \<Rightarrow> bool" for cfg where
  run_start: "cache_run cfg [] (with_config cfg)"
| run_lookup: "cache_run cfg hist c \<Longrightarrow> cache_run cfg hist (fst (goc_lookup c key now))"
| run_probe: "cache_run cfg hist c \<Longrightarrow> cache_run cfg hist (fst (try_get c key now))"
| run_insert: "cache_run cfg hist c \<Longrightarrow> max_bytes cfg + sz \<le> usize_max \<Longrightarrow>
    cache_run cfg (Stored key v now # hist) (goc_insert c key v sz now)"
| run_store: "cache_run cfg hist c \<Longrightarrow> max_bytes cfg + sz \<le> usize_max \<Longrightarrow>
    cache_run cfg (Stored key v now # hist) (fst (store c key v sz now))"
| run_invalidate: "cache_run cfg hist c \<Longrightarrow>
    cache_run cfg (Invalidated (bucket_of ms (invalidation_bucket cfg)) # hist) (fst (invalidate_write c ms))"
| run_sweep: "cache_run cfg hist c \<Longrightarrow> cache_run cfg hist (fst (sweep_expired c now))"

lemma cache_run_ok: "cache_run cfg hist c \<Longrightarrow> cache_ok cfg c"
  by (induction rule: cache_run.induct)
    (simp_all add: with_config_ok goc_lookup_ok try_get_lookup store_insert goc_insert_ok
      invalidate_write_ok sweep_expired_ok)

text \<open>Whatever the interleaving of lookups, stores, write invalidations and sweeps, the cache never exceeds
  its entry or byte budget and its residency gauges equal what is resident.\<close>

theorem cache_run_bounded:
  assumes "cache_run cfg hist c"
  shows "lru_len (ca_lru c) \<le> max_entries cfg \<and> lru_bytes (ca_lru c) \<le> max_bytes cfg \<and>
    lru_bytes (ca_lru c) = slots_bytes (lru_map (ca_lru c)) \<and>
    st_entries_resident (ca_stats c) = lru_len (ca_lru c) \<and>
    st_bytes_resident (ca_stats c) = lru_bytes (ca_lru c)"
  using cache_run_ok[OF assms] by (auto simp: cache_ok_def lru_ok_def slots_ok_def)

section \<open>What a hit is allowed to be\<close>

definition live_in :: "'v cache_event list \<Rightarrow> cache_key \<Rightarrow> 'v \<Rightarrow> nat \<Rightarrow> bool" where
  "live_in hist k v t \<longleftrightarrow>
     (\<exists>later earlier. hist = later @ Stored k v t # earlier \<and>
        (\<forall>b. Invalidated b \<in> set later \<longrightarrow> \<not> overlaps_bucket k b))"

lemma live_in_now: "live_in (Stored k v t # hist) k v t"
  by (auto simp: live_in_def intro: exI[of _ "[]"])

lemma live_in_later:
  assumes "live_in hist k v t" "\<And>b. ev = Invalidated b \<Longrightarrow> \<not> overlaps_bucket k b"
  shows "live_in (ev # hist) k v t"
proof -
  obtain later earlier where "hist = later @ Stored k v t # earlier"
    "\<forall>b. Invalidated b \<in> set later \<longrightarrow> \<not> overlaps_bucket k b"
    using assms(1) by (auto simp: live_in_def)
  then show ?thesis
    using assms(2) unfolding live_in_def
    by (intro exI[of _ "ev # later"] exI[of _ earlier]) auto
qed

lemma invalidate_write_entries:
  assumes "(k, e) \<in> lru_entries (ca_lru (fst (invalidate_write c ms)))"
  shows "(k, e) \<in> lru_entries (ca_lru c) \<and>
    \<not> overlaps_bucket k (bucket_of ms (invalidation_bucket (ca_config c)))"
proof -
  have in_e: "(k, e) \<in> lru_entries (ca_lru c)"
    and kept: "\<forall>k' \<in> set (keys_overlapping_bucket (ca_lru c) (bucket_of ms (invalidation_bucket (ca_config c)))).
      \<not> key_eq k k'"
    using assms by (auto simp: ca_lru_invalidate drop_keys_entries)
  moreover have "k \<in> fst ` set (lru_map (ca_lru c))"
    using in_e by (force simp: lru_entries_def)
  ultimately show ?thesis by (auto simp: keys_overlapping_bucket_def)
qed

lemma cache_run_live:
  "cache_run cfg hist c \<Longrightarrow> (k, e) \<in> lru_entries (ca_lru c) \<Longrightarrow>
     live_in hist k (ce_value e) (ce_inserted_at e)"
proof (induction arbitrary: k e rule: cache_run.induct)
  case run_start
  then show ?case by (simp add: with_config_def lru_new_def lru_entries_def)
next
  case (run_lookup hist c key now)
  then show ?case using lru_get_entries by (fastforce simp: ca_lru_lookup)
next
  case (run_probe hist c key now)
  then show ?case using lru_get_entries by (fastforce simp: try_get_lookup ca_lru_lookup)
next
  case (run_insert hist c sz key v now)
  have "(k, e) = (key, \<lparr> ce_value = v, ce_byte_size = sz, ce_inserted_at = now \<rparr>) \<or>
      (k, e) \<in> lru_entries (ca_lru c)"
    using run_insert.prems run_insert.hyps(2) cache_run_ok[OF run_insert.hyps(1)]
      lru_insert_entries[of "ca_lru c" "\<lparr> ce_value = v, ce_byte_size = sz, ce_inserted_at = now \<rparr>" key]
    by (auto simp: ca_lru_insert cache_ok_def)
  then show ?case using run_insert.IH live_in_now live_in_later by fastforce
next
  case (run_store hist c sz key v now)
  have "(k, e) = (key, \<lparr> ce_value = v, ce_byte_size = sz, ce_inserted_at = now \<rparr>) \<or>
      (k, e) \<in> lru_entries (ca_lru c)"
    using run_store.prems run_store.hyps(2) cache_run_ok[OF run_store.hyps(1)]
      lru_insert_entries[of "ca_lru c" "\<lparr> ce_value = v, ce_byte_size = sz, ce_inserted_at = now \<rparr>" key]
    by (auto simp: store_insert ca_lru_insert cache_ok_def)
  then show ?case using run_store.IH live_in_now live_in_later by fastforce
next
  case (run_invalidate hist c ms)
  have "ca_config c = cfg" using cache_run_ok[OF run_invalidate.hyps] by (simp add: cache_ok_def)
  with invalidate_write_entries[OF run_invalidate.prems] run_invalidate.IH show ?case
    by (intro live_in_later) auto
next
  case (run_sweep hist c now)
  then show ?case by (auto simp: ca_lru_sweep evict_expired_def Let_def drop_keys_entries)
qed

text \<open>C6: Whatever the interleaving, a value the cache serves was stored under an equal key, less than the time
  to live ago, and no write whose bucket lies in the stored key's window has been announced since it
  was stored.\<close>

theorem cache_serves_fresh:
  assumes run: "cache_run cfg hist c" and hit: "try_get c key now = (c', Some v)"
  shows "\<exists>k t. live_in hist k v t \<and> key_eq k key \<and> now - t < ttl cfg"
proof -
  have cfg: "ca_config c = cfg" using cache_run_ok[OF run] by (simp add: cache_ok_def)
  obtain l n where "lru_get (ca_lru c) key (ttl cfg) now = (l, Some v, n)"
    using hit by (auto simp: try_get_def cfg Let_def split: prod.splits option.splits if_splits)
  from lru_get_hit[OF this] obtain k e where "(k, e) \<in> lru_entries (ca_lru c)" "key_eq k key"
    "ce_value e = v" "now - ce_inserted_at e < ttl cfg" by blast
  with cache_run_live[OF run] show ?thesis by blast
qed

text \<open>A write invalidation misses nothing: after it, no resident entry was keyed on a window that contains
  the written instant, whichever buckets the window spans.\<close>

theorem invalidate_write_complete:
  assumes width: "invalidation_bucket (ca_config c) = d"
    and inside: "min a b \<le> ms" "ms \<le> max a b"
  shows "(cache_key_new sha m f s a b d, e) \<notin> lru_entries (ca_lru (fst (invalidate_write c ms)))"
  using invalidate_write_entries[of "cache_key_new sha m f s a b d" e c ms] window_overlaps[OF inside] width
  by blast

text \<open>Fail-honest read-through: an error of the computation is returned as it is and changes nothing but the
  counters and an expired entry; a success is returned even when the value is too large to keep; a
  live entry is returned without computing.\<close>

theorem get_or_compute_honest:
  "case get_or_compute c key now compute of
     (c', Inl err) \<Rightarrow> compute = Inl err \<and> snd (goc_lookup c key now) = None \<and>
       lru_entries (ca_lru c') \<subseteq> lru_entries (ca_lru c)
   | (c', Inr v) \<Rightarrow> snd (goc_lookup c key now) = Some v \<or>
       snd (goc_lookup c key now) = None \<and> (\<exists>sz. compute = Inr (v, sz))"
proof (cases "goc_lookup c key now")
  case (Pair c1 hit)
  have "lru_entries (ca_lru c1) \<subseteq> lru_entries (ca_lru c)"
    using lru_get_entries ca_lru_lookup[of c key now] by (simp add: Pair)
  then show ?thesis
    by (cases hit; cases compute) (auto simp: get_or_compute_def Pair)
qed

section \<open>Witnesses of the cache\<close>

abbreviation (input) ex_config :: cache_config where
  "ex_config \<equiv> default_for_tier Server"

definition ex_stored :: "nat cache" where
  "ex_stored = goc_insert (with_config ex_config) (ex_key ''a'' 0 5) 7 100 0"

lemma ex_stored_eq:
  "ex_stored =
     \<lparr> ca_lru = \<lparr> lru_map = [(ex_key ''a'' 0 5, \<lparr> sl_entry = ex_entry 7 100 0, sl_last_tick = 1 \<rparr>)],
                 lru_max_entries = 1024, lru_max_bytes = 67108864, lru_bytes = 100, lru_tick = 1 \<rparr>,
       ca_config = ex_config,
       ca_stats = stats_default\<lparr>st_bytes_resident := 100, st_entries_resident := 1\<rparr> \<rparr>"
  by (simp add: ex_stored_def goc_insert_def with_config_def lru_new_def lru_insert_def insert_slot_def
      Let_def next_tick_def drop_slot_def saturating_add_def usize_max_def evict_loop_under
      over_capacity_def lru_len_def stats_defs stats_default_def ex_entry_def)

lemma ex_run: "cache_run ex_config [Stored (ex_key ''a'' 0 5) (7::nat) 0] ex_stored"
  unfolding ex_stored_def
  by (rule run_insert[OF run_start]) (simp add: usize_max_def)

lemma ex_hit: "\<exists>c'. try_get ex_stored (ex_key ''a'' 0 5) 1 = (c', Some 7)"
  by (simp add: ex_stored_eq try_get_def lru_get_def Let_def is_expired_def ex_entry_def from_secs_def
      key_eq_def)

theorem cache_run_bounded_witness:
  "lru_len (ca_lru ex_stored) \<le> 1024 \<and> lru_bytes (ca_lru ex_stored) \<le> 67108864 \<and>
   st_entries_resident (ca_stats ex_stored) = lru_len (ca_lru ex_stored)"
  using cache_run_bounded[OF ex_run] by simp

theorem cache_serves_fresh_witness:
  "\<exists>k t. live_in [Stored (ex_key ''a'' 0 5) (7::nat) 0] k 7 t \<and> key_eq k (ex_key ''a'' 0 5) \<and>
     1 - t < from_secs 30"
proof -
  obtain c' where "try_get ex_stored (ex_key ''a'' 0 5) 1 = (c', Some 7)" using ex_hit by blast
  from cache_serves_fresh[OF ex_run this] show ?thesis by simp
qed

theorem invalidate_write_complete_witness:
  "(cache_key_new (\<lambda>x. x) ''m'' [] [] 0 5 (from_secs 3600), ex_entry 7 1 0) \<notin>
     lru_entries (ca_lru (fst (invalidate_write ex_stored 3)))"
  by (rule invalidate_write_complete) (simp_all add: ex_stored_eq)


end
