(* ===== verification/Cache_Admission.thy ===== *)
theory Cache_Admission
  imports Cache_Surface
begin

text \<open>
  The admission cache (\<open>src/src/cache/admission.rs\<close>): the resolved admission of a caller, by occurrence key,
  with a reverse index from identities to occurrences that makes a membership write invalidate every
  admission it affects. As in the aggregate cache each locked section is an operation,
  \<open>get_or_resolve\<close> is two of them, and \<open>admission_run\<close> is every interleaving with its history.
\<close>

section \<open>State\<close>

record caller_admission =
  occurrence_key_id :: string
  identity_key_id :: string
  family_key_ids :: "string set"
  community_key_ids :: "string set"
  self_key_ids :: "string set"

record admission_stats =
  as_hits :: nat
  as_misses :: nat
  as_evictions_ttl :: nat
  as_invalidations_chain_write :: nat
  as_entries_resident :: nat

record admission_slot =
  as_admission :: caller_admission
  as_inserted_at :: nat

definition slot_expired :: "admission_slot \<Rightarrow> duration \<Rightarrow> nat \<Rightarrow> bool" where
  "slot_expired s t now \<longleftrightarrow> t \<le> now - as_inserted_at s"

record admission_inner =
  am_map :: "(string \<times> admission_slot) list"
  by_identity :: "string \<Rightarrow> string set option"

record admission_cache =
  ac_inner :: admission_inner
  ac_ttl :: duration
  ac_stats :: admission_stats

definition DEFAULT_ADMISSION_TTL :: duration where
  "DEFAULT_ADMISSION_TTL = from_secs (5 * 60)"

definition with_ttl :: "duration \<Rightarrow> admission_cache" where
  "with_ttl t =
     \<lparr> ac_inner = \<lparr> am_map = [], by_identity = (\<lambda>_. None) \<rparr>, ac_ttl = t,
       ac_stats = \<lparr> as_hits = 0, as_misses = 0, as_evictions_ttl = 0,
                    as_invalidations_chain_write = 0, as_entries_resident = 0 \<rparr> \<rparr>"

definition admission_cache_new :: admission_cache where
  "admission_cache_new = with_ttl DEFAULT_ADMISSION_TTL"

definition deregister :: "admission_inner \<Rightarrow> string \<Rightarrow> admission_inner" where
  "deregister inner occ =
     (case map_of (am_map inner) occ of
        None \<Rightarrow> inner
      | Some s \<Rightarrow>
          let identity = identity_key_id (as_admission s);
              m = filter (\<lambda>(k, _). k \<noteq> occ) (am_map inner)
          in
          (case by_identity inner identity of
             None \<Rightarrow> inner\<lparr>am_map := m\<rparr>
           | Some occs \<Rightarrow>
               inner\<lparr>am_map := m,
                     by_identity := (by_identity inner)
                       (identity := (if occs - {occ} = {} then None else Some (occs - {occ})))\<rparr>))"

definition adm_refresh :: "admission_inner \<Rightarrow> admission_stats \<Rightarrow> admission_stats" where
  "adm_refresh inner st = st\<lparr>as_entries_resident := length (am_map inner)\<rparr>"

section \<open>Operations\<close>

definition gor_lookup ::
  "admission_cache \<Rightarrow> string \<Rightarrow> nat \<Rightarrow> admission_cache \<times> caller_admission option" where
  "gor_lookup c occ now =
     (case map_of (am_map (ac_inner c)) occ of
        None \<Rightarrow> (c\<lparr>ac_stats := (ac_stats c)\<lparr>as_misses := fetch_add (as_misses (ac_stats c)) 1\<rparr>\<rparr>, None)
      | Some s \<Rightarrow>
          if slot_expired s (ac_ttl c) now then
            let inner = deregister (ac_inner c) occ;
                st = adm_refresh inner
                       ((ac_stats c)\<lparr>as_evictions_ttl := fetch_add (as_evictions_ttl (ac_stats c)) 1\<rparr>)
            in (c\<lparr>ac_inner := inner, ac_stats := st\<lparr>as_misses := fetch_add (as_misses st) 1\<rparr>\<rparr>, None)
          else
            (c\<lparr>ac_stats := (ac_stats c)\<lparr>as_hits := fetch_add (as_hits (ac_stats c)) 1\<rparr>\<rparr>,
             Some (as_admission s)))"

definition gor_insert :: "admission_cache \<Rightarrow> string \<Rightarrow> caller_admission \<Rightarrow> nat \<Rightarrow> admission_cache" where
  "gor_insert c occ adm now =
     (let inner = deregister (ac_inner c) occ;
          occs = (case by_identity inner (identity_key_id adm) of None \<Rightarrow> {} | Some o' \<Rightarrow> o');
          inner' =
            inner\<lparr>by_identity := (by_identity inner)(identity_key_id adm := Some (insert occ occs)),
                  am_map := (occ, \<lparr> as_admission = adm, as_inserted_at = now \<rparr>) #
                            filter (\<lambda>(k, _). k \<noteq> occ) (am_map inner)\<rparr>
      in c\<lparr>ac_inner := inner', ac_stats := adm_refresh inner' (ac_stats c)\<rparr>)"

definition get_or_resolve ::
  "admission_cache \<Rightarrow> string \<Rightarrow> nat \<Rightarrow> 'e + caller_admission \<Rightarrow> admission_cache \<times> ('e + caller_admission)"
  where
  "get_or_resolve c occ now resolve =
     (case gor_lookup c occ now of
        (c', Some adm) \<Rightarrow> (c', Inr adm)
      | (c', None) \<Rightarrow>
          (case resolve of
             Inl e \<Rightarrow> (c', Inl e)
           | Inr adm \<Rightarrow> (gor_insert c' occ adm now, Inr adm)))"

definition invalidate_occurrence :: "admission_cache \<Rightarrow> string \<Rightarrow> admission_cache \<times> bool" where
  "invalidate_occurrence c occ =
     (if map_of (am_map (ac_inner c)) occ \<noteq> None then
        let inner = deregister (ac_inner c) occ;
            st = (ac_stats c)\<lparr>as_invalidations_chain_write :=
                    fetch_add (as_invalidations_chain_write (ac_stats c)) 1\<rparr>
        in (c\<lparr>ac_inner := inner, ac_stats := adm_refresh inner st\<rparr>, True)
      else (c, False))"

text \<open>The removal step of both loops below; the victims of a set are visited in some order.\<close>

definition deregister_present :: "admission_inner \<Rightarrow> string \<Rightarrow> admission_inner \<times> bool" where
  "deregister_present inner occ =
     (if map_of (am_map inner) occ \<noteq> None then (deregister inner occ, True) else (inner, False))"

definition member_victims :: "admission_inner \<Rightarrow> string list \<Rightarrow> string set" where
  "member_victims inner members =
     \<Union> (set (map (\<lambda>i. case by_identity inner i of None \<Rightarrow> {} | Some occs \<Rightarrow> occs) members))"

definition invalidate_members :: "admission_cache \<Rightarrow> string list \<Rightarrow> admission_cache \<times> nat" where
  "invalidate_members c members =
     (let (inner, n) = drop_keys deregister_present (ac_inner c)
                         (sorted_list_of_set (member_victims (ac_inner c) members))
      in
      if 0 < n then
        (c\<lparr>ac_inner := inner,
           ac_stats := adm_refresh inner
             ((ac_stats c)\<lparr>as_invalidations_chain_write :=
                fetch_add (as_invalidations_chain_write (ac_stats c)) n\<rparr>)\<rparr>, n)
      else (c\<lparr>ac_inner := inner\<rparr>, n))"

definition admission_sweep_expired :: "admission_cache \<Rightarrow> nat \<Rightarrow> admission_cache \<times> nat" where
  "admission_sweep_expired c now =
     (let expired = map fst (filter (\<lambda>(k, s). slot_expired s (ac_ttl c) now) (am_map (ac_inner c)));
          inner = fst (drop_keys deregister_present (ac_inner c) expired);
          n = length expired
      in
      if 0 < n then
        (c\<lparr>ac_inner := inner,
           ac_stats := adm_refresh inner
             ((ac_stats c)\<lparr>as_evictions_ttl := fetch_add (as_evictions_ttl (ac_stats c)) n\<rparr>)\<rparr>, n)
      else (c\<lparr>ac_inner := inner\<rparr>, n))"

section \<open>The reverse index is coherent\<close>

definition indexed :: "admission_inner \<Rightarrow> string \<Rightarrow> string \<Rightarrow> bool" where
  "indexed inner i occ \<longleftrightarrow> (\<exists>occs. by_identity inner i = Some occs \<and> occ \<in> occs)"

definition inner_ok :: "admission_inner \<Rightarrow> bool" where
  "inner_ok inner \<longleftrightarrow>
     distinct (map fst (am_map inner)) \<and>
     (\<forall>i occ. indexed inner i occ \<longleftrightarrow>
        (\<exists>s. map_of (am_map inner) occ = Some s \<and> identity_key_id (as_admission s) = i)) \<and>
     (\<forall>i occs. by_identity inner i = Some occs \<longrightarrow> occs \<noteq> {})"

lemma map_of_filter_key:
  "map_of (filter (\<lambda>(k, _). k \<noteq> occ) m) k = (if k = occ then None else map_of m k)"
  by (induction m) auto

lemma deregister_map: "map_of (am_map (deregister inner occ)) k = (if k = occ then None else map_of (am_map inner) k)"
  by (auto simp: deregister_def Let_def map_of_filter_key split: option.splits)

lemma deregister_distinct:
  "distinct (map fst (am_map inner)) \<Longrightarrow> distinct (map fst (am_map (deregister inner occ)))"
  by (auto simp: deregister_def Let_def distinct_map_filter split: option.splits)

lemma deregister_index:
  assumes "inner_ok inner"
  shows "indexed (deregister inner occ) i k \<longleftrightarrow> k \<noteq> occ \<and> indexed inner i k"
proof (cases "map_of (am_map inner) occ")
  case None
  have "\<not> indexed inner i occ" using assms None unfolding inner_ok_def by simp
  with None show ?thesis by (auto simp: deregister_def)
next
  case (Some s)
  have "indexed inner i occ \<Longrightarrow> i = identity_key_id (as_admission s)"
    using assms Some unfolding inner_ok_def by simp
  with Some show ?thesis by (auto simp: indexed_def deregister_def Let_def split: option.splits)
qed

lemma deregister_ok:
  assumes "inner_ok inner"
  shows "inner_ok (deregister inner occ)"
proof -
  have "\<forall>i occs. by_identity (deregister inner occ) i = Some occs \<longrightarrow> occs \<noteq> {}"
    using assms by (auto simp: inner_ok_def deregister_def Let_def split: option.splits if_splits)
  moreover have "indexed (deregister inner occ) i k \<longleftrightarrow>
      (\<exists>s. map_of (am_map (deregister inner occ)) k = Some s \<and> identity_key_id (as_admission s) = i)" for i k
    unfolding deregister_index[OF assms] deregister_map using assms unfolding inner_ok_def by auto
  ultimately show ?thesis
    using assms deregister_distinct unfolding inner_ok_def by blast
qed

interpretation admission_store: keyed_store inner_ok "\<lambda>inner. map_of (am_map inner)" deregister_present "(=)"
  by unfold_locales (auto simp: deregister_present_def deregister_ok deregister_map)

lemma gor_insert_inner_ok:
  assumes "inner_ok (ac_inner c)"
  shows "inner_ok (ac_inner (gor_insert c occ adm now))"
proof -
  define d where "d = deregister (ac_inner c) occ"
  define e where "e = ac_inner (gor_insert c occ adm now)"
  have d: "inner_ok d" and gone: "map_of (am_map d) occ = None"
    using deregister_ok[OF assms] by (simp_all add: d_def deregister_map)
  have keep: "filter (\<lambda>(k, _). k \<noteq> occ) (am_map d) = am_map d"
    using gone by (force simp: filter_id_conv map_of_eq_None_iff)
  have map_e: "am_map e = (occ, \<lparr> as_admission = adm, as_inserted_at = now \<rparr>) # am_map d"
    by (simp add: e_def gor_insert_def Let_def d_def[symmetric] keep)
  have index_e: "indexed e i k \<longleftrightarrow> i = identity_key_id adm \<and> k = occ \<or> indexed d i k" for i k
    by (auto simp: indexed_def e_def gor_insert_def Let_def d_def[symmetric] split: option.splits)
  have empty_e: "by_identity e i = Some occs \<Longrightarrow> occs \<noteq> {}" for i occs
    using d by (auto simp: inner_ok_def e_def gor_insert_def Let_def d_def[symmetric] split: if_splits)
  have "indexed e i k \<longleftrightarrow> (\<exists>s. map_of (am_map e) k = Some s \<and> identity_key_id (as_admission s) = i)" for i k
  proof (cases "k = occ")
    case True
    have "\<not> indexed d i occ" using d gone unfolding inner_ok_def by simp
    with True show ?thesis unfolding index_e map_e by auto
  next
    case False
    then show ?thesis unfolding index_e map_e using d unfolding inner_ok_def by simp
  qed
  moreover have "distinct (map fst (am_map e))"
    using d gone by (simp add: map_e inner_ok_def map_of_eq_None_iff)
  ultimately show ?thesis using empty_e unfolding inner_ok_def e_def by blast
qed

lemma gor_lookup_inner:
  "ac_inner (fst (gor_lookup c occ now)) =
     (case map_of (am_map (ac_inner c)) occ of
        Some s \<Rightarrow> if slot_expired s (ac_ttl c) now then deregister (ac_inner c) occ else ac_inner c
      | None \<Rightarrow> ac_inner c)"
  by (simp add: gor_lookup_def Let_def split: option.splits)

lemma deregister_present_fst: "fst (deregister_present inner occ) = deregister inner occ"
  by (simp add: deregister_present_def deregister_def split: option.splits)

lemma invalidate_members_inner:
  "ac_inner (fst (invalidate_members c members)) =
     fst (drop_keys deregister_present (ac_inner c)
       (sorted_list_of_set (member_victims (ac_inner c) members)))"
  by (simp add: invalidate_members_def Let_def case_prod_beta)

lemma sweep_inner:
  "ac_inner (fst (admission_sweep_expired c now)) =
     fst (drop_keys deregister_present (ac_inner c)
       (map fst (filter (\<lambda>(k, s). slot_expired s (ac_ttl c) now) (am_map (ac_inner c)))))"
  by (simp add: admission_sweep_expired_def Let_def)

lemma member_victims_iff:
  assumes "inner_ok inner"
  shows "occ \<in> member_victims inner members \<longleftrightarrow>
    (\<exists>s. map_of (am_map inner) occ = Some s \<and> identity_key_id (as_admission s) \<in> set members)"
proof -
  have "occ \<in> member_victims inner members \<longleftrightarrow>
      (\<exists>i \<in> set members. indexed inner i occ)"
    by (force simp: member_victims_def indexed_def split: option.splits)
  then show ?thesis using assms unfolding inner_ok_def by auto
qed

lemma member_victims_finite: "inner_ok inner \<Longrightarrow> finite (member_victims inner members)"
  by (rule finite_subset[of _ "fst ` set (am_map inner)"])
    (force simp: member_victims_iff dest!: map_of_SomeD)+

text \<open>A membership write invalidates exactly the admissions it affects: afterwards no cached admission
  resolves to an identity in the changed member set, every other admission is still cached, and the
  count returned is the number dropped.\<close>

theorem invalidate_members_exact:
  assumes ok: "inner_ok (ac_inner c)"
  shows "map_of (am_map (ac_inner (fst (invalidate_members c members)))) occ =
      (case map_of (am_map (ac_inner c)) occ of
         Some s \<Rightarrow> if identity_key_id (as_admission s) \<in> set members then None else Some s
       | None \<Rightarrow> None) \<and>
    snd (invalidate_members c members) =
      card {occ. \<exists>s. map_of (am_map (ac_inner c)) occ = Some s \<and>
        identity_key_id (as_admission s) \<in> set members} \<and>
    inner_ok (ac_inner (fst (invalidate_members c members)))"
proof (intro conjI)
  let ?v = "member_victims (ac_inner c) members"
  have set_v: "set (sorted_list_of_set ?v) = ?v" using member_victims_finite[OF ok] by simp
  show "map_of (am_map (ac_inner (fst (invalidate_members c members)))) occ =
      (case map_of (am_map (ac_inner c)) occ of
         Some s \<Rightarrow> if identity_key_id (as_admission s) \<in> set members then None else Some s
       | None \<Rightarrow> None)"
    unfolding invalidate_members_inner admission_store.peek_drop_keys[OF ok] set_v
    by (auto simp: member_victims_iff[OF ok] split: option.splits)
  have "sorted_wrt (\<lambda>a b. \<not> a = b) (sorted_list_of_set ?v)"
    using distinct_sorted_list_of_set[of ?v] by (simp add: distinct_sorted_wrt)
  moreover have "\<forall>k \<in> set (sorted_list_of_set ?v). map_of (am_map (ac_inner c)) k \<noteq> None"
    unfolding set_v by (auto simp: member_victims_iff[OF ok])
  ultimately have "snd (drop_keys deregister_present (ac_inner c) (sorted_list_of_set ?v)) = card ?v"
    using admission_store.drop_keys_count[OF ok, of "sorted_list_of_set ?v"] by simp
  then show "snd (invalidate_members c members) =
      card {occ. \<exists>s. map_of (am_map (ac_inner c)) occ = Some s \<and>
        identity_key_id (as_admission s) \<in> set members}"
    unfolding member_victims_iff[OF ok, symmetric] Collect_mem_eq
    by (simp add: invalidate_members_def Let_def case_prod_beta)
  show "inner_ok (ac_inner (fst (invalidate_members c members)))"
    unfolding invalidate_members_inner by (rule admission_store.drop_keys_ok[OF ok])
qed

section \<open>Every interleaving of the admission cache\<close>

datatype admission_event =
    Resolved string caller_admission nat
  | OccurrenceWritten string
  | MembersWritten "string list"

inductive admission_run :: "duration \<Rightarrow> admission_event list \<Rightarrow> admission_cache \<Rightarrow> bool" for t where
  arun_start: "admission_run t [] (with_ttl t)"
| arun_lookup: "admission_run t hist c \<Longrightarrow> admission_run t hist (fst (gor_lookup c occ now))"
| arun_insert: "admission_run t hist c \<Longrightarrow>
    admission_run t (Resolved occ adm now # hist) (gor_insert c occ adm now)"
| arun_occurrence: "admission_run t hist c \<Longrightarrow>
    admission_run t (OccurrenceWritten occ # hist) (fst (invalidate_occurrence c occ))"
| arun_members: "admission_run t hist c \<Longrightarrow>
    admission_run t (MembersWritten members # hist) (fst (invalidate_members c members))"
| arun_sweep: "admission_run t hist c \<Longrightarrow> admission_run t hist (fst (admission_sweep_expired c now))"

definition outdates :: "admission_event \<Rightarrow> string \<Rightarrow> caller_admission \<Rightarrow> bool" where
  "outdates ev occ adm \<longleftrightarrow>
     (case ev of
        Resolved o' a t \<Rightarrow> False
      | OccurrenceWritten o' \<Rightarrow> o' = occ
      | MembersWritten ids \<Rightarrow> identity_key_id adm \<in> set ids)"

definition admission_live :: "admission_event list \<Rightarrow> string \<Rightarrow> admission_slot \<Rightarrow> bool" where
  "admission_live hist occ s \<longleftrightarrow>
     (\<exists>later earlier. hist = later @ Resolved occ (as_admission s) (as_inserted_at s) # earlier \<and>
        (\<forall>ev \<in> set later. \<not> outdates ev occ (as_admission s)))"

lemma admission_live_later:
  assumes "admission_live hist occ s" "\<not> outdates ev occ (as_admission s)"
  shows "admission_live (ev # hist) occ s"
proof -
  obtain later earlier where "hist = later @ Resolved occ (as_admission s) (as_inserted_at s) # earlier"
    "\<forall>ev \<in> set later. \<not> outdates ev occ (as_admission s)"
    using assms(1) by (auto simp: admission_live_def)
  then show ?thesis
    using assms(2) unfolding admission_live_def
    by (intro exI[of _ "ev # later"] exI[of _ earlier]) auto
qed

lemma admission_live_now: "admission_live (Resolved occ a t # hist) occ \<lparr> as_admission = a, as_inserted_at = t \<rparr>"
  by (auto simp: admission_live_def intro: exI[of _ "[]"])

lemma gor_insert_map:
  "map_of (am_map (ac_inner (gor_insert c occ adm now))) k =
     (if k = occ then Some \<lparr> as_admission = adm, as_inserted_at = now \<rparr> else map_of (am_map (ac_inner c)) k)"
  by (simp add: gor_insert_def Let_def map_of_filter_key deregister_map)

lemma invalidate_occurrence_inner: "ac_inner (fst (invalidate_occurrence c occ)) = deregister (ac_inner c) occ"
  by (auto simp: invalidate_occurrence_def Let_def deregister_def)

lemma admission_ttl_const:
  "ac_ttl (fst (gor_lookup c occ now)) = ac_ttl c" "ac_ttl (gor_insert c occ adm now) = ac_ttl c"
  "ac_ttl (fst (invalidate_occurrence c occ)) = ac_ttl c" "ac_ttl (fst (invalidate_members c ids)) = ac_ttl c"
  "ac_ttl (fst (admission_sweep_expired c now)) = ac_ttl c"
  by (simp_all add: gor_lookup_def gor_insert_def invalidate_occurrence_def invalidate_members_def
      admission_sweep_expired_def Let_def case_prod_beta split: option.splits)

lemma admission_run_ok: "admission_run t hist c \<Longrightarrow> inner_ok (ac_inner c) \<and> ac_ttl c = t"
proof (induction rule: admission_run.induct)
  case arun_start
  then show ?case by (simp add: inner_ok_def indexed_def with_ttl_def)
next
  case (arun_lookup hist c occ now)
  then show ?case
    using deregister_ok by (auto simp: gor_lookup_inner admission_ttl_const split: option.splits)
next
  case (arun_members hist c members)
  then show ?case
    by (simp add: invalidate_members_inner admission_store.drop_keys_ok admission_ttl_const)
next
  case (arun_sweep hist c now)
  then show ?case
    by (simp add: sweep_inner admission_store.drop_keys_ok admission_ttl_const)
qed (simp_all add: gor_insert_inner_ok invalidate_occurrence_inner deregister_ok admission_ttl_const)

lemma admission_run_live:
  "admission_run t hist c \<Longrightarrow> map_of (am_map (ac_inner c)) occ = Some s \<Longrightarrow> admission_live hist occ s"
proof (induction arbitrary: occ s rule: admission_run.induct)
  case arun_start
  then show ?case by (simp add: with_ttl_def)
next
  case (arun_lookup hist c occ' now)
  then show ?case
    by (auto simp: gor_lookup_inner deregister_map split: option.splits if_splits)
next
  case (arun_insert hist c occ' adm now)
  then show ?case
    using admission_live_now admission_live_later
    by (fastforce simp: gor_insert_map outdates_def split: if_splits)
next
  case (arun_occurrence hist c occ')
  then show ?case
    by (intro admission_live_later)
      (auto simp: invalidate_occurrence_inner deregister_map outdates_def split: if_splits)
next
  case (arun_members hist c members)
  have ok: "inner_ok (ac_inner c)" using admission_run_ok[OF arun_members.hyps] by blast
  have "occ \<notin> member_victims (ac_inner c) members" "map_of (am_map (ac_inner c)) occ = Some s"
    using arun_members.prems member_victims_finite[OF ok]
    by (auto simp: invalidate_members_inner admission_store.peek_drop_keys[OF ok] split: if_splits)
  then show ?case
    using arun_members.IH member_victims_iff[OF ok]
    by (intro admission_live_later) (auto simp: outdates_def)
next
  case (arun_sweep hist c now)
  have ok: "inner_ok (ac_inner c)" using admission_run_ok[OF arun_sweep.hyps] by blast
  show ?case
    using arun_sweep.prems arun_sweep.IH
    by (auto simp: sweep_inner admission_store.peek_drop_keys[OF ok] split: if_splits)
qed


section \<open>Witnesses of the admission cache\<close>

definition ex_admission :: caller_admission where
  "ex_admission = \<lparr> occurrence_key_id = ''o'', identity_key_id = ''i'', family_key_ids = {},
     community_key_ids = {}, self_key_ids = {''o''} \<rparr>"

lemma ex_admission_run:
  "admission_run DEFAULT_ADMISSION_TTL [Resolved ''o'' ex_admission 5]
     (gor_insert (with_ttl DEFAULT_ADMISSION_TTL) ''o'' ex_admission 5)"
  by (rule arun_insert[OF arun_start])


theorem invalidate_members_exact_witness:
  "map_of (am_map (ac_inner (fst (invalidate_members
      (gor_insert (with_ttl DEFAULT_ADMISSION_TTL) ''o'' ex_admission 5) [''i''])))) ''o'' = None"
  using invalidate_members_exact[of "gor_insert (with_ttl DEFAULT_ADMISSION_TTL) ''o'' ex_admission 5"]
    admission_run_ok[OF ex_admission_run]
  by (simp add: gor_insert_map ex_admission_def)

end
