(* ===== verification/Reverse_Quorum_Policy.thy ===== *)
theory Reverse_Quorum_Policy
  imports Majority
begin

text \<open>
  The reverse-quorum policy (\<open>src/src/federation/reverse_quorum.rs\<close>): the protocol string a cohort declares,
  its parser and printer, the objection window, and the thresholds. Protecting is cheap (one
  objector), undoing a protection is collective (a strict majority of the roster), and the escalated
  undo has an absolute floor of three respondents.
\<close>

section \<open>The policy and its string\<close>

definition REVERSE_QUORUM_PREFIX :: string where "REVERSE_QUORUM_PREFIX = ''reverse_quorum:''"
definition ESCALATE_INFIX :: string where "ESCALATE_INFIX = ''+escalate:''"
definition ESCALATION_RESPONDENT_FLOOR :: nat where "ESCALATION_RESPONDENT_FLOOR = 3"
definition OBJECTION_THRESHOLD :: nat where "OBJECTION_THRESHOLD = 1"

record steward_tier =
  st_window_secs :: nat
  st_respondent_floor :: nat

record rq_policy =
  rq_m :: nat
  rq_n :: nat
  rq_window_secs :: nat
  rq_steward :: "steward_tier option"

fun parse_steward :: "string option \<Rightarrow> steward_tier option option" where
  "parse_steward None = Some None"
| "parse_steward (Some rest) =
     (case split_once '':'' rest of
        None \<Rightarrow> None
      | Some (secs, flr) \<Rightarrow>
          (case parse_uint u64_max secs of
             None \<Rightarrow> None
           | Some w \<Rightarrow>
               (case parse_uint usize_max flr of
                  None \<Rightarrow> None
                | Some f \<Rightarrow>
                    if f < ESCALATION_RESPONDENT_FLOOR then None
                    else Some (Some \<lparr> st_window_secs = w, st_respondent_floor = f \<rparr>))))"

definition rq_split :: "string \<Rightarrow> string \<times> string option" where
  "rq_split tail =
     (case split_once ESCALATE_INFIX tail of
        Some (base, rest) \<Rightarrow> (base, Some rest)
      | None \<Rightarrow> (tail, None))"

definition rq_parse_base :: "string \<Rightarrow> (nat \<times> nat \<times> nat) option" where
  "rq_parse_base base =
     (case split_once '':'' base of
        None \<Rightarrow> None
      | Some (quorum, window) \<Rightarrow>
          (case split_once ''/'' quorum of
             None \<Rightarrow> None
           | Some (m_s, n_s) \<Rightarrow>
               (case (parse_uint u32_max m_s, parse_uint u32_max n_s, parse_uint u64_max window) of
                  (Some m, Some n, Some w) \<Rightarrow>
                    if m = 0 \<or> n = 0 \<or> n < m then None else Some (m, n, w)
                | _ \<Rightarrow> None)))"

definition rq_parse :: "string \<Rightarrow> rq_policy option" where
  "rq_parse s =
     (case strip_prefix REVERSE_QUORUM_PREFIX s of
        None \<Rightarrow> None
      | Some tail \<Rightarrow>
          (let (base, escalate) = rq_split tail in
           case rq_parse_base base of
             None \<Rightarrow> None
           | Some (m, n, w) \<Rightarrow>
               (case parse_steward escalate of
                  None \<Rightarrow> None
                | Some steward \<Rightarrow>
                    Some \<lparr> rq_m = m, rq_n = n, rq_window_secs = w, rq_steward = steward \<rparr>)))"

definition to_protocol_string :: "rq_policy \<Rightarrow> string" where
  "to_protocol_string p =
     (let base = REVERSE_QUORUM_PREFIX @ show_nat (rq_m p) @ ''/'' @ show_nat (rq_n p) @ '':'' @
                 show_nat (rq_window_secs p)
      in
      case rq_steward p of
        None \<Rightarrow> base
      | Some tier \<Rightarrow> base @ ESCALATE_INFIX @ show_nat (st_window_secs tier) @ '':'' @
                     show_nat (st_respondent_floor tier))"

section \<open>Windows\<close>

definition add_secs :: "chrono \<Rightarrow> instant \<Rightarrow> nat \<Rightarrow> instant" where
  "add_secs C t n =
     (let secs = if int n \<le> i64_max then int n else i64_max;
          d = (case try_seconds C secs of Some d \<Rightarrow> d | None \<Rightarrow> duration_max C)
      in case checked_add_signed C t d of Some t' \<Rightarrow> t' | None \<Rightarrow> max_utc C)"

definition rq_window :: "chrono \<Rightarrow> rq_policy \<Rightarrow> instant \<Rightarrow> instant \<times> instant" where
  "rq_window C p asserted_at = (asserted_at, add_secs C asserted_at (rq_window_secs p))"

definition rq_steward_deadline :: "chrono \<Rightarrow> rq_policy \<Rightarrow> instant \<Rightarrow> instant option" where
  "rq_steward_deadline C p asserted_at =
     map_option (\<lambda>tier. add_secs C (snd (rq_window C p asserted_at)) (st_window_secs tier)) (rq_steward p)"

section \<open>Thresholds\<close>

definition reversal_threshold :: "rq_policy \<Rightarrow> nat \<Rightarrow> nat" where
  "reversal_threshold p roster_size = min (rq_m p) (max roster_size 1)"

definition dismissal_threshold :: "(nat \<Rightarrow> nat) \<Rightarrow> rq_policy \<Rightarrow> nat \<Rightarrow> nat" where
  "dismissal_threshold sm p roster_size = max (max (rq_m p) (sm roster_size)) 1"

definition steward_ruling_threshold :: "(nat \<Rightarrow> nat) \<Rightarrow> nat \<Rightarrow> nat" where
  "steward_ruling_threshold sm duty_holders = max (sm duty_holders) 1"

definition escalated_dismissal_required :: "(nat \<Rightarrow> nat) \<Rightarrow> rq_policy \<Rightarrow> nat \<Rightarrow> nat" where
  "escalated_dismissal_required sm p respondents =
     (let declared_floor = (case rq_steward p of
                              None \<Rightarrow> ESCALATION_RESPONDENT_FLOOR
                            | Some t \<Rightarrow> st_respondent_floor t)
      in max (max (dismissal_threshold sm p respondents) declared_floor) ESCALATION_RESPONDENT_FLOOR)"

definition dismissal_required :: "(nat \<Rightarrow> nat) \<Rightarrow> rq_policy \<Rightarrow> nat \<Rightarrow> bool \<Rightarrow> nat" where
  "dismissal_required sm p roster_size self_dismissal =
     (if self_dismissal then OBJECTION_THRESHOLD else dismissal_threshold sm p roster_size)"

section \<open>Parsing and printing\<close>

definition tier_wf :: "steward_tier \<Rightarrow> bool" where
  "tier_wf t \<longleftrightarrow> st_window_secs t \<le> u64_max \<and> ESCALATION_RESPONDENT_FLOOR \<le> st_respondent_floor t \<and>
     st_respondent_floor t \<le> usize_max"

definition policy_wf :: "rq_policy \<Rightarrow> bool" where
  "policy_wf p \<longleftrightarrow> 0 < rq_m p \<and> rq_m p \<le> rq_n p \<and> rq_n p \<le> u32_max \<and> rq_window_secs p \<le> u64_max \<and>
     (case rq_steward p of None \<Rightarrow> True | Some t \<Rightarrow> tier_wf t)"

lemma rq_parse_base_print:
  assumes "0 < m" "m \<le> n" "n \<le> u32_max" "w \<le> u64_max"
  shows "rq_parse_base (show_nat m @ ''/'' @ show_nat n @ '':'' @ show_nat w) = Some (m, n, w)"
proof -
  have "split_once '':'' ((show_nat m @ ''/'' @ show_nat n) @ CHR '':'' # show_nat w) =
      Some (show_nat m @ ''/'' @ show_nat n, show_nat w)"
    by (rule split_once_at_char) simp
  moreover have "split_once ''/'' (show_nat m @ CHR ''/'' # show_nat n) = Some (show_nat m, show_nat n)"
    by (rule split_once_at_char) simp
  ultimately show ?thesis
    using assms by (simp add: rq_parse_base_def parse_uint_show_nat)
qed

lemma parse_steward_print:
  "tier_wf t \<Longrightarrow>
     parse_steward (Some (show_nat (st_window_secs t) @ '':'' @ show_nat (st_respondent_floor t))) = Some (Some t)"
  by (simp add: split_once_at_char parse_uint_show_nat tier_wf_def)

lemma base_no_plus:
  "CHR ''+'' \<notin> set (show_nat m @ ''/'' @ show_nat n @ '':'' @ show_nat w)"
  by simp

lemma rq_split_print:
  "rq_split (show_nat m @ ''/'' @ show_nat n @ '':'' @ show_nat w) =
     (show_nat m @ ''/'' @ show_nat n @ '':'' @ show_nat w, None)"
  "rq_split ((show_nat m @ ''/'' @ show_nat n @ '':'' @ show_nat w) @ ESCALATE_INFIX @ rest) =
     (show_nat m @ ''/'' @ show_nat n @ '':'' @ show_nat w, Some rest)"
proof -
  have infix_hd: "ESCALATE_INFIX \<noteq> []" "hd ESCALATE_INFIX = CHR ''+''"
    by (simp_all add: ESCALATE_INFIX_def)
  show "rq_split (show_nat m @ ''/'' @ show_nat n @ '':'' @ show_nat w) =
     (show_nat m @ ''/'' @ show_nat n @ '':'' @ show_nat w, None)"
    unfolding rq_split_def
    using split_once_absent[OF infix_hd(1), unfolded infix_hd(2), OF base_no_plus, of m n w]
    by simp
  show "rq_split ((show_nat m @ ''/'' @ show_nat n @ '':'' @ show_nat w) @ ESCALATE_INFIX @ rest) =
     (show_nat m @ ''/'' @ show_nat n @ '':'' @ show_nat w, Some rest)"
    unfolding rq_split_def
    using split_once_at[OF infix_hd(1), unfolded infix_hd(2), OF base_no_plus, of m n w rest]
    by simp
qed

lemma rq_parse_to_protocol:
  assumes wf: "policy_wf p"
  shows "rq_parse (to_protocol_string p) = Some p"
proof -
  have base: "rq_parse_base (show_nat (rq_m p) @ ''/'' @ show_nat (rq_n p) @ '':'' @
      show_nat (rq_window_secs p)) = Some (rq_m p, rq_n p, rq_window_secs p)"
    using wf by (intro rq_parse_base_print) (simp_all add: policy_wf_def)
  show ?thesis
  proof (cases "rq_steward p")
    case None
    then show ?thesis
      using base rq_split_print(1) by (simp add: rq_parse_def to_protocol_string_def Let_def)
  next
    case (Some t)
    have "tier_wf t" using wf Some by (simp add: policy_wf_def)
    from parse_steward_print[OF this] show ?thesis
      using base Some rq_split_print(2)
      by (simp add: rq_parse_def to_protocol_string_def Let_def del: parse_steward.simps)
  qed
qed

text \<open>C20: The protocol string and the parsed policy determine each other: every policy within its type's widths
  prints to a string that parses back to it, and whatever parses is such a policy (so a declared
  escalation floor below three, a zero or unsatisfiable quorum and an overflowing number never parse).\<close>

theorem rq_parse_print:
  "(policy_wf p \<longrightarrow> rq_parse (to_protocol_string p) = Some p) \<and> (rq_parse s = Some q \<longrightarrow> policy_wf q)"
proof (intro conjI impI)
  assume "policy_wf p"
  then show "rq_parse (to_protocol_string p) = Some p" by (rule rq_parse_to_protocol)
next
  assume "rq_parse s = Some q"
  then show "policy_wf q"
    by (auto simp: rq_parse_def rq_parse_base_def policy_wf_def tier_wf_def Let_def
        elim!: parse_steward.elims dest: parse_uint_bound split: option.splits prod.splits if_splits)
qed

section \<open>The asymmetry of the thresholds\<close>

lemma dismissal_majority:
  assumes "strict_majority_law sm"
  shows "majority_threshold (dismissal_threshold sm p)"
  by (rule majority_threshold_mono[OF strict_majority_law_majority[OF assms]])
    (simp add: dismissal_threshold_def)

lemma escalated_majority:
  assumes "strict_majority_law sm"
  shows "majority_threshold (escalated_dismissal_required sm p)"
  by (rule majority_threshold_mono[OF dismissal_majority[OF assms, of p]])
    (simp add: escalated_dismissal_required_def Let_def)

lemma steward_ruling_majority:
  assumes "strict_majority_law sm"
  shows "majority_threshold (steward_ruling_threshold sm)"
  by (rule majority_threshold_mono[OF strict_majority_law_majority[OF assms]])
    (simp add: steward_ruling_threshold_def)

lemma escalated_floor: "3 \<le> escalated_dismissal_required sm p k"
  by (simp add: escalated_dismissal_required_def ESCALATION_RESPONDENT_FLOOR_def Let_def)

text \<open>Protecting is never dearer than undoing. For every declared policy and roster, reversing an action
  takes at least one objector and is always reachable by the whole roster; dismissing an objection
  takes at least as many voices and always more than half of the roster; and the escalated undo takes
  more than half of those who answered, at least three of them, and never fewer than the ordinary
  price over that denominator.\<close>

theorem protection_cheaper_than_undo:
  assumes sm: "strict_majority_law sm" and m: "0 < rq_m p"
  shows "1 \<le> reversal_threshold p n \<and> reversal_threshold p n \<le> max n 1 \<and>
    reversal_threshold p n \<le> dismissal_threshold sm p n \<and> n < 2 * dismissal_threshold sm p n \<and>
    3 \<le> escalated_dismissal_required sm p k \<and> k < 2 * escalated_dismissal_required sm p k \<and>
    dismissal_threshold sm p k \<le> escalated_dismissal_required sm p k"
  using m escalated_floor[of sm p k]
    majority_threshold.over_half[OF dismissal_majority[OF sm, of p], of n]
    majority_threshold.over_half[OF escalated_majority[OF sm, of p], of k]
  by (auto simp: reversal_threshold_def dismissal_threshold_def escalated_dismissal_required_def Let_def
      min_le_iff_disj le_max_iff_disj)

section \<open>Windows never shrink\<close>

lemma add_secs_later:
  assumes C: "chrono_laws C" and t: "t \<le> max_utc C"
  shows "t \<le> add_secs C t n \<and> add_secs C t n \<le> max_utc C"
proof -
  let ?secs = "if int n \<le> i64_max then int n else i64_max"
  let ?d = "case try_seconds C ?secs of Some d \<Rightarrow> d | None \<Rightarrow> duration_max C"
  have "0 \<le> ?secs" by (simp add: i64_max_def)
  then have d: "0 \<le> ?d"
    using C by (cases "try_seconds C ?secs") (fastforce simp: chrono_laws_def nanos_def)+
  show ?thesis
  proof (cases "checked_add_signed C t ?d")
    case None
    then show ?thesis using t by (simp add: add_secs_def Let_def)
  next
    case (Some t')
    then have "t' = t + ?d" "t' \<le> max_utc C" using C by (auto simp: chrono_laws_def)
    with Some d show ?thesis by (simp add: add_secs_def Let_def)
  qed
qed

lemma add_secs_exact:
  assumes "int n \<le> i64_max" "try_seconds C (int n) = Some d" "checked_add_signed C t d = Some t'"
    and "chrono_laws C"
  shows "add_secs C t n = t + nanos (int n)"
  using assms by (auto simp: add_secs_def Let_def chrono_laws_def)

text \<open>The objection window opens at the action and the stewards' deadline is never before the window's
  close, whatever the declared seconds: a window too long to represent saturates to the end of time
  and never wraps into the past.\<close>

theorem windows_ordered:
  assumes "chrono_laws C" "t \<le> max_utc C"
  shows "fst (rq_window C p t) = t \<and> t \<le> snd (rq_window C p t) \<and> snd (rq_window C p t) \<le> max_utc C \<and>
    (\<forall>d. rq_steward_deadline C p t = Some d \<longrightarrow> snd (rq_window C p t) \<le> d \<and> d \<le> max_utc C)"
  using add_secs_later[OF assms] add_secs_later[OF assms(1)]
  by (auto simp: rq_window_def rq_steward_deadline_def)

section \<open>Witnesses of the policy\<close>

definition ex_rq :: rq_policy where
  "ex_rq = \<lparr> rq_m = 2, rq_n = 9, rq_window_secs = 3600,
     rq_steward = Some \<lparr> st_window_secs = 60, st_respondent_floor = 3 \<rparr> \<rparr>"

lemma ex_rq_wf: "policy_wf ex_rq"
  by (simp add: ex_rq_def policy_wf_def tier_wf_def u32_max_def u64_max_def usize_max_def
      ESCALATION_RESPONDENT_FLOOR_def)

theorem rq_parse_print_witness: "rq_parse (to_protocol_string ex_rq) = Some ex_rq"
  using rq_parse_print[of ex_rq "to_protocol_string ex_rq" ex_rq] ex_rq_wf by simp

theorem protection_cheaper_than_undo_witness:
  "reversal_threshold ex_rq 9 \<le> dismissal_threshold (\<lambda>n. n div 2 + 1) ex_rq 9 \<and>
   3 \<le> escalated_dismissal_required (\<lambda>n. n div 2 + 1) ex_rq 1"
  using protection_cheaper_than_undo[OF strict_majority_law_doc, of ex_rq 9 1] by (simp add: ex_rq_def)

theorem windows_ordered_witness:
  "0 \<le> snd (rq_window chrono_std ex_rq 0) \<and>
   snd (rq_window chrono_std ex_rq 0) \<le> the (rq_steward_deadline chrono_std ex_rq 0)"
  using windows_ordered[OF chrono_std_laws, of 0 ex_rq]
  by (simp add: chrono_std_def rq_steward_deadline_def ex_rq_def)

end
