(* ===== verification/F64.thy ===== *)
theory F64
  imports Persist_Prelude "HOL-Library.Log_Nat"
begin

text \<open>
  The double-precision arithmetic the declared rubrics of the consensus evaluator are computed in:
  the values of an \<open>f64\<close> (a finite double is the rational it denotes; the two zeros, which the code
  cannot tell apart, are one), rounding to the nearest double with ties to even, and the operations
  the code applies: sum, product, quotient, \<open>ceil\<close>, \<open>max\<close> and the comparisons.
\<close>

datatype f64 = NaN | PInf | NInf | Fin rat

definition pow2 :: "int \<Rightarrow> rat" where
  "pow2 e = (if 0 \<le> e then 2 ^ nat e else 1 / 2 ^ nat (- e))"

text \<open>The binary exponent of a positive rational.\<close>

definition ilog2 :: "rat \<Rightarrow> int" where
  "ilog2 x =
     (let (n, d) = quotient_of x;
          k = int (floorlog 2 (nat n)) - int (floorlog 2 (nat d))
      in if pow2 k * of_int d \<le> of_int n then k else k - 1)"

definition round_half_even :: "rat \<Rightarrow> int" where
  "round_half_even r =
     (let f = \<lfloor>r\<rfloor>; d = r - of_int f in
      if d < 1 / 2 then f else if 1 / 2 < d then f + 1 else if even f then f else f + 1)"

definition f64_round :: "rat \<Rightarrow> f64" where
  "f64_round x =
     (if x = 0 then Fin 0
      else
        let e = max (- 1074) (ilog2 \<bar>x\<bar> - 52);
            y = of_int (round_half_even (x / pow2 e)) * pow2 e
        in if 2 ^ 1024 \<le> \<bar>y\<bar> then (if 0 < x then PInf else NInf) else Fin y)"

definition f64_of_nat :: "nat \<Rightarrow> f64" where
  "f64_of_nat n = f64_round (of_nat n)"

definition MIN_POSITIVE :: f64 where
  "MIN_POSITIVE = Fin (1 / 2 ^ 1022)"

fun f64_add :: "f64 \<Rightarrow> f64 \<Rightarrow> f64" where
  "f64_add (Fin x) (Fin y) = f64_round (x + y)"
| "f64_add (Fin x) b = b"
| "f64_add a (Fin y) = a"
| "f64_add PInf PInf = PInf"
| "f64_add NInf NInf = NInf"
| "f64_add _ _ = NaN"

definition f64_sum :: "f64 list \<Rightarrow> f64" where
  "f64_sum xs = foldl f64_add (Fin 0) xs"

fun f64_inf :: "bool \<Rightarrow> rat \<Rightarrow> f64" where
  "f64_inf pos y = (if y = 0 then NaN else if pos = (0 < y) then PInf else NInf)"

fun f64_mul :: "f64 \<Rightarrow> f64 \<Rightarrow> f64" where
  "f64_mul (Fin x) (Fin y) = f64_round (x * y)"
| "f64_mul PInf (Fin y) = f64_inf True y"
| "f64_mul NInf (Fin y) = f64_inf False y"
| "f64_mul (Fin x) PInf = f64_inf True x"
| "f64_mul (Fin x) NInf = f64_inf False x"
| "f64_mul PInf PInf = PInf"
| "f64_mul NInf NInf = PInf"
| "f64_mul PInf NInf = NInf"
| "f64_mul NInf PInf = NInf"
| "f64_mul _ _ = NaN"

fun f64_half :: "f64 \<Rightarrow> f64" where
  "f64_half (Fin x) = f64_round (x / 2)"
| "f64_half a = a"

fun f64_ceil :: "f64 \<Rightarrow> f64" where
  "f64_ceil (Fin x) = Fin (of_int \<lceil>x\<rceil>)"
| "f64_ceil a = a"

fun f64_le :: "f64 \<Rightarrow> f64 \<Rightarrow> bool" where
  "f64_le NaN b = False"
| "f64_le a NaN = False"
| "f64_le NInf b = True"
| "f64_le a PInf = True"
| "f64_le (Fin x) (Fin y) = (x \<le> y)"
| "f64_le _ _ = False"

definition f64_max :: "f64 \<Rightarrow> f64 \<Rightarrow> f64" where
  "f64_max a b = (if a = NaN then b else if b = NaN then a else if f64_le a b then b else a)"

fun is_finite :: "f64 \<Rightarrow> bool" where
  "is_finite (Fin x) = True"
| "is_finite _ = False"

text \<open>\<open>serde_json::Value::as_f64\<close>.\<close>

fun as_f64 :: "json \<Rightarrow> f64 option" where
  "as_f64 (JNumber (PosInt n)) = Some (f64_of_nat n)"
| "as_f64 (JNumber (NegInt i)) = Some (f64_round (of_int i))"
| "as_f64 (JNumber (Frac r)) = Some (f64_round r)"
| "as_f64 _ = None"

section \<open>Exact values\<close>

lemma round_half_even_int [simp]: "round_half_even (of_int i) = i"
  by (simp add: round_half_even_def Let_def)

lemma pow2_nonneg: "0 \<le> e \<Longrightarrow> pow2 e = of_int (2 ^ nat e)"
  by (simp add: pow2_def)

lemma pow2_pos [simp]: "0 < pow2 e"
  by (simp add: pow2_def)

lemma pow2_div_int: "e \<le> 0 \<Longrightarrow> of_int i / pow2 e = (of_int (i * 2 ^ nat (- e)) :: rat)"
  by (cases "e = 0") (simp_all add: pow2_def)

text \<open>A value that is a whole number of units in the last place is not rounded.\<close>

lemma f64_round_exact:
  assumes "x / pow2 e = of_int i" "e = max (- 1074) (ilog2 \<bar>x\<bar> - 52)" "\<bar>x\<bar> < 2 ^ 1024"
  shows "f64_round x = Fin x"
proof (cases "x = 0")
  case False
  have "of_int i * pow2 e = x" using assms(1) pow2_pos[of e] by (simp add: field_simps)
  then show ?thesis using False assms unfolding f64_round_def Let_def by (simp del: pow2_pos)
qed (simp add: f64_round_def)


lemma floorlog_53: "n < 2 ^ 53 \<Longrightarrow> floorlog 2 n \<le> 53"
  by (rule floorlog_leI) simp_all

lemma ilog2_le: "quotient_of x = (int n, int d) \<Longrightarrow> n < 2 ^ 53 \<Longrightarrow> ilog2 x \<le> 53 - int (floorlog 2 d)"
  using floorlog_53[of n] by (auto simp: ilog2_def Let_def)

lemma small_below_max: "(x::rat) < 2 ^ 53 \<Longrightarrow> x < 2 ^ 1024"
proof -
  have "(2::rat) ^ 53 \<le> 2 ^ 1024" by (rule power_increasing) simp_all
  then show "x < 2 ^ 53 \<Longrightarrow> x < 2 ^ 1024" by linarith
qed

lemma f64_of_nat_exact:
  assumes "n < 2 ^ 53"
  shows "f64_round (of_nat n) = Fin (of_nat n)"
proof -
  define e where "e = max (- 1074) (ilog2 \<bar>of_nat n\<bar> - 52)"
  have q: "quotient_of (of_nat n) = (int n, int 1)" by (simp add: of_nat_rat quotient_of_Fract normalize_def)
  have "floorlog 2 1 = 1" by (simp add: floorlog_def)
  then have "e \<le> 0" using ilog2_le[OF q assms] by (simp add: e_def)
  then have "of_nat n / pow2 e = (of_int (int n * 2 ^ nat (- e)) :: rat)" using pow2_div_int[of e "int n"] by simp
  moreover have "(of_nat n :: rat) < 2 ^ 53" using assms by (metis of_nat_less_iff of_nat_numeral of_nat_power)
  then have "\<bar>of_nat n :: rat\<bar> < 2 ^ 1024" using small_below_max[of "of_nat n"] by simp
  ultimately show ?thesis by (intro f64_round_exact[OF _ e_def])
qed

lemma f64_half_exact:
  assumes "n < 2 ^ 53"
  shows "f64_round (of_nat n / 2) = Fin (of_nat n / 2)"
proof (cases "even n")
  case True
  then obtain m where m: "n = 2 * m" by blast
  then have "f64_round (of_nat m) = Fin (of_nat m)" using assms by (intro f64_of_nat_exact) simp
  then show ?thesis by (simp add: m)
next
  case False
  define e where "e = max (- 1074) (ilog2 \<bar>of_nat n / 2\<bar> - 52)"
  have "gcd (int n) 2 = 1" using False by (simp add: coprime_iff_gcd_eq_1[symmetric])
  then have "quotient_of (Fract (int n) 2) = (int n, int 2)" by (simp add: quotient_of_Fract normalize_def Let_def)
  then have q: "quotient_of (of_nat n / 2) = (int n, int 2)"
    by (simp add: Fract_of_int_quotient)
  have "floorlog 2 2 = 2" by (simp add: floorlog_def)
  then have "e \<le> - 1" using ilog2_le[OF q assms] by (simp add: e_def)
  then have "nat (- e) = Suc (nat (- e - 1))" by simp
  then have "of_nat n / 2 / pow2 e = (of_int (int n * 2 ^ nat (- e - 1)) :: rat)"
    using pow2_div_int[of e "int n"] \<open>e \<le> - 1\<close> by (simp add: field_simps)
  moreover have "(of_nat n :: rat) < 2 ^ 53" using assms by (metis of_nat_less_iff of_nat_numeral of_nat_power)
  then have "\<bar>of_nat n / 2 :: rat\<bar> < 2 ^ 1024" using small_below_max[of "of_nat n / 2"] by simp
  ultimately show ?thesis by (intro f64_round_exact[OF _ e_def])
qed

lemma f64_count_exact: "length xs < 2 ^ 53 \<Longrightarrow> f64_sum (map (\<lambda>_. Fin 1) xs) = Fin (of_nat (length xs))"
proof (induction xs rule: rev_induct)
  case (snoc x xs)
  then have "f64_round (of_nat (Suc (length xs))) = Fin (of_nat (Suc (length xs)))"
    by (intro f64_of_nat_exact) simp
  with snoc show ?case by (simp add: f64_sum_def add.commute)
qed (simp add: f64_sum_def)

end
