(* ===== verification/Consensus.thy ===== *)
theory Consensus
  imports Reverse_Quorum_Policy F64
begin

text \<open>
  The evaluator of a group's \<open>consensus_protocol\<close> over the signers of a membership change
  (\<open>src/src/federation/consensus.rs\<close>), with the vocabulary of protocol strings of
  \<open>src/src/federation/types.rs\<close>. The evaluator and the evaluator of declared \<open>custom:\<close> expressions call each
  other, as in the code; the loop over the items of \<open>any_of\<close> and \<open>all_of\<close> is the third function of
  the recursion, which ends because a sub-protocol an expression evaluates is never a \<open>custom:\<close> form.
  A verdict keeps which of the three answers it is; the human-readable account each carries is left
  out. Declared weights are doubles.
\<close>

definition FOUNDER_ONLY :: string where "FOUNDER_ONLY = ''founder_only''"
definition UNANIMOUS :: string where "UNANIMOUS = ''unanimous''"
definition MAJORITY :: string where "MAJORITY = ''majority''"
definition QUORUM_PREFIX :: string where "QUORUM_PREFIX = ''quorum:''"
definition WEIGHTED_PREFIX :: string where "WEIGHTED_PREFIX = ''weighted:''"
definition CUSTOM_PREFIX :: string where "CUSTOM_PREFIX = ''custom:''"
definition OPEN_SELF_ADMIT :: string where "OPEN_SELF_ADMIT = ''open:self_admit''"
definition MEMBER_ROLE_FOUNDER :: string where "MEMBER_ROLE_FOUNDER = ''founder''"
definition COHORT_SUBKIND_PUBLIC :: string where "COHORT_SUBKIND_PUBLIC = ''public''"
definition RUBRIC_UNIFORM_HALF :: string where "RUBRIC_UNIFORM_HALF = ''uniform_half''"
definition MAX_CUSTOM_DEPTH :: nat where "MAX_CUSTOM_DEPTH = 8"
definition OPEN_SELF_ADMIT_REMOVAL_FLOOR :: nat where "OPEN_SELF_ADMIT_REMOVAL_FLOOR = 2"

lemmas protocol_defs = FOUNDER_ONLY_def UNANIMOUS_def MAJORITY_def QUORUM_PREFIX_def WEIGHTED_PREFIX_def
  CUSTOM_PREFIX_def OPEN_SELF_ADMIT_def REVERSE_QUORUM_PREFIX_def

definition founders_hold_authority :: "string \<Rightarrow> bool" where
  "founders_hold_authority s \<longleftrightarrow> s = FOUNDER_ONLY \<or> s = OPEN_SELF_ADMIT"

definition parse_quorum_tail :: "string \<Rightarrow> (nat \<times> nat) option" where
  "parse_quorum_tail tail =
     (case split_once ''/'' tail of
        None \<Rightarrow> None
      | Some (m, n) \<Rightarrow>
          (case (parse_uint u32_max m, parse_uint u32_max n) of
             (Some m, Some n) \<Rightarrow> if 0 < n \<and> m \<le> n then Some (m, n) else None
           | _ \<Rightarrow> None))"

definition is_canonical_form :: "string \<Rightarrow> bool" where
  "is_canonical_form s =
     (if s = FOUNDER_ONLY \<or> s = UNANIMOUS \<or> s = MAJORITY \<or> s = OPEN_SELF_ADMIT then True
      else if starts_with REVERSE_QUORUM_PREFIX s then rq_parse s \<noteq> None
      else case strip_prefix QUORUM_PREFIX s of
        Some tail \<Rightarrow>
          (case split_once ''/'' tail of
             Some (m, n) \<Rightarrow>
               (case (parse_uint u32_max m, parse_uint u32_max n) of
                  (Some m, Some n) \<Rightarrow> 0 < n \<and> m \<le> n
                | _ \<Rightarrow> False)
           | None \<Rightarrow> False)
      | None \<Rightarrow>
          (case strip_prefix WEIGHTED_PREFIX s of
             Some tail \<Rightarrow> tail \<noteq> []
           | None \<Rightarrow> (case strip_prefix CUSTOM_PREFIX s of Some tail \<Rightarrow> tail \<noteq> [] | None \<Rightarrow> False)))"

section \<open>The ballot\<close>

datatype change_direction = AddMember | RemoveMember

record seat =
  seat_key_id :: string
  seat_role :: "string option"
  node_bearing :: bool

definition is_founder :: "seat \<Rightarrow> bool" where
  "is_founder s \<longleftrightarrow> seat_role s = Some MEMBER_ROLE_FOUNDER"

record ballot =
  b_protocol :: string
  b_subkind :: "string option"
  b_policy_blob :: "json option"
  b_roster :: "seat list"
  b_signers :: "string set"
  b_direction :: change_direction
  b_subject :: "string option"

datatype verdict = Admit | Insufficient | Unevaluable

definition eligible :: "ballot \<Rightarrow> seat list" where
  "eligible b =
     (let founders_only = (b_subkind b = Some ''infrastructure'') in
      filter (\<lambda>s. \<not> founders_only \<or> (is_founder s \<and> \<not> node_bearing s)) (b_roster b))"

definition counted :: "seat list \<Rightarrow> string set \<Rightarrow> seat list" where
  "counted elig signers = filter (\<lambda>s. seat_key_id s \<in> signers) elig"

definition voices_besides :: "string option \<Rightarrow> seat list \<Rightarrow> nat" where
  "voices_besides subject seats = length (filter (\<lambda>s. Some (seat_key_id s) \<noteq> subject) seats)"

section \<open>Open admission\<close>

definition evaluate_open_self_admit :: "ballot \<Rightarrow> seat list \<Rightarrow> verdict" where
  "evaluate_open_self_admit b got =
     (if b_subkind b \<noteq> Some COHORT_SUBKIND_PUBLIC then Unevaluable
      else
        let seated = (\<lambda>k. k \<in> seat_key_id ` set (b_roster b));
            floor_rule = (if OPEN_SELF_ADMIT_REMOVAL_FLOOR \<le> voices_besides (b_subject b) got then Admit
                          else Insufficient)
        in
        if b_direction b = AddMember
        then (case b_subject b of
                Some k \<Rightarrow> if \<not> seated k then (if k \<in> b_signers b then Admit else Insufficient) else floor_rule
              | None \<Rightarrow> floor_rule)
        else floor_rule)"

section \<open>Declared rubrics\<close>

definition blob_get :: "ballot \<Rightarrow> string \<Rightarrow> string \<Rightarrow> json option" where
  "blob_get b kind name =
     Option.bind (Option.bind (b_policy_blob b) (\<lambda>pb. json_get pb kind)) (\<lambda>r. json_get r name)"

definition weight_of :: "json \<Rightarrow> f64 \<Rightarrow> seat \<Rightarrow> f64" where
  "weight_of weights deflt s =
     (case Option.bind (json_get weights (seat_key_id s)) as_f64 of
        Some w \<Rightarrow> w
      | None \<Rightarrow>
          (case Option.bind (Option.bind (seat_role s) (\<lambda>r. json_get weights (''role:'' @ r))) as_f64 of
             Some w \<Rightarrow> w
           | None \<Rightarrow> deflt))"

definition in_unit_range :: "f64 \<Rightarrow> bool" where
  "in_unit_range f \<longleftrightarrow> f64_le (Fin 0) f \<and> f64_le f (Fin 1)"

definition rubric_threshold :: "json \<Rightarrow> f64 \<Rightarrow> f64 option" where
  "rubric_threshold decl tot =
     (case (Option.bind (json_get decl ''threshold'') as_f64, Option.bind (json_get decl ''threshold_fraction'') as_f64) of
        (Some t, None) \<Rightarrow> Some t
      | (None, Some f) \<Rightarrow> if in_unit_range f then Some (f64_max (f64_mul f tot) MIN_POSITIVE) else None
      | _ \<Rightarrow> None)"

definition declared_rubric :: "ballot \<Rightarrow> seat list \<Rightarrow> string \<Rightarrow> ((seat \<Rightarrow> f64) \<times> f64) option" where
  "declared_rubric b elig rubric =
     (case blob_get b ''rubrics'' rubric of
        None \<Rightarrow> None
      | Some decl \<Rightarrow>
          let weights = (case json_get decl ''weights'' of Some w \<Rightarrow> w | None \<Rightarrow> JNull);
              deflt = (case Option.bind (json_get decl ''default_weight'') as_f64 of Some w \<Rightarrow> w | None \<Rightarrow> Fin 0);
              w = weight_of weights deflt;
              tot = f64_sum (map w elig)
          in case rubric_threshold decl tot of
               None \<Rightarrow> None
             | Some threshold \<Rightarrow>
                 if \<not> is_finite threshold \<or> f64_le threshold (Fin 0) then None else Some (w, threshold))"

definition eval_weighted :: "ballot \<Rightarrow> seat list \<Rightarrow> seat list \<Rightarrow> string \<Rightarrow> verdict" where
  "eval_weighted b elig got rubric =
     (case (if rubric = RUBRIC_UNIFORM_HALF
            then Some (\<lambda>_. Fin 1, f64_ceil (f64_half (f64_of_nat (length elig))))
            else declared_rubric b elig rubric) of
        None \<Rightarrow> Unevaluable
      | Some (w, threshold) \<Rightarrow> if f64_le threshold (f64_sum (map w got)) then Admit else Insufficient)"

section \<open>The evaluator\<close>

definition one_key :: "json \<Rightarrow> (string \<times> json) option" where
  "one_key expr = (case expr of JObject [(op, arg)] \<Rightarrow> Some (op, arg) | _ \<Rightarrow> None)"

definition nonempty_array :: "json \<Rightarrow> json list option" where
  "nonempty_array arg = (case as_array arg of Some items \<Rightarrow> if items = [] then None else Some items | None \<Rightarrow> None)"

definition self_signed_grant :: "ballot \<Rightarrow> bool" where
  "self_signed_grant b \<longleftrightarrow>
     b_direction b = AddMember \<and> (case b_subject b of None \<Rightarrow> False | Some k \<Rightarrow> b_signers b = {k})"

definition unanimous_removal :: "string \<Rightarrow> seat list \<Rightarrow> seat list \<Rightarrow> verdict" where
  "unanimous_removal removed elig got =
     (let voices = length (filter (\<lambda>s. seat_key_id s \<noteq> removed) got);
          others = length (filter (\<lambda>s. seat_key_id s \<noteq> removed) elig)
      in if voices = others \<and> 2 * voices > length elig then Admit else Insufficient)"

definition role_node :: "seat list \<Rightarrow> json \<Rightarrow> verdict" where
  "role_node got arg =
     (case (Option.bind (json_get arg ''name'') as_str, Option.bind (json_get arg ''min'') as_u64) of
        (Some name, Some mn) \<Rightarrow>
          if max mn 1 \<le> length (filter (\<lambda>s. seat_role s = Some name) got) then Admit else Insufficient
      | _ \<Rightarrow> Unevaluable)"

text \<open>The sub-protocols of an expression are never \<open>custom:\<close> forms, so the recursion ends.\<close>

lemma sub_protocols_not_custom:
  "strip_prefix CUSTOM_PREFIX FOUNDER_ONLY = None" "strip_prefix CUSTOM_PREFIX MAJORITY = None"
  "strip_prefix CUSTOM_PREFIX UNANIMOUS = None" "strip_prefix CUSTOM_PREFIX (QUORUM_PREFIX @ s) = None"
  "strip_prefix CUSTOM_PREFIX (WEIGHTED_PREFIX @ s) = None"
  by (simp_all add: protocol_defs)

definition evaluate_size :: "ballot \<Rightarrow> nat" where
  "evaluate_size b =
     (case strip_prefix CUSTOM_PREFIX (b_protocol b) of
        None \<Rightarrow> 0
      | Some i \<Rightarrow> (case blob_get b ''custom'' i of None \<Rightarrow> 0 | Some expr \<Rightarrow> size expr + 2))"

lemma one_key_size: "one_key expr = Some (op, arg) \<Longrightarrow> size arg < size expr"
  by (auto simp: one_key_def split: json.splits list.splits prod.splits)

lemma nonempty_array_size: "nonempty_array arg = Some items \<Longrightarrow> size_list size items < size arg"
  by (cases arg) (auto simp: nonempty_array_def split: if_splits)

function evaluate :: "(nat \<Rightarrow> nat) \<Rightarrow> ballot \<Rightarrow> verdict"
  and eval_expr :: "(nat \<Rightarrow> nat) \<Rightarrow> ballot \<Rightarrow> seat list \<Rightarrow> seat list \<Rightarrow> json \<Rightarrow> nat \<Rightarrow> verdict"
  and eval_items :: "(nat \<Rightarrow> nat) \<Rightarrow> ballot \<Rightarrow> seat list \<Rightarrow> seat list \<Rightarrow> bool \<Rightarrow> json list \<Rightarrow> nat \<Rightarrow> verdict"
where
  "evaluate sm b =
     (let elig = eligible b; got = counted elig (b_signers b); n = length elig; p = b_protocol b in
      if p = OPEN_SELF_ADMIT then evaluate_open_self_admit b got
      else if self_signed_grant b then Insufficient
      else if got = [] then Insufficient
      else if p = FOUNDER_ONLY then (if list_ex is_founder got then Admit else Insufficient)
      else if p = UNANIMOUS
      then (case (b_direction b, b_subject b) of
              (RemoveMember, Some removed) \<Rightarrow> unanimous_removal removed elig got
            | _ \<Rightarrow> if length got = n then Admit else Insufficient)
      else if p = MAJORITY then (if 2 * length got > n then Admit else Insufficient)
      else if starts_with REVERSE_QUORUM_PREFIX p
      then (case rq_parse p of
              None \<Rightarrow> Unevaluable
            | Some policy \<Rightarrow>
                (case b_direction b of
                   RemoveMember \<Rightarrow> Admit
                 | AddMember \<Rightarrow> if dismissal_threshold sm policy n \<le> length got then Admit else Insufficient))
      else case strip_prefix QUORUM_PREFIX p of
        Some tail \<Rightarrow>
          (case parse_quorum_tail tail of
             None \<Rightarrow> Unevaluable
           | Some (m, _) \<Rightarrow> if max m 1 \<le> length got then Admit else Insufficient)
      | None \<Rightarrow>
      (case strip_prefix WEIGHTED_PREFIX p of
        Some rubric \<Rightarrow> eval_weighted b elig got rubric
      | None \<Rightarrow>
      (case strip_prefix CUSTOM_PREFIX p of
        Some i \<Rightarrow>
          (case blob_get b ''custom'' i of
             None \<Rightarrow> Unevaluable
           | Some expr \<Rightarrow> eval_expr sm b elig got expr 0)
      | None \<Rightarrow> Unevaluable)))"
| "eval_expr sm b elig got expr depth =
     (if depth > MAX_CUSTOM_DEPTH then Unevaluable
      else case one_key expr of
        None \<Rightarrow> Unevaluable
      | Some (op, arg) \<Rightarrow>
          if op = ''any_of'' \<or> op = ''all_of''
          then (case nonempty_array arg of
                  None \<Rightarrow> Unevaluable
                | Some items \<Rightarrow> eval_items sm b elig got (op = ''any_of'') items depth)
          else if op = ''founder'' then evaluate sm (b\<lparr>b_protocol := FOUNDER_ONLY\<rparr>)
          else if op = ''majority'' then evaluate sm (b\<lparr>b_protocol := MAJORITY\<rparr>)
          else if op = ''unanimous'' then evaluate sm (b\<lparr>b_protocol := UNANIMOUS\<rparr>)
          else if op = ''quorum''
          then (case as_u64 arg of
                  Some m \<Rightarrow> evaluate sm (b\<lparr>b_protocol :=
                    QUORUM_PREFIX @ show_nat m @ ''/'' @ show_nat (max (max (length elig) m) 1)\<rparr>)
                | None \<Rightarrow> Unevaluable)
          else if op = ''weighted''
          then (case as_str arg of
                  Some r \<Rightarrow> evaluate sm (b\<lparr>b_protocol := WEIGHTED_PREFIX @ r\<rparr>)
                | None \<Rightarrow> Unevaluable)
          else if op = ''role'' then role_node got arg
          else Unevaluable)"
| "eval_items sm b elig got any [] depth = (if any then Insufficient else Admit)"
| "eval_items sm b elig got any (item # items) depth =
     (case eval_expr sm b elig got item (depth + 1) of
        Admit \<Rightarrow> if any then Admit else eval_items sm b elig got any items depth
      | Unevaluable \<Rightarrow> Unevaluable
      | Insufficient \<Rightarrow> if any then eval_items sm b elig got any items depth else Insufficient)"
  by pat_completeness auto

termination
proof (relation "measure (\<lambda>x. case x of
      Inl (sm, b) \<Rightarrow> evaluate_size b
    | Inr (Inl (sm, b, elig, got, expr, depth)) \<Rightarrow> size expr + 1
    | Inr (Inr (sm, b, elig, got, any, items, depth)) \<Rightarrow> size_list size items + 1)", goal_cases)
qed (auto simp: evaluate_size_def sub_protocols_not_custom dest!: one_key_size nonempty_array_size)

declare evaluate.simps [simp del]
declare eval_expr.simps [simp del]

definition required_signatures :: "(nat \<Rightarrow> nat) \<Rightarrow> string \<Rightarrow> nat \<Rightarrow> nat option" where
  "required_signatures sm protocol roster_size =
     (if protocol = UNANIMOUS then Some (max roster_size 1)
      else if protocol = MAJORITY then Some (roster_size div 2 + 1)
      else if starts_with REVERSE_QUORUM_PREFIX protocol
      then map_option (\<lambda>p. dismissal_threshold sm p roster_size) (rq_parse protocol)
      else case strip_prefix QUORUM_PREFIX protocol of
        Some tail \<Rightarrow> map_option (\<lambda>(m, _). max m 1) (parse_quorum_tail tail)
      | None \<Rightarrow> None)"

section \<open>What an admission rests on\<close>

lemmas evaluate_flat = evaluate.simps Let_def

lemma evaluate_voice:
  assumes "evaluate sm b = Admit" "b_protocol b \<noteq> OPEN_SELF_ADMIT"
  shows "counted (eligible b) (b_signers b) \<noteq> []" "\<not> self_signed_grant b"
  using assms by (auto simp: evaluate_flat split: if_splits)

lemma counted_member:
  "s \<in> set (counted (eligible b) (b_signers b)) \<longleftrightarrow> s \<in> set (eligible b) \<and> seat_key_id s \<in> b_signers b"
  by (auto simp: counted_def)

lemma voices_besides_pos: "0 < voices_besides k seats \<Longrightarrow> seats \<noteq> []"
  by (auto simp: voices_besides_def)

definition open_joiner :: "ballot \<Rightarrow> bool" where
  "open_joiner b \<longleftrightarrow> b_protocol b = OPEN_SELF_ADMIT \<and> b_subkind b = Some COHORT_SUBKIND_PUBLIC \<and>
     b_direction b = AddMember \<and>
     (case b_subject b of None \<Rightarrow> False
      | Some k \<Rightarrow> k \<notin> seat_key_id ` set (b_roster b) \<and> k \<in> b_signers b)"

lemma evaluate_open:
  "evaluate sm b = evaluate_open_self_admit b (counted (eligible b) (b_signers b))"
  if "b_protocol b = OPEN_SELF_ADMIT"
  using that by (simp add: evaluate_flat)

lemma open_admit_cases:
  assumes "evaluate_open_self_admit b got = Admit" "b_protocol b = OPEN_SELF_ADMIT"
  shows "open_joiner b \<or> 2 \<le> voices_besides (b_subject b) got"
  using assms
  by (auto simp: evaluate_open_self_admit_def open_joiner_def OPEN_SELF_ADMIT_REMOVAL_FLOOR_def Let_def
      split: if_splits option.splits)


section \<open>Counting forms\<close>

lemma counted_le: "length (counted elig signers) \<le> length elig"
  by (simp add: counted_def)

lemma prefix_forms:
  "starts_with REVERSE_QUORUM_PREFIX p \<Longrightarrow> p \<noteq> OPEN_SELF_ADMIT \<and> p \<noteq> FOUNDER_ONLY \<and> p \<noteq> UNANIMOUS \<and> p \<noteq> MAJORITY"
  "strip_prefix QUORUM_PREFIX p = Some t \<Longrightarrow> p \<noteq> OPEN_SELF_ADMIT \<and> p \<noteq> FOUNDER_ONLY \<and> p \<noteq> UNANIMOUS \<and> p \<noteq> MAJORITY"
  by (auto simp: protocol_defs starts_with_def)

text \<open>The count and the evaluator agree: whenever a protocol's answer is a count, a grant that names no one
  member is admitted exactly when that many eligible members signed it.\<close>

theorem required_signatures_agrees:
  assumes need: "required_signatures sm (b_protocol b) (length (eligible b)) = Some k"
    and grant: "b_direction b = AddMember" "b_subject b = None"
  shows "evaluate sm b = Admit \<longleftrightarrow> k \<le> length (counted (eligible b) (b_signers b))"
proof -
  define got where "got = counted (eligible b) (b_signers b)"
  have self: "\<not> self_signed_grant b" using grant by (simp add: self_signed_grant_def)
  have le: "length got \<le> length (eligible b)" by (simp add: got_def counted_le)
  consider "b_protocol b = UNANIMOUS" | "b_protocol b = MAJORITY"
    | "starts_with REVERSE_QUORUM_PREFIX (b_protocol b)" "b_protocol b \<noteq> UNANIMOUS" "b_protocol b \<noteq> MAJORITY"
    | t where "\<not> starts_with REVERSE_QUORUM_PREFIX (b_protocol b)" "strip_prefix QUORUM_PREFIX (b_protocol b) = Some t"
        "b_protocol b \<noteq> UNANIMOUS" "b_protocol b \<noteq> MAJORITY"
    using need by (auto simp: required_signatures_def split: if_splits option.splits)
  then have "evaluate sm b = Admit \<longleftrightarrow> k \<le> length got"
  proof cases
    case 1
    then have "k = max (length (eligible b)) 1" using need by (simp add: required_signatures_def)
    then show ?thesis using 1 self grant le
      by (auto simp: evaluate_flat got_def[symmetric] protocol_defs Suc_le_eq)
  next
    case 2
    then have "k = length (eligible b) div 2 + 1" using need by (simp add: required_signatures_def protocol_defs)
    then show ?thesis using 2 self by (auto simp: evaluate_flat got_def[symmetric] protocol_defs)
  next
    case 3
    then obtain p where "rq_parse (b_protocol b) = Some p" "k = dismissal_threshold sm p (length (eligible b))"
      using need by (auto simp: required_signatures_def)
    then show ?thesis using 3 self grant prefix_forms(1)[OF 3(1)]
      by (auto simp: evaluate_flat got_def[symmetric] dismissal_threshold_def)
  next
    case 4
    then obtain m n where "parse_quorum_tail t = Some (m, n)" "k = max m 1"
      using need by (auto simp: required_signatures_def)
    then show ?thesis using 4 self prefix_forms(2)[OF 4(2)]
      by (auto simp: evaluate_flat got_def[symmetric])
  qed
  then show ?thesis by (simp add: got_def)
qed

definition majority_form :: "string \<Rightarrow> bool" where
  "majority_form p \<longleftrightarrow> p = UNANIMOUS \<or> p = MAJORITY \<or> starts_with REVERSE_QUORUM_PREFIX p"

lemma majority_grant:
  assumes sm: "strict_majority_law sm" and form: "majority_form (b_protocol b)"
    and adm: "evaluate sm b = Admit" "b_direction b = AddMember"
  shows "length (eligible b) < 2 * length (counted (eligible b) (b_signers b))"
proof -
  have ne: "b_protocol b \<noteq> OPEN_SELF_ADMIT" "b_protocol b \<noteq> FOUNDER_ONLY"
    using form prefix_forms(1)[of "b_protocol b"] by (auto simp: majority_form_def protocol_defs)
  have voice: "counted (eligible b) (b_signers b) \<noteq> []" "\<not> self_signed_grant b"
    using evaluate_voice[OF adm(1) ne(1)] by auto
  consider "b_protocol b = UNANIMOUS" | "b_protocol b = MAJORITY"
    | "starts_with REVERSE_QUORUM_PREFIX (b_protocol b)" "b_protocol b \<noteq> UNANIMOUS" "b_protocol b \<noteq> MAJORITY"
    using form by (auto simp: majority_form_def)
  then show ?thesis
  proof cases
    case 1
    then show ?thesis using adm voice ne by (auto simp: evaluate_flat split: if_splits)
  next
    case 2
    then show ?thesis using adm voice ne by (auto simp: evaluate_flat protocol_defs split: if_splits)
  next
    case 3
    then obtain p where "dismissal_threshold sm p (length (eligible b)) \<le> length (counted (eligible b) (b_signers b))"
      using adm voice ne by (auto simp: evaluate_flat split: if_splits option.splits)
    then show ?thesis
      using majority_threshold.over_half[OF dismissal_majority[OF sm, of p], of "length (eligible b)"] by linarith
  qed
qed

lemma counted_keys:
  assumes "distinct (map seat_key_id elig)"
  shows "card (seat_key_id ` set (counted elig signers)) = length (counted elig signers)"
proof -
  have "distinct (map seat_key_id (counted elig signers))"
    using assms by (simp add: counted_def distinct_map_filter)
  then show ?thesis by (metis distinct_card length_map list.set_map)
qed

text \<open>Under the majority forms (unanimous, majority and the grants of a reverse quorum) no two grants over one
  roster are carried by disjoint groups: some eligible member signed both.\<close>

theorem grants_share_signer:
  assumes sm: "strict_majority_law sm"
    and form: "majority_form (b_protocol b)" "majority_form (b_protocol b')"
    and one: "eligible b = eligible b'" "distinct (map seat_key_id (eligible b))"
    and adm: "evaluate sm b = Admit" "evaluate sm b' = Admit"
    and grant: "b_direction b = AddMember" "b_direction b' = AddMember"
  shows "\<exists>s \<in> set (eligible b). seat_key_id s \<in> b_signers b \<and> seat_key_id s \<in> b_signers b'"
proof -
  let ?A = "seat_key_id ` set (counted (eligible b) (b_signers b))"
    and ?B = "seat_key_id ` set (counted (eligible b) (b_signers b'))" and ?R = "seat_key_id ` set (eligible b)"
  have n: "card ?R = length (eligible b)" using one(2) by (metis distinct_card length_map list.set_map)
  have "majority_threshold (\<lambda>n. n div 2 + 1)"
    by (rule strict_majority_law_majority[OF strict_majority_law_doc])
  moreover have "?A \<subseteq> ?R" "?B \<subseteq> ?R" by (auto simp: counted_def)
  moreover have "card ?R div 2 + 1 \<le> card ?A" "card ?R div 2 + 1 \<le> card ?B"
    using majority_grant[OF sm form(1) adm(1) grant(1)] majority_grant[OF sm form(2) adm(2) grant(2)]
      counted_keys[OF one(2)] n one(1) by auto
  ultimately have "?A \<inter> ?B \<noteq> {}" by (intro majority_threshold.quorums_meet[of _ ?R]) auto
  then obtain s t where "s \<in> set (counted (eligible b) (b_signers b))" "t \<in> set (counted (eligible b) (b_signers b'))"
      "seat_key_id s = seat_key_id t" by auto
  then show ?thesis by (auto simp: counted_def)
qed

section \<open>Signatures that block, and a seat that grants itself\<close>

definition ex_seat :: "string \<Rightarrow> string \<Rightarrow> seat" where
  "ex_seat k r = \<lparr> seat_key_id = k, seat_role = Some r, node_bearing = False \<rparr>"

definition ex_roster :: "seat list" where
  "ex_roster = [ex_seat ''f'' ''founder'', ex_seat ''k'' ''member'', ex_seat ''m'' ''member'']"

definition ex_ballot_of :: "string \<Rightarrow> json option \<Rightarrow> string list \<Rightarrow> string option \<Rightarrow> ballot" where
  "ex_ballot_of p blob signers subj =
     \<lparr> b_protocol = p, b_subkind = None, b_policy_blob = blob, b_roster = ex_roster,
       b_signers = set signers, b_direction = AddMember, b_subject = subj \<rparr>"

definition ex_blob :: json where
  "ex_blob = JObject [(''custom'', JObject [(''c'', JObject [(''any_of'', JArray
     [JObject [(''all_of'', JArray [JObject [(''majority'', JNull)], JObject [(''weighted'', JString ''undeclared'')]])],
      JObject [(''founder'', JNull)]])])])]"

text \<open>A declared expression is not monotone in its signatures: a change the founder's signature alone admits
  is not evaluable any more when a second member signs it too, because the majority branch is then
  met and reaches a rubric nobody declared.\<close>

theorem more_signatures_can_block:
  "evaluate (\<lambda>n. n div 2 + 1) (ex_ballot_of ''custom:c'' (Some ex_blob) [''f''] None) = Admit \<and>
   evaluate (\<lambda>n. n div 2 + 1) (ex_ballot_of ''custom:c'' (Some ex_blob) [''f'', ''k''] None) = Unevaluable"
  by code_simp

text \<open>The refusal of a self-signed grant looks at the number of signers only: a seated member whose own
  signature is refused re-roles itself under a quorum of one by adding the signature of a key that
  holds no seat.\<close>

theorem outsider_signature_lifts_self_grant:
  "evaluate (\<lambda>n. n div 2 + 1) (ex_ballot_of ''quorum:1/3'' None [''k''] (Some ''k'')) = Insufficient \<and>
   evaluate (\<lambda>n. n div 2 + 1) (ex_ballot_of ''quorum:1/3'' None [''k'', ''z''] (Some ''k'')) = Admit \<and>
   ''z'' \<notin> seat_key_id ` set (b_roster (ex_ballot_of ''quorum:1/3'' None [''k'', ''z''] (Some ''k'')))"
proof -
  have p: "strip_prefix QUORUM_PREFIX ''quorum:1/3'' = Some ''1/3''" "parse_quorum_tail ''1/3'' = Some (1, 3)"
      "\<not> starts_with REVERSE_QUORUM_PREFIX ''quorum:1/3''" "''quorum:1/3'' \<noteq> OPEN_SELF_ADMIT"
      "''quorum:1/3'' \<noteq> FOUNDER_ONLY" "''quorum:1/3'' \<noteq> UNANIMOUS" "''quorum:1/3'' \<noteq> MAJORITY"
    by (simp_all add: protocol_defs parse_quorum_tail_def parse_uint_def digit_val_def u32_max_def starts_with_def)
  have e: "eligible (ex_ballot_of q None xs (Some ''k'')) = ex_roster" for q xs
    by (simp add: eligible_def ex_ballot_of_def)
  have c: "counted ex_roster {''k''} = [ex_seat ''k'' ''member'']"
      "counted ex_roster {''k'', ''z''} = [ex_seat ''k'' ''member'']"
    by (simp_all add: counted_def ex_roster_def ex_seat_def)
  show ?thesis
    unfolding evaluate_flat e
    by (simp add: ex_ballot_of_def c p self_signed_grant_def)
      (simp add: ex_roster_def ex_seat_def)
qed

section \<open>Witnesses of the evaluator\<close>


theorem required_signatures_agrees_witness:
  "evaluate (\<lambda>n. n div 2 + 1) (ex_ballot_of MAJORITY None [''f'', ''k''] None) = Admit"
proof -
  let ?b = "ex_ballot_of MAJORITY None [''f'', ''k''] None"
  have "required_signatures (\<lambda>n. n div 2 + 1) (b_protocol ?b) (length (eligible ?b)) = Some 2" by code_simp
  moreover have "b_direction ?b = AddMember" "b_subject ?b = None" by (simp_all add: ex_ballot_of_def)
  moreover have "2 \<le> length (counted (eligible ?b) (b_signers ?b))" by code_simp
  ultimately show ?thesis using required_signatures_agrees by blast
qed

theorem grants_share_signer_witness:
  "\<exists>s \<in> set (eligible (ex_ballot_of MAJORITY None [''f'', ''k''] None)).
     seat_key_id s \<in> b_signers (ex_ballot_of MAJORITY None [''f'', ''k''] None) \<and>
     seat_key_id s \<in> b_signers (ex_ballot_of MAJORITY None [''k'', ''m''] None)"
proof (rule grants_share_signer[OF strict_majority_law_doc])
  show "evaluate (\<lambda>n. n div 2 + 1) (ex_ballot_of MAJORITY None [''f'', ''k''] None) = Admit" by code_simp
  show "evaluate (\<lambda>n. n div 2 + 1) (ex_ballot_of MAJORITY None [''k'', ''m''] None) = Admit" by code_simp
  show "distinct (map seat_key_id (eligible (ex_ballot_of MAJORITY None [''f'', ''k''] None)))" by code_simp
qed (simp_all add: majority_form_def ex_ballot_of_def eligible_def)

section \<open>The built-in rubric\<close>

text \<open>C26: The built-in rubric computes in doubles what it says over integers: on every roster below 2^53 seats it
  admits exactly when at least half of the eligible members, rounded up, signed.\<close>

theorem uniform_half_exact:
  assumes "length elig < 2 ^ 53" "length got \<le> length elig"
  shows "eval_weighted b elig got RUBRIC_UNIFORM_HALF = Admit \<longleftrightarrow> (length elig + 1) div 2 \<le> length got"
proof -
  have "f64_of_nat (length elig) = Fin (of_nat (length elig))"
    unfolding f64_of_nat_def by (rule f64_of_nat_exact[OF assms(1)])
  moreover have "f64_round (of_nat (length elig) / 2) = Fin (of_nat (length elig) / 2)"
    by (rule f64_half_exact[OF assms(1)])
  moreover have "f64_sum (map (\<lambda>_. Fin 1) got) = Fin (of_nat (length got))"
    using assms by (intro f64_count_exact) linarith
  moreover have "\<lceil>of_nat (length elig) / 2 :: rat\<rceil> = int ((length elig + 1) div 2)"
    by (cases "even (length elig)") (auto elim!: evenE oddE intro!: ceiling_unique)
  ultimately show ?thesis by (simp add: eval_weighted_def)
qed

theorem uniform_half_exact_witness:
  "eval_weighted (ex_ballot_of [] None [] None) ex_roster [ex_seat ''f'' ''founder'', ex_seat ''k'' ''member'']
     RUBRIC_UNIFORM_HALF = Admit"
  using uniform_half_exact[of ex_roster "[ex_seat ''f'' ''founder'', ex_seat ''k'' ''member'']"]
  by (simp add: ex_roster_def)

end
