(* ===== verification/Roster_Fold.thy ===== *)
theory Roster_Fold
  imports Consensus "HOL-Library.Product_Lexorder"
begin

text \<open>
  The authorized roster of a room or a family (\<open>src/src/federation/mod.rs\<close>): the standing of one roster event
  against the state before it, the replay of the stored events up to an instant, the span of each member's
  current membership, the instants at which a founder held authority, and the unsigned fold the replay
  grew out of. A \<open>BTreeMap\<close> is its sorted association list. Refusals are their rule tokens.
\<close>

section \<open>Rules and events\<close>

definition ROSTER_AUTHORITY_RULE_NOT_ESTABLISHED :: string where
  "ROSTER_AUTHORITY_RULE_NOT_ESTABLISHED = ''roster_authority_not_established''"
definition ROSTER_CONSENSUS_INSUFFICIENT :: string where
  "ROSTER_CONSENSUS_INSUFFICIENT = ''roster_consensus_insufficient''"
definition ROSTER_CONSENSUS_UNEVALUABLE :: string where
  "ROSTER_CONSENSUS_UNEVALUABLE = ''roster_consensus_unevaluable''"
definition ROSTER_LAST_FOUNDER :: string where "ROSTER_LAST_FOUNDER = ''roster_last_founder''"

lemmas roster_tokens = ROSTER_AUTHORITY_RULE_NOT_ESTABLISHED_def ROSTER_CONSENSUS_INSUFFICIENT_def
  ROSTER_CONSENSUS_UNEVALUABLE_def ROSTER_LAST_FOUNDER_def

record community_member =
  cm_key_id :: string
  cm_joined_at :: instant
  cm_role :: "string option"

type_synonym roster_state = "(string \<times> (bool \<times> community_member)) list"

type_synonym instant_interval = "instant \<times> instant option"

definition in_interval :: "instant \<Rightarrow> instant_interval \<Rightarrow> bool" where
  "in_interval t iv \<longleftrightarrow> fst iv \<le> t \<and> is_none_or (snd iv) (\<lambda>e. t < e)"

record node_bearing_seats =
  nb_own :: "string set"
  nb_occurrence :: "(string \<times> instant_interval list) list"

definition bearing_at :: "node_bearing_seats \<Rightarrow> string \<Rightarrow> instant \<Rightarrow> bool" where
  "bearing_at N k t \<longleftrightarrow>
     k \<in> nb_own N \<or>
     (case map_of (nb_occurrence N) k of None \<Rightarrow> False | Some ivs \<Rightarrow> list_ex (in_interval t) ivs)"

definition NO_NODE_BEARING_SEATS :: node_bearing_seats where
  "NO_NODE_BEARING_SEATS = \<lparr> nb_own = {}, nb_occurrence = [] \<rparr>"

record roster_rules =
  rr_protocol :: string
  rr_subkind :: "string option"
  rr_policy_blob :: "json option"
  rr_node_bearing :: node_bearing_seats

record roster_event =
  ev_effective_at :: instant
  ev_is_add :: bool
  ev_member :: community_member
  ev_signers :: "string set"
  ev_moderator_roots :: "string set"
  ev_reversed :: bool

abbreviation ev_key :: "roster_event \<Rightarrow> string" where
  "ev_key e \<equiv> cm_key_id (ev_member e)"

section \<open>Standing\<close>

definition holds_founder :: "roster_state \<Rightarrow> string \<Rightarrow> bool" where
  "holds_founder state k \<longleftrightarrow>
     (case map_of state k of Some (True, m) \<Rightarrow> cm_role m = Some MEMBER_ROLE_FOUNDER | _ \<Rightarrow> False)"

definition is_active_founder :: "roster_rules \<Rightarrow> roster_state \<Rightarrow> instant \<Rightarrow> string \<Rightarrow> bool" where
  "is_active_founder rules state t k \<longleftrightarrow> holds_founder state k \<and> \<not> bearing_at (rr_node_bearing rules) k t"

definition roster_seats :: "roster_rules \<Rightarrow> roster_state \<Rightarrow> instant \<Rightarrow> seat list" where
  "roster_seats rules state t =
     map (\<lambda>(k, active, m). \<lparr> seat_key_id = cm_key_id m, seat_role = cm_role m,
            node_bearing = bearing_at (rr_node_bearing rules) (cm_key_id m) t \<rparr>)
       (filter (\<lambda>(k, active, m). active) state)"

definition roster_ballot :: "roster_rules \<Rightarrow> roster_state \<Rightarrow> roster_event \<Rightarrow> ballot" where
  "roster_ballot rules state e =
     \<lparr> b_protocol = rr_protocol rules, b_subkind = rr_subkind rules, b_policy_blob = rr_policy_blob rules,
       b_roster = roster_seats rules state (ev_effective_at e), b_signers = ev_signers e,
       b_direction = (if ev_is_add e then AddMember else RemoveMember), b_subject = Some (ev_key e) \<rparr>"

definition standing_without_protocol :: "roster_rules \<Rightarrow> roster_event \<Rightarrow> bool" where
  "standing_without_protocol rules e \<longleftrightarrow>
     ev_signers e = {} \<or>
     (\<not> ev_is_add e \<and> ev_key e \<in> ev_signers e) \<or>
     (ev_moderator_roots e \<noteq> {} \<and> (ev_is_add e \<or> rr_protocol rules \<noteq> OPEN_SELF_ADMIT))"

definition roster_admitted :: "(nat \<Rightarrow> nat) \<Rightarrow> roster_rules \<Rightarrow> roster_state \<Rightarrow> roster_event \<Rightarrow> string + unit" where
  "roster_admitted sm rules state e =
     (if standing_without_protocol rules e then Inr ()
      else case evaluate sm (roster_ballot rules state e) of
             Admit \<Rightarrow> Inr ()
           | Unevaluable \<Rightarrow> Inl ROSTER_CONSENSUS_UNEVALUABLE
           | Insufficient \<Rightarrow>
               if \<exists>s \<in> ev_signers e. map_of state s = None
               then Inl ROSTER_AUTHORITY_RULE_NOT_ESTABLISHED
               else Inl ROSTER_CONSENSUS_INSUFFICIENT)"

definition loses_founder :: "roster_rules \<Rightarrow> roster_state \<Rightarrow> roster_event \<Rightarrow> bool" where
  "loses_founder rules state e \<longleftrightarrow>
     is_active_founder rules state (ev_effective_at e) (ev_key e) \<and>
     (\<not> ev_is_add e \<or> cm_role (ev_member e) \<noteq> Some MEMBER_ROLE_FOUNDER)"

definition last_founder_refused :: "roster_rules \<Rightarrow> roster_state \<Rightarrow> roster_event \<Rightarrow> bool" where
  "last_founder_refused rules state e \<longleftrightarrow>
     (let founders_after = length (filter (\<lambda>(k, _). k \<noteq> ev_key e \<and>
                             is_active_founder rules state (ev_effective_at e) k) state);
          others_after = length (filter (\<lambda>(k, active, m). active \<and> k \<noteq> ev_key e) state)
      in founders_after = 0 \<and> 0 < others_after)"

definition roster_event_standing ::
  "(nat \<Rightarrow> nat) \<Rightarrow> roster_rules \<Rightarrow> roster_state \<Rightarrow> roster_event \<Rightarrow> string + unit" where
  "roster_event_standing sm rules state e =
     and_then (roster_admitted sm rules state e) (\<lambda>_.
       if loses_founder rules state e \<and> last_founder_refused rules state e
       then Inl ROSTER_LAST_FOUNDER else Inr ())"

section \<open>The replay\<close>

definition event_order :: "roster_event \<Rightarrow> instant \<times> bool \<times> string" where
  "event_order e = (ev_effective_at e, \<not> ev_is_add e, ev_key e)"

definition sort_roster_events :: "roster_event list \<Rightarrow> roster_event list" where
  "sort_roster_events events = sort_key event_order events"

type_synonym roster_spans = "(string \<times> instant option) list"

definition record_state :: "community_member list \<Rightarrow> roster_state" where
  "record_state members = fold (\<lambda>m st. btree_insert (cm_key_id m) (True, m) st) members []"

definition record_spans :: "community_member list \<Rightarrow> roster_spans" where
  "record_spans members = fold (\<lambda>m sp. btree_insert (cm_key_id m) None sp) members []"

definition is_active :: "roster_state \<Rightarrow> string \<Rightarrow> bool" where
  "is_active state k \<longleftrightarrow> (case map_of state k of Some (True, _) \<Rightarrow> True | _ \<Rightarrow> False)"

definition roster_applies :: "(nat \<Rightarrow> nat) \<Rightarrow> roster_rules \<Rightarrow> roster_state \<Rightarrow> roster_event \<Rightarrow> bool" where
  "roster_applies sm rules state e \<longleftrightarrow> \<not> ev_reversed e \<and> \<not> isl (roster_event_standing sm rules state e)"

definition roster_step ::
  "(nat \<Rightarrow> nat) \<Rightarrow> roster_rules \<Rightarrow> roster_event \<Rightarrow> roster_state \<times> roster_spans \<Rightarrow> roster_state \<times> roster_spans" where
  "roster_step sm rules e st =
     (case st of (state, spans) \<Rightarrow>
        if roster_applies sm rules state e
        then (btree_insert (ev_key e) (ev_is_add e, ev_member e) state,
              if \<not> ev_is_add e then btree_remove (ev_key e) spans
              else if \<not> is_active state (ev_key e) then btree_insert (ev_key e) (Some (ev_effective_at e)) spans
              else spans)
        else (state, spans))"

definition fold_roster ::
  "(nat \<Rightarrow> nat) \<Rightarrow> community_member list \<Rightarrow> roster_rules \<Rightarrow> roster_event list \<Rightarrow> instant \<Rightarrow>
   roster_state \<times> roster_spans" where
  "fold_roster sm members rules events as_of =
     fold (roster_step sm rules) (sort_roster_events (filter (\<lambda>e. ev_effective_at e \<le> as_of) events))
       (record_state members, record_spans members)"

definition authorized_roster_state_at where
  "authorized_roster_state_at sm members rules events as_of = fst (fold_roster sm members rules events as_of)"

definition authorized_roster_spans_at where
  "authorized_roster_spans_at sm members rules events as_of = snd (fold_roster sm members rules events as_of)"

definition active_member :: "roster_state \<Rightarrow> string \<Rightarrow> community_member option" where
  "active_member state k = (case map_of state k of Some (True, m) \<Rightarrow> Some m | _ \<Rightarrow> None)"

definition roster_projection :: "community_member list \<Rightarrow> roster_state \<Rightarrow> community_member list" where
  "roster_projection members state =
     List.map_filter (\<lambda>m. active_member state (cm_key_id m)) members @
     map (snd \<circ> snd)
       (filter (\<lambda>(k, active, m). active \<and> k \<notin> cm_key_id ` set members) state)"

definition authorized_roster_at ::
  "(nat \<Rightarrow> nat) \<Rightarrow> community_member list \<Rightarrow> roster_rules \<Rightarrow> roster_event list \<Rightarrow> instant \<Rightarrow> community_member list" where
  "authorized_roster_at sm members rules events as_of =
     roster_projection members (authorized_roster_state_at sm members rules events as_of)"

section \<open>When a founder held authority\<close>

definition push_interval ::
  "string \<Rightarrow> instant_interval \<Rightarrow> (string \<times> instant_interval list) list \<Rightarrow> (string \<times> instant_interval list) list" where
  "push_interval k iv out =
     btree_insert k ((case map_of out k of None \<Rightarrow> [] | Some ivs \<Rightarrow> ivs) @ [iv]) out"

record authority_acc =
  aa_state :: roster_state
  aa_open :: "(string \<times> instant) list"
  aa_out :: "(string \<times> instant_interval list) list"

definition authority_step ::
  "(nat \<Rightarrow> nat) \<Rightarrow> roster_rules \<Rightarrow> string set \<Rightarrow> roster_event \<Rightarrow> authority_acc \<Rightarrow> authority_acc" where
  "authority_step sm rules roots e acc =
     (if \<not> roster_applies sm rules (aa_state acc) e then acc
      else
        let k = ev_key e;
            state = btree_insert k (ev_is_add e, ev_member e) (aa_state acc)
        in
        if k \<notin> roots then acc\<lparr>aa_state := state\<rparr>
        else case (map_of (aa_open acc) k, holds_founder state k) of
               (None, True) \<Rightarrow> acc\<lparr>aa_state := state, aa_open := btree_insert k (ev_effective_at e) (aa_open acc)\<rparr>
             | (Some start, False) \<Rightarrow>
                 acc\<lparr>aa_state := state, aa_open := btree_remove k (aa_open acc),
                     aa_out := push_interval k (start, Some (ev_effective_at e)) (aa_out acc)\<rparr>
             | _ \<Rightarrow> acc\<lparr>aa_state := state\<rparr>)"

definition drop_moderators :: "roster_event \<Rightarrow> roster_event" where
  "drop_moderators e = e\<lparr>ev_moderator_roots := {}\<rparr>"

definition cut_one :: "instant_interval \<Rightarrow> instant_interval \<Rightarrow> instant_interval list" where
  "cut_one c iv =
     (case (c, iv) of ((cs, ce), (s, e)) \<Rightarrow>
        filter (\<lambda>(s, e). is_none_or e (\<lambda>e. s < e))
          ((if s < cs then [(s, Some (case e of Some e \<Rightarrow> if e \<le> cs then e else cs | None \<Rightarrow> cs))] else []) @
           (case ce of None \<Rightarrow> []
            | Some ce \<Rightarrow> if is_none_or e (\<lambda>e. ce < e) then [(max s ce, e)] else [])))"

definition subtract_intervals :: "instant_interval list \<Rightarrow> instant_interval list \<Rightarrow> instant_interval list" where
  "subtract_intervals ivs cuts = fold (\<lambda>c out. concat (map (cut_one c) out)) cuts ivs"

definition cut_bearing :: "node_bearing_seats \<Rightarrow> string \<times> instant_interval list \<Rightarrow> string \<times> instant_interval list" where
  "cut_bearing N kv =
     (case kv of (k, ivs) \<Rightarrow>
        (k, if k \<in> nb_own N then []
            else case map_of (nb_occurrence N) k of
                   None \<Rightarrow> ivs
                 | Some cuts \<Rightarrow> subtract_intervals ivs cuts))"

definition root_authority_intervals ::
  "(nat \<Rightarrow> nat) \<Rightarrow> instant \<Rightarrow> community_member list \<Rightarrow> roster_rules \<Rightarrow> roster_event list \<Rightarrow> string list \<Rightarrow>
   (string \<times> instant_interval list) list" where
  "root_authority_intervals sm min_utc members rules events roots =
     (let state = record_state members;
          ordered = sort_roster_events (map drop_moderators events);
          open0 = fold (\<lambda>r m. if holds_founder state r then btree_insert r min_utc m else m) roots [];
          acc = fold (authority_step sm rules (set roots)) ordered
                  \<lparr> aa_state = state, aa_open = open0, aa_out = [] \<rparr>;
          out = fold (\<lambda>(k, start). push_interval k (start, None)) (aa_open acc) (aa_out acc)
      in map (cut_bearing (rr_node_bearing rules)) out)"

section \<open>The replay as a dated log\<close>

interpretation roster_log: replay ev_effective_at event_order "roster_step sm rules" for sm rules
  by unfold_locales (auto simp: event_order_def)

lemma fold_roster_log:
  "fold_roster sm members rules events t =
     roster_log.replay_to sm rules t events (record_state members, record_spans members)"
  by (simp add: fold_roster_def sort_roster_events_def)

lemma record_state_ok [simp]: "btree_ok (record_state members)"
  by (simp add: record_state_def)

lemma record_spans_ok [simp]: "btree_ok (record_spans members)"
  by (simp add: record_spans_def)

lemma record_lookup:
  "map_of (record_state members) = map_of (rev (map (\<lambda>m. (cm_key_id m, True, m)) members))"
  by (simp add: record_state_def btree_fold_lookup)

text \<open>Every state of a replay is a sorted map whose entries sit under their own keys.\<close>

definition state_ok :: "roster_state \<Rightarrow> bool" where
  "state_ok state \<longleftrightarrow> btree_ok state \<and> (\<forall>k a m. map_of state k = Some (a, m) \<longrightarrow> cm_key_id m = k)"

lemma state_ok_insert: "state_ok state \<Longrightarrow> state_ok (btree_insert (cm_key_id m) (a, m) state)"
  by (auto simp: state_ok_def)

lemma record_state_state_ok [simp]: "state_ok (record_state members)"
  by (auto simp: state_ok_def record_lookup dest!: map_of_SomeD)

lemma record_active: "is_active (record_state members) k \<longleftrightarrow> k \<in> cm_key_id ` set members"
proof -
  have "map_of (rev (map (\<lambda>m. (cm_key_id m, True, m)) members)) k = None \<longleftrightarrow> k \<notin> cm_key_id ` set members"
    by (auto simp: map_of_eq_None_iff image_image)
  moreover have "fst v" if "map_of (rev (map (\<lambda>m. (cm_key_id m, True, m)) members)) k = Some v" for v
    using map_of_SomeD[OF that] by auto
  ultimately show ?thesis
    by (cases "map_of (rev (map (\<lambda>m. (cm_key_id m, True, m)) members)) k") (auto simp: is_active_def record_lookup)
qed

lemma record_spans_lookup:
  "map_of (record_spans members) k = (if k \<in> cm_key_id ` set members then Some None else None)"
proof -
  have "map_of (map (\<lambda>m. (cm_key_id m, None)) xs) k = (if k \<in> cm_key_id ` set xs then Some None else None)"
    for xs :: "community_member list"
    by (induction xs) auto
  from this[of "rev members"] show ?thesis by (simp add: record_spans_def btree_fold_lookup rev_map)
qed

section \<open>Intervals\<close>

lemma in_interval_simps [simp]: "in_interval t (s, None) \<longleftrightarrow> s \<le> t" "in_interval t (s, Some e) \<longleftrightarrow> s \<le> t \<and> t < e"
  by (simp_all add: in_interval_def)

lemma cut_one_exact: "list_ex (in_interval t) (cut_one c iv) \<longleftrightarrow> in_interval t iv \<and> \<not> in_interval t c"
  by (cases c; cases iv) (auto simp: cut_one_def split: option.splits)

lemma subtract_intervals_exact:
  "list_ex (in_interval t) (subtract_intervals ivs cuts) \<longleftrightarrow>
     list_ex (in_interval t) ivs \<and> \<not> list_ex (in_interval t) cuts"
proof (induction cuts arbitrary: ivs)
  case (Cons c cuts)
  have "list_ex (in_interval t) (concat (map (cut_one c) ivs)) \<longleftrightarrow>
      list_ex (in_interval t) ivs \<and> \<not> in_interval t c"
    using cut_one_exact[of t c] by (induction ivs) auto
  with Cons.IH[of "concat (map (cut_one c) ivs)"] show ?case by (auto simp: subtract_intervals_def)
qed (simp add: subtract_intervals_def)

section \<open>The authority of a founder, instant by instant\<close>

definition state_step :: "(nat \<Rightarrow> nat) \<Rightarrow> roster_rules \<Rightarrow> roster_event \<Rightarrow> roster_state \<Rightarrow> roster_state" where
  "state_step sm rules e state =
     (if roster_applies sm rules state e then btree_insert (ev_key e) (ev_is_add e, ev_member e) state else state)"

lemma roster_step_state: "fst (roster_step sm rules e st) = state_step sm rules e (fst st)"
  by (cases st) (simp add: roster_step_def state_step_def)

lemma fold_roster_step_state: "fst (fold (roster_step sm rules) es st) = fold (state_step sm rules) es (fst st)"
  by (induction es arbitrary: st) (simp_all add: roster_step_state)

lemma state_step_ok [simp]: "btree_ok state \<Longrightarrow> btree_ok (state_step sm rules e state)"
  by (simp add: state_step_def)

lemma fold_state_step_ok [simp]: "btree_ok state \<Longrightarrow> btree_ok (fold (state_step sm rules) es state)"
  by (induction es arbitrary: state) simp_all

lemma state_step_state_ok [simp]: "state_ok state \<Longrightarrow> state_ok (state_step sm rules e state)"
  by (auto simp: state_step_def intro: state_ok_insert)

lemma fold_state_step_state_ok [simp]: "state_ok state \<Longrightarrow> state_ok (fold (state_step sm rules) es state)"
  by (induction es arbitrary: state) simp_all

lemma authorized_state_fold:
  "authorized_roster_state_at sm members rules events t =
     fold (state_step sm rules) (roster_log.ordered_to t events) (record_state members)"
  by (simp add: authorized_roster_state_at_def fold_roster_log fold_roster_step_state)

lemma holds_founder_insert:
  "btree_ok state \<Longrightarrow> holds_founder (btree_insert k' (a, m) state) k \<longleftrightarrow>
     (if k = k' then a \<and> cm_role m = Some MEMBER_ROLE_FOUNDER else holds_founder state k)"
  by (cases a) (auto simp: holds_founder_def)

definition authority_at :: "(string \<times> instant_interval list) list \<Rightarrow> string \<Rightarrow> instant \<Rightarrow> bool" where
  "authority_at out k t \<longleftrightarrow> (case map_of out k of None \<Rightarrow> False | Some ivs \<Rightarrow> list_ex (in_interval t) ivs)"

definition covers :: "authority_acc \<Rightarrow> string \<Rightarrow> instant \<Rightarrow> bool" where
  "covers acc k t \<longleftrightarrow> authority_at (aa_out acc) k t \<or>
     (case map_of (aa_open acc) k of None \<Rightarrow> False | Some start \<Rightarrow> start \<le> t)"

definition acc_ok :: "instant \<Rightarrow> string set \<Rightarrow> instant set \<Rightarrow> authority_acc \<Rightarrow> bool" where
  "acc_ok min_utc roots T acc \<longleftrightarrow>
     btree_ok (aa_state acc) \<and> btree_ok (aa_open acc) \<and> btree_ok (aa_out acc) \<and>
     (\<forall>k \<in> roots. map_of (aa_open acc) k \<noteq> None \<longleftrightarrow> holds_founder (aa_state acc) k) \<and>
     (\<forall>k start. map_of (aa_open acc) k = Some start \<longrightarrow> start \<in> insert min_utc T) \<and>
     (\<forall>k ivs. map_of (aa_out acc) k = Some ivs \<longrightarrow> (\<forall>iv \<in> set ivs. \<exists>e \<in> T. snd iv = Some e))"

lemma push_interval_ok [simp]: "btree_ok out \<Longrightarrow> btree_ok (push_interval k iv out)"
  by (simp add: push_interval_def)

lemma authority_at_push:
  "btree_ok out \<Longrightarrow> authority_at (push_interval k' iv out) k t \<longleftrightarrow> authority_at out k t \<or> (k = k' \<and> in_interval t iv)"
  by (auto simp: authority_at_def push_interval_def split: option.splits)

lemma authority_step_cases:
  obtains (same) state where "authority_step sm rules roots e acc = acc\<lparr>aa_state := state\<rparr>"
    | (opens) state where "map_of (aa_open acc) (ev_key e) = None"
        "authority_step sm rules roots e acc =
           acc\<lparr>aa_state := state, aa_open := btree_insert (ev_key e) (ev_effective_at e) (aa_open acc)\<rparr>"
    | (closes) state start where "map_of (aa_open acc) (ev_key e) = Some start"
        "authority_step sm rules roots e acc =
           acc\<lparr>aa_state := state, aa_open := btree_remove (ev_key e) (aa_open acc),
               aa_out := push_interval (ev_key e) (start, Some (ev_effective_at e)) (aa_out acc)\<rparr>"
proof (cases "roster_applies sm rules (aa_state acc) e \<and> ev_key e \<in> roots")
  case True
  let ?f = "holds_founder (btree_insert (ev_key e) (ev_is_add e, ev_member e) (aa_state acc)) (ev_key e)"
  from True show ?thesis
    by (cases "map_of (aa_open acc) (ev_key e)"; cases ?f)
      (simp_all add: authority_step_def Let_def same opens closes)
next
  case False
  then consider "\<not> roster_applies sm rules (aa_state acc) e" | "ev_key e \<notin> roots" by blast
  then show ?thesis
    by cases (cases "roster_applies sm rules (aa_state acc) e",
      auto simp: authority_step_def Let_def intro: same same[of "aa_state acc"])+
qed

lemma authority_step_state: "aa_state (authority_step sm rules roots e acc) = state_step sm rules e (aa_state acc)"
  by (auto simp: authority_step_def state_step_def Let_def split: option.splits bool.splits)

lemma authority_step_link:
  assumes "btree_ok (aa_state acc)" "btree_ok (aa_open acc)" "k \<in> roots"
    and link: "map_of (aa_open acc) k \<noteq> None \<longleftrightarrow> holds_founder (aa_state acc) k"
  shows "map_of (aa_open (authority_step sm rules roots e acc)) k \<noteq> None \<longleftrightarrow>
         holds_founder (aa_state (authority_step sm rules roots e acc)) k"
proof (cases "roster_applies sm rules (aa_state acc) e \<and> ev_key e \<in> roots")
  case True
  let ?state = "btree_insert (ev_key e) (ev_is_add e, ev_member e) (aa_state acc)"
  have other: "holds_founder ?state k \<longleftrightarrow> holds_founder (aa_state acc) k" if "k \<noteq> ev_key e"
    using assms(1) that by (simp add: holds_founder_insert)
  show ?thesis
    using True link other assms(1,2)
    by (cases "k = ev_key e"; cases "map_of (aa_open acc) (ev_key e)"; cases "holds_founder ?state (ev_key e)")
      (simp_all add: authority_step_def Let_def)
next
  case False
  then show ?thesis using assms by (auto simp: authority_step_def Let_def holds_founder_insert)
qed

lemma acc_ok_step:
  assumes "acc_ok min_utc roots T acc"
  shows "acc_ok min_utc roots (insert (ev_effective_at e) T) (authority_step sm rules roots e acc)"
proof -
  let ?acc = "authority_step sm rules roots e acc" and ?T = "insert (ev_effective_at e) T"
  note ok = assms[unfolded acc_ok_def]
  from authority_step_cases[of sm rules roots e acc]
  have "btree_ok (aa_open ?acc) \<and> btree_ok (aa_out ?acc) \<and>
      (\<forall>k start. map_of (aa_open ?acc) k = Some start \<longrightarrow> start \<in> insert min_utc ?T) \<and>
      (\<forall>k ivs. map_of (aa_out ?acc) k = Some ivs \<longrightarrow> (\<forall>iv \<in> set ivs. \<exists>e \<in> ?T. snd iv = Some e))"
  proof cases
    case (same state)
    with ok show ?thesis by (simp; blast)
  next
    case (opens state)
    with ok show ?thesis by (simp; blast)
  next
    case (closes state start)
    have "\<exists>u \<in> ?T. snd iv = Some u"
      if "map_of (push_interval (ev_key e) (start, Some (ev_effective_at e)) (aa_out acc)) k = Some ivs" "iv \<in> set ivs"
      for k ivs iv
      using that ok
      by (cases "map_of (aa_out acc) (ev_key e)") (auto simp: push_interval_def split: if_splits, force+)
    with closes ok show ?thesis by (simp; blast)
  qed
  then show ?thesis
    using ok authority_step_link[of acc _ roots sm rules e] unfolding acc_ok_def
    by (simp add: authority_step_state)
qed

lemma covers_before:
  assumes "acc_ok min_utc roots T acc" "t < ev_effective_at e"
  shows "covers (authority_step sm rules roots e acc) k t \<longleftrightarrow> covers acc k t"
  using authority_step_cases[of sm rules roots e acc]
proof cases
  case (opens state)
  then show ?thesis using assms by (auto simp: covers_def acc_ok_def)
next
  case (closes state start)
  then show ?thesis using assms by (auto simp: covers_def acc_ok_def authority_at_push)
qed (simp add: covers_def)

lemma covers_now:
  assumes "acc_ok min_utc roots T acc" "min_utc \<le> t" "\<forall>u \<in> T. u \<le> t" "k \<in> roots"
  shows "covers acc k t \<longleftrightarrow> holds_founder (aa_state acc) k"
proof -
  have "\<not> authority_at (aa_out acc) k t"
  proof
    assume "authority_at (aa_out acc) k t"
    then obtain ivs iv where iv: "map_of (aa_out acc) k = Some ivs" "iv \<in> set ivs" "in_interval t iv"
      by (auto simp: authority_at_def list_ex_iff split: option.splits)
    then obtain u where "u \<in> T" "snd iv = Some u" using assms(1) unfolding acc_ok_def by blast
    with iv(3) assms(3) show False by (auto simp: in_interval_def)
  qed
  moreover have "start \<le> t" if "map_of (aa_open acc) k = Some start" for start
    using assms(1-3) that unfolding acc_ok_def by blast
  moreover have "map_of (aa_open acc) k \<noteq> None \<longleftrightarrow> holds_founder (aa_state acc) k"
    using assms(1,4) unfolding acc_ok_def by blast
  ultimately show ?thesis by (auto simp: covers_def split: option.splits)
qed

lemma authority_steps:
  assumes "acc_ok min_utc roots {} acc" "sorted (map ev_effective_at es)"
    and "acc' = fold (authority_step sm rules roots) es acc"
  shows "acc_ok min_utc roots (ev_effective_at ` set es) acc' \<and>
    (min_utc \<le> t \<longrightarrow> k \<in> roots \<longrightarrow>
       (covers acc' k t \<longleftrightarrow>
          holds_founder (fold (state_step sm rules) (filter (\<lambda>e. ev_effective_at e \<le> t) es) (aa_state acc)) k)) \<and>
    aa_state acc' = fold (state_step sm rules) es (aa_state acc)"
  using assms(2) unfolding assms(3)
proof (induction es rule: rev_induct)
  case Nil
  then show ?case using assms(1) covers_now[OF assms(1), of t k] by simp
next
  case (snoc e es)
  let ?acc = "fold (authority_step sm rules roots) es acc" and ?T = "ev_effective_at ` set es"
  have ok: "acc_ok min_utc roots ?T ?acc" and srt: "sorted (map ev_effective_at es)"
    and last: "\<forall>u \<in> ?T. u \<le> ev_effective_at e"
    using snoc by (auto simp: sorted_append)
  have ok': "acc_ok min_utc roots (insert (ev_effective_at e) ?T) (authority_step sm rules roots e ?acc)"
    by (rule acc_ok_step[OF ok])
  have st: "aa_state (authority_step sm rules roots e ?acc) = fold (state_step sm rules) (es @ [e]) (aa_state acc)"
    using snoc.IH[OF srt] by (simp add: authority_step_state)
  show ?case
  proof (cases "t < ev_effective_at e")
    case True
    with covers_before[OF ok True] snoc.IH[OF srt] ok' st show ?thesis by auto
  next
    case False
    with last have all: "filter (\<lambda>e. ev_effective_at e \<le> t) (es @ [e]) = es @ [e]"
      by (auto simp: filter_id_conv)
    from False last have "\<forall>u \<in> insert (ev_effective_at e) ?T. u \<le> t" by auto
    from covers_now[OF ok' _ this] ok' st show ?thesis unfolding all by auto
  qed
qed

lemma open_at_first:
  "btree_ok m \<Longrightarrow> btree_ok (fold (\<lambda>r m. if P r then btree_insert r v m else m) roots m) \<and>
     map_of (fold (\<lambda>r m. if P r then btree_insert r v m else m) roots m) k =
       (if k \<in> set roots \<and> P k then Some v else map_of m k)"
  by (induction roots arbitrary: m) auto

lemma authority_at_close:
  "btree_ok out \<Longrightarrow>
     authority_at (fold (\<lambda>(k, start). push_interval k (start, None)) xs out) k t \<longleftrightarrow>
       authority_at out k t \<or> (\<exists>start. (k, start) \<in> set xs \<and> start \<le> t)"
  by (induction xs arbitrary: out) (auto simp: authority_at_push)

lemma authority_at_cut:
  "authority_at (map (cut_bearing N) out) k t \<longleftrightarrow> authority_at out k t \<and> \<not> bearing_at N k t"
proof (induction out)
  case (Cons kv out)
  then show ?case
    by (cases kv; cases "map_of (nb_occurrence N) k")
      (auto simp: authority_at_def cut_bearing_def bearing_at_def subtract_intervals_exact)
qed (simp add: authority_at_def)

text \<open>C5: The authority intervals of a founder are exact. At every instant the intervals computed for a candidate
  root contain that instant precisely when the roster replayed to that instant (with no moderator's standing
  used) has the root as an active founder that does not bear \<open>node\<close> then.\<close>

theorem authority_intervals_exact:
  assumes "min_utc \<le> t" "k \<in> set roots"
  shows "authority_at (root_authority_intervals sm min_utc members rules events roots) k t \<longleftrightarrow>
    is_active_founder rules (authorized_roster_state_at sm members rules (map drop_moderators events) t) t k"
proof -
  let ?s0 = "record_state members" and ?es = "sort_roster_events (map drop_moderators events)"
  let ?open0 = "fold (\<lambda>r m. if holds_founder ?s0 r then btree_insert r min_utc m else m) roots []"
  define acc0 where "acc0 = \<lparr> aa_state = ?s0, aa_open = ?open0, aa_out = [] \<rparr>"
  define acc where "acc = fold (authority_step sm rules (set roots)) ?es acc0"
  have "acc_ok min_utc (set roots) {} acc0"
    using open_at_first[of "[]" "holds_founder ?s0" min_utc roots] by (auto simp: acc_ok_def acc0_def)
  moreover have "sorted (map ev_effective_at ?es)"
    unfolding sort_roster_events_def by (rule roster_log.ordered_instants)
  ultimately have run: "acc_ok min_utc (set roots) (ev_effective_at ` set ?es) acc"
    "covers acc k t \<longleftrightarrow> holds_founder (fold (state_step sm rules) (filter (\<lambda>e. ev_effective_at e \<le> t) ?es) ?s0) k"
    using authority_steps[of min_utc "set roots" acc0 ?es acc sm rules t k] assms by (auto simp: acc_def acc0_def)
  have "filter (\<lambda>e. ev_effective_at e \<le> t) ?es = roster_log.ordered_to t (map drop_moderators events)"
    by (simp add: sort_roster_events_def filter_sort)
  moreover have "authority_at (fold (\<lambda>(k, start). push_interval k (start, None)) (aa_open acc) (aa_out acc)) k t \<longleftrightarrow>
      covers acc k t"
    using run(1) btree_in_set_iff[of "aa_open acc" k]
    by (auto simp: acc_ok_def authority_at_close covers_def split: option.splits)
  ultimately show ?thesis
    using run(2)
    by (simp add: root_authority_intervals_def Let_def authority_at_cut is_active_founder_def
        authorized_state_fold flip: acc0_def acc_def)
qed

section \<open>Convergence\<close>

text \<open>C3: Nodes that received the same roster rows in different orders agree on the roster, the spans and the
  listing at every instant. The store keys a row by its member, its kind and its instant, so no two rows tie.\<close>

theorem roster_converges:
  assumes rows: "mset events = mset events'"
    and keys: "distinct (map (\<lambda>e. (ev_key e, ev_is_add e, ev_effective_at e)) events)"
  shows "fold_roster sm members rules events t = fold_roster sm members rules events' t \<and>
    authorized_roster_at sm members rules events t = authorized_roster_at sm members rules events' t"
proof -
  have "distinct (map event_order events)" using keys by (auto simp: distinct_map inj_on_def event_order_def)
  from roster_log.replay_perm[OF rows this, of t] show ?thesis
    by (simp add: fold_roster_log authorized_roster_at_def authorized_roster_state_at_def)
qed

section \<open>Who may enter\<close>

lemma roster_applies_cases:
  assumes "roster_applies sm rules state e"
  shows "standing_without_protocol rules e \<or> evaluate sm (roster_ballot rules state e) = Admit"
    and "loses_founder rules state e \<Longrightarrow> \<not> last_founder_refused rules state e"
  using assms
  by (auto simp: roster_applies_def roster_event_standing_def roster_admitted_def split: if_splits verdict.splits)

lemma roster_seat_active:
  assumes "state_ok state" "s \<in> set (roster_seats rules state t)"
  shows "is_active state (seat_key_id s)"
proof -
  from assms(2) obtain k m where m: "(k, True, m) \<in> set state" "seat_key_id s = cm_key_id m"
    by (auto simp: roster_seats_def)
  then have "map_of state k = Some (True, m)" using assms(1) by (simp add: state_ok_def btree_in_set_iff)
  with m(2) assms(1) show ?thesis by (auto simp: state_ok_def is_active_def)
qed

lemma admitted_voice:
  assumes "state_ok state" "evaluate sm (roster_ballot rules state e) = Admit" "rr_protocol rules \<noteq> OPEN_SELF_ADMIT"
  obtains s where "s \<in> ev_signers e" "is_active state s"
proof -
  have "counted (eligible (roster_ballot rules state e)) (ev_signers e) \<noteq> []"
    using evaluate_voice(1)[OF assms(2)] assms(3) by (simp add: roster_ballot_def)
  then obtain s where "s \<in> set (eligible (roster_ballot rules state e))" "seat_key_id s \<in> ev_signers e"
    by (auto simp: counted_def filter_empty_conv)
  moreover from this have "s \<in> set (roster_seats rules state (ev_effective_at e))"
    by (auto simp: eligible_def roster_ballot_def Let_def)
  ultimately show thesis using that roster_seat_active[OF assms(1)] by blast
qed

text \<open>A key is vouched for when it is on the record, or an addition of it carries the signature of a key that
  is.\<close>

inductive vouched :: "string set \<Rightarrow> roster_event set \<Rightarrow> string \<Rightarrow> bool" for R E where
  on_record: "k \<in> R \<Longrightarrow> vouched R E k"
| endorsed: "\<lbrakk>e \<in> E; ev_is_add e; s \<in> ev_signers e; vouched R E s\<rbrakk> \<Longrightarrow> vouched R E (ev_key e)"

inductive_cases vouchedE: "vouched R E k"

lemma is_active_insert:
  "btree_ok state \<Longrightarrow> is_active (btree_insert k' (a, m) state) k \<longleftrightarrow> (if k = k' then a else is_active state k)"
  by (cases a) (auto simp: is_active_def)

lemma is_active_state_step:
  "btree_ok state \<Longrightarrow> is_active (state_step sm rules e state) k \<longleftrightarrow>
     (if roster_applies sm rules state e \<and> k = ev_key e then ev_is_add e else is_active state k)"
  by (simp add: state_step_def is_active_insert)

lemma vouched_step:
  assumes "state_ok state" "\<forall>k. is_active state k \<longrightarrow> vouched R E k" "rr_protocol rules \<noteq> OPEN_SELF_ADMIT"
    and "e \<in> E" "ev_is_add e \<Longrightarrow> ev_signers e \<noteq> {} \<and> ev_moderator_roots e = {}"
    and "is_active (state_step sm rules e state) k"
  shows "vouched R E k"
proof (cases "roster_applies sm rules state e \<and> k = ev_key e \<and> ev_is_add e")
  case True
  then have "evaluate sm (roster_ballot rules state e) = Admit"
    using roster_applies_cases(1)[of sm rules state e] assms(5) by (auto simp: standing_without_protocol_def)
  then obtain s where "s \<in> ev_signers e" "is_active state s" by (rule admitted_voice[OF assms(1) _ assms(3)])
  with True assms(2,4) show ?thesis by (auto intro: endorsed)
next
  case False
  with assms(1,2,6) show ?thesis by (auto simp: is_active_state_step state_ok_def split: if_splits)
qed


section \<open>The last founder\<close>

lemma founder_step:
  assumes "btree_ok state" "holds_founder state f" "\<forall>k u. \<not> bearing_at (rr_node_bearing rules) k u"
    and two: "is_active (state_step sm rules e state) a" "is_active (state_step sm rules e state) b" "a \<noteq> b"
  shows "\<exists>k. holds_founder (state_step sm rules e state) k"
proof (cases "roster_applies sm rules state e \<and> loses_founder rules state e")
  case True
  then have keeps: "\<not> last_founder_refused rules state e" using roster_applies_cases(2) by blast
  have "\<exists>c. is_active state c \<and> c \<noteq> ev_key e"
    using two True assms(1) by (metis is_active_state_step)
  then obtain c m where "(c, True, m) \<in> set state" "c \<noteq> ev_key e"
    using assms(1) by (auto simp: is_active_def btree_in_set_iff split: option.splits bool.splits)
  then have "filter (\<lambda>(k, active, m). active \<and> k \<noteq> ev_key e) state \<noteq> []" by (force simp: filter_empty_conv)
  with keeps have "filter (\<lambda>(k, _). k \<noteq> ev_key e \<and> is_active_founder rules state (ev_effective_at e) k) state \<noteq> []"
    by (auto simp: last_founder_refused_def Let_def)
  then obtain k where "k \<noteq> ev_key e" "holds_founder state k"
    by (auto simp: filter_empty_conv is_active_founder_def)
  with assms(1) True show ?thesis by (auto simp: state_step_def holds_founder_insert)
next
  case False
  have "is_active_founder rules state (ev_effective_at e) f" using assms(2,3) by (simp add: is_active_founder_def)
  with False assms(1,2) show ?thesis
    by (cases "f = ev_key e") (auto simp: state_step_def holds_founder_insert loses_founder_def)
qed


section \<open>Spans\<close>

definition span_of :: "(nat \<Rightarrow> nat) \<Rightarrow> roster_rules \<Rightarrow> roster_state \<Rightarrow> roster_event list \<Rightarrow> string \<Rightarrow> instant option \<Rightarrow> bool" where
  "span_of sm rules s0 es k start \<longleftrightarrow>
     (case start of
        None \<Rightarrow> \<forall>pre post. es = pre @ post \<longrightarrow> is_active (fold (state_step sm rules) pre s0) k
      | Some t0 \<Rightarrow>
          \<exists>pre e post. es = pre @ e # post \<and> ev_is_add e \<and> ev_key e = k \<and> ev_effective_at e = t0 \<and>
            \<not> is_active (fold (state_step sm rules) pre s0) k \<and>
            (\<forall>mid rest. post = mid @ rest \<longrightarrow> is_active (fold (state_step sm rules) (pre @ e # mid) s0) k))"

lemma span_of_active: "span_of sm rules s0 es k start \<Longrightarrow> is_active (fold (state_step sm rules) es s0) k"
  unfolding span_of_def by (cases start) fastforce+

lemma span_of_extend:
  assumes "span_of sm rules s0 es k start" "is_active (fold (state_step sm rules) (es @ [e]) s0) k"
  shows "span_of sm rules s0 (es @ [e]) k start"
proof (cases start)
  case None
  have "is_active (fold (state_step sm rules) pre s0) k" if "es @ [e] = pre @ post" for pre post
  proof (cases post rule: rev_cases)
    case Nil
    with that assms(2) show ?thesis by simp
  next
    case (snoc post' x)
    with that None assms(1) show ?thesis by (auto simp: span_of_def)
  qed
  with None show ?thesis by (auto simp: span_of_def)
next
  case (Some t0)
  with assms(1) obtain pre a post where es: "es = pre @ a # post" "ev_is_add a" "ev_key a = k" "ev_effective_at a = t0"
      "\<not> is_active (fold (state_step sm rules) pre s0) k"
    and mid: "\<And>mid rest. post = mid @ rest \<Longrightarrow> is_active (fold (state_step sm rules) (pre @ a # mid) s0) k"
    by (auto simp: span_of_def)
  have "is_active (fold (state_step sm rules) (pre @ a # mid) s0) k" if "post @ [e] = mid @ rest" for mid rest
  proof (cases rest rule: rev_cases)
    case Nil
    with that es(1) assms(2) show ?thesis by simp
  next
    case (snoc rest' x)
    with that mid[of mid rest'] show ?thesis by simp
  qed
  with es show ?thesis
    unfolding span_of_def Some option.case by (intro exI[of _ pre] exI[of _ a] exI[of _ "post @ [e]"]) simp
qed

lemma spans_invariant:
  fixes sm rules members es
  defines "st \<equiv> fold (roster_step sm rules) es (record_state members, record_spans members)"
  shows "btree_ok (snd st) \<and>
    (map_of (snd st) k = None \<longleftrightarrow> \<not> is_active (fst st) k) \<and>
    (\<forall>start. map_of (snd st) k = Some start \<longrightarrow> span_of sm rules (record_state members) es k start)"
  unfolding st_def
proof (induction es rule: rev_induct)
  case Nil
  show ?case by (auto simp: record_spans_lookup record_active span_of_def)
next
  case (snoc e es)
  let ?s0 = "record_state members"
  obtain state spans where st: "fold (roster_step sm rules) es (?s0, record_spans members) = (state, spans)"
    by (cases "fold (roster_step sm rules) es (?s0, record_spans members)")
  have state: "state = fold (state_step sm rules) es ?s0"
    using fold_roster_step_state[of sm rules es "(?s0, record_spans members)"] by (simp add: st)
  have ok: "btree_ok state" by (simp add: state)
  have after: "fold (state_step sm rules) (es @ [e]) ?s0 = state_step sm rules e state" by (simp add: state)
  from snoc.IH have IH: "btree_ok spans" "map_of spans k = None \<longleftrightarrow> \<not> is_active state k"
    "\<And>start. map_of spans k = Some start \<Longrightarrow> span_of sm rules ?s0 es k start"
    by (simp_all add: st)
  have keep: "span_of sm rules ?s0 (es @ [e]) k start"
    if "map_of spans k = Some start" "is_active (state_step sm rules e state) k" for start
    using span_of_extend[OF IH(3)[OF that(1)]] that(2) by (simp add: state)
  have new: "span_of sm rules ?s0 (es @ [e]) (ev_key e) (Some (ev_effective_at e))"
    if "roster_applies sm rules state e" "ev_is_add e" "\<not> is_active state (ev_key e)"
  proof -
    have "is_active (fold (state_step sm rules) (es @ e # mid) ?s0) (ev_key e)" if "[] = mid @ rest" for mid rest
      using that \<open>roster_applies sm rules state e\<close> \<open>ev_is_add e\<close> ok
      by (simp add: is_active_state_step flip: state)
    with that show ?thesis
      unfolding span_of_def option.case
      by (intro exI[of _ es] exI[of _ e] exI[of _ "[]"]) (simp add: state)
  qed
  have step: "fold (roster_step sm rules) (es @ [e]) (?s0, record_spans members) = roster_step sm rules e (state, spans)"
    by (simp add: st)
  show ?case
  proof (cases "roster_applies sm rules state e \<and> k = ev_key e")
    case True
    then show ?thesis
      unfolding step using IH(1,2) keep new ok
      by (cases "ev_is_add e"; cases "is_active state k")
        (simp_all add: roster_step_def state_step_def is_active_insert)
  next
    case False
    then have "map_of (snd (roster_step sm rules e (state, spans))) k = map_of spans k"
      "is_active (state_step sm rules e state) k = is_active state k"
      "btree_ok (snd (roster_step sm rules e (state, spans)))"
      using IH(1) ok by (auto simp: roster_step_def is_active_state_step)
    then show ?thesis unfolding step using IH(2) keep by (auto simp: roster_step_state)
  qed
qed

lemma adds_keep_active:
  "btree_ok state \<Longrightarrow> \<forall>e \<in> set es. ev_is_add e \<Longrightarrow> is_active state k \<Longrightarrow> is_active (fold (state_step sm rules) es state) k"
  by (induction es arbitrary: state) (auto simp: is_active_state_step)

lemma append_Cons_eq_appendE:
  assumes "pre @ e # post = xs @ ys"
  obtains (left) us where "xs = pre @ e # us" "post = us @ ys" | (right) us where "pre = xs @ us" "ys = us @ e # post"
proof -
  from assms consider us where "pre = xs @ us" "us @ e # post = ys" | us where "xs = pre @ us" "e # post = us @ ys"
    by (auto simp: append_eq_append_conv2)
  then show thesis by cases (use left right in \<open>auto simp: Cons_eq_append_conv\<close>)
qed

lemma ordered_take:
  assumes "u \<le> t" "roster_log.ordered_to t events = pre @ e # post" "ev_effective_at e \<le> u"
  obtains mid rest where "post = mid @ rest" "roster_log.ordered_to u events = pre @ e # mid"
proof -
  from roster_log.ordered_extend[OF assms(1)] obtain late
    where late: "pre @ e # post = roster_log.ordered_to u events @ late" "\<forall>x \<in> set late. u < ev_effective_at x"
    using assms(2) by (metis (no_types, lifting) mem_Collect_eq set_filter set_sort)
  from late(1) show thesis
    by (cases rule: append_Cons_eq_appendE) (use that late(2) assms(3) in auto)
qed

lemma ordered_before:
  assumes "u \<le> t" "roster_log.ordered_to t events = pre @ e # post" "u < ev_effective_at e"
  obtains mid where "pre = roster_log.ordered_to u events @ mid"
    "\<forall>x \<in> set mid. u < ev_effective_at x \<and> event_order x \<le> event_order e \<and> x \<in> set events"
proof -
  let ?late = "sort_key event_order (filter (\<lambda>x. u < ev_effective_at x \<and> ev_effective_at x \<le> t) events)"
  have late: "pre @ e # post = roster_log.ordered_to u events @ ?late"
    using roster_log.ordered_extend[OF assms(1), of events] assms(2) by simp
  moreover have "e \<notin> set (roster_log.ordered_to u events)" using assms(3) by auto
  ultimately obtain mid where mid: "pre = roster_log.ordered_to u events @ mid" "?late = mid @ e # post"
    by (cases rule: append_Cons_eq_appendE) auto
  have "sorted (map event_order (mid @ e # post))" unfolding mid(2)[symmetric] by (rule sorted_sort_key)
  moreover have "set mid \<subseteq> set ?late" unfolding mid(2) by auto
  ultimately show thesis using that[OF mid(1)] by (auto simp: sorted_append)
qed

lemma span_unstarted:
  assumes "span_of sm rules (record_state members) (roster_log.ordered_to t events) k None"
  shows "k \<in> cm_key_id ` set members \<and> (\<forall>u \<le> t. is_active (authorized_roster_state_at sm members rules events u) k)"
proof -
  have span: "is_active (fold (state_step sm rules) pre (record_state members)) k"
    if "roster_log.ordered_to t events = pre @ post" for pre post
    using assms that by (auto simp: span_of_def)
  have "is_active (authorized_roster_state_at sm members rules events u) k" if "u \<le> t" for u
    unfolding authorized_state_fold using roster_log.ordered_extend[OF that, of events] by (rule span)
  moreover have "is_active (record_state members) k" using span[of "[]"] by simp
  ultimately show ?thesis by (simp add: record_active)
qed

lemma span_started:
  assumes "span_of sm rules (record_state members) (roster_log.ordered_to t events) k (Some t0)"
  shows "t0 \<le> t \<and> (\<exists>e \<in> set events. ev_is_add e \<and> ev_key e = k \<and> ev_effective_at e = t0) \<and>
    (\<forall>u. t0 \<le> u \<and> u \<le> t \<longrightarrow> is_active (authorized_roster_state_at sm members rules events u) k) \<and>
    (\<forall>u < t0. (\<forall>e \<in> set events. ev_effective_at e \<le> u \<or> t0 \<le> ev_effective_at e) \<longrightarrow>
       \<not> is_active (authorized_roster_state_at sm members rules events u) k)"
proof -
  let ?run = "\<lambda>es. fold (state_step sm rules) es (record_state members)" and ?es = "roster_log.ordered_to t events"
  from assms obtain pre e post where es: "?es = pre @ e # post" "ev_is_add e" "ev_key e = k" "ev_effective_at e = t0"
      "\<not> is_active (?run pre) k"
    and since: "\<And>mid rest. post = mid @ rest \<Longrightarrow> is_active (?run (pre @ e # mid)) k"
    by (auto simp: span_of_def)
  have "e \<in> set ?es" unfolding es(1) by simp
  then have e: "e \<in> set events" "t0 \<le> t" using es(4) by auto
  have "is_active (?run (roster_log.ordered_to u events)) k" if "t0 \<le> u" "u \<le> t" for u
    using ordered_take[OF that(2) es(1)] es(4) that(1) since by metis
  moreover have "\<not> is_active (?run (roster_log.ordered_to u events)) k"
    if "u < t0" "\<forall>x \<in> set events. ev_effective_at x \<le> u \<or> t0 \<le> ev_effective_at x" for u
  proof -
    from that(1) e(2) obtain mid where mid: "pre = roster_log.ordered_to u events @ mid"
      "\<forall>x \<in> set mid. u < ev_effective_at x \<and> event_order x \<le> event_order e \<and> x \<in> set events"
      using ordered_before[OF _ es(1), of u] es(4) by auto
    have "\<forall>x \<in> set mid. ev_is_add x" using mid(2) that(2) es(2,4) by (fastforce simp: event_order_def)
    with mid(1) es(5) show ?thesis
      using adds_keep_active[of "?run (roster_log.ordered_to u events)" mid k sm rules] by auto
  qed
  ultimately show ?thesis unfolding authorized_state_fold using e es by blast
qed

text \<open>A member's span is the run of its current membership. A key has a span exactly when it is active; a
  span with no start is a record member active at every instant so far; a span that starts at an instant comes
  from an addition at that instant, the member is active ever since, and was not active just before.\<close>

theorem spans_exact:
  fixes sm members rules events t
  defines "active u k \<equiv> is_active (authorized_roster_state_at sm members rules events u) k"
    and "spans \<equiv> authorized_roster_spans_at sm members rules events t"
  shows "(map_of spans k = None \<longleftrightarrow> \<not> active t k) \<and>
    (map_of spans k = Some None \<longrightarrow> k \<in> cm_key_id ` set members \<and> (\<forall>u \<le> t. active u k)) \<and>
    (map_of spans k = Some (Some t0) \<longrightarrow>
       t0 \<le> t \<and> (\<exists>e \<in> set events. ev_is_add e \<and> ev_key e = k \<and> ev_effective_at e = t0) \<and>
       (\<forall>u. t0 \<le> u \<and> u \<le> t \<longrightarrow> active u k) \<and>
       (\<forall>u < t0. (\<forall>e \<in> set events. ev_effective_at e \<le> u \<or> t0 \<le> ev_effective_at e) \<longrightarrow> \<not> active u k))"
proof -
  let ?es = "roster_log.ordered_to t events"
  have spans: "spans = snd (fold (roster_step sm rules) ?es (record_state members, record_spans members))"
    by (simp add: spans_def authorized_roster_spans_at_def fold_roster_log)
  have "map_of spans k = None \<longleftrightarrow> \<not> active t k"
    "\<And>start. map_of spans k = Some start \<Longrightarrow> span_of sm rules (record_state members) ?es k start"
    using spans_invariant[of sm rules ?es members k]
    by (simp_all add: spans active_def authorized_state_fold fold_roster_step_state)
  then show ?thesis
    unfolding active_def
    using span_unstarted[of sm rules members t events k] span_started[of sm rules members t events k t0] by blast
qed

section \<open>The unsigned fold\<close>

record membership_widening =
  w_group_key_id :: string
  w_member_key_id :: string
  w_joined_at :: instant
  w_effective_at :: instant
  w_role :: "string option"
  w_persist_row_hash :: string

record membership_revocation =
  r_group_key_id :: string
  r_removed_identity_key_id :: string
  r_removed_at :: instant
  r_effective_at :: instant
  r_reason :: "string option"
  r_witness_set :: "string list"
  r_persist_row_hash :: string

definition widening_member :: "membership_widening \<Rightarrow> community_member" where
  "widening_member w = \<lparr> cm_key_id = w_member_key_id w, cm_joined_at = w_joined_at w, cm_role = w_role w \<rparr>"

definition revoked_member :: "membership_revocation \<Rightarrow> community_member" where
  "revoked_member r = \<lparr> cm_key_id = r_removed_identity_key_id r, cm_joined_at = r_effective_at r, cm_role = None \<rparr>"

type_synonym dated_change = "instant \<times> bool \<times> community_member"

abbreviation change_key :: "dated_change \<Rightarrow> string" where
  "change_key c \<equiv> cm_key_id (snd (snd c))"

definition active_changes ::
  "instant \<Rightarrow> community_member list \<Rightarrow> membership_widening list \<Rightarrow> membership_revocation list \<Rightarrow> dated_change list" where
  "active_changes min_utc members widenings revocations =
     map (\<lambda>m. (min_utc, True, m)) members @
     map (\<lambda>w. (w_effective_at w, True, widening_member w)) widenings @
     map (\<lambda>r. (r_effective_at r, False, revoked_member r)) revocations"

definition active_roster_at ::
  "instant \<Rightarrow> community_member list \<Rightarrow> membership_widening list \<Rightarrow> membership_revocation list \<Rightarrow> instant \<Rightarrow>
   community_member list" where
  "active_roster_at min_utc members widenings revocations as_of =
     (let kept = filter (\<lambda>c. fst c \<le> as_of) (active_changes min_utc members widenings revocations);
          latest = fold (\<lambda>c. btree_insert (change_key c) (snd c)) (sort_key (\<lambda>c. (fst c, \<not> fst (snd c))) kept) []
      in roster_projection members latest)"

text \<open>Two sorts agree where their keys compare alike, and a block that is nowhere above the rest stays in
  front.\<close>

lemma sort_key_cong_order:
  assumes "\<And>x y. x \<in> set xs \<Longrightarrow> y \<in> set xs \<Longrightarrow> f x \<le> f y \<longleftrightarrow> g x \<le> g y"
  shows "sort_key f xs = sort_key g xs"
  using assms
proof (induction xs)
  case (Cons x xs)
  have "insort_key f x ys = insort_key g x ys" if "set ys \<subseteq> set xs" for ys
    using that Cons.prems by (induction ys) auto
  with Cons show ?case by simp
qed simp

lemma sort_key_front:
  assumes "\<And>x y. x \<in> set xs \<Longrightarrow> y \<in> set (xs @ ys) \<Longrightarrow> f x \<le> f y"
  shows "sort_key f (xs @ ys) = xs @ sort_key f ys"
  using assms
proof (induction xs)
  case (Cons x xs)
  then have "sort_key f (xs @ ys) = xs @ sort_key f ys" by simp
  moreover have "\<forall>y \<in> set (xs @ sort_key f ys). f x \<le> f y" using Cons.prems by auto
  ultimately show ?case by (simp add: insort_is_Cons)
qed simp

lemma map_of_rev_filter: "map_of (rev xs) k = map_of (rev (filter (\<lambda>kv. fst kv = k) xs)) k"
  by (induction xs) (auto simp: map_add_def split: option.splits)

lemma sort_key_map: "sort_key f (map h xs) = map h (sort_key (f \<circ> h) xs)"
proof (induction xs)
  case (Cons x xs)
  have "insort_key f (h x) (map h ys) = map h (insort_key (f \<circ> h) x ys)" for ys by (induction ys) auto
  with Cons show ?case by (simp add: comp_def)
qed simp

lemma state_step_applied:
  "roster_applies sm rules state e \<Longrightarrow>
     state_step sm rules e state = btree_insert (ev_key e) (ev_is_add e, ev_member e) state"
  by (simp add: state_step_def)

lemma all_applied_fold:
  assumes "\<forall>n < length es. roster_applies sm rules (fold (state_step sm rules) (take n es) state) (es ! n)"
  shows "fold (state_step sm rules) es state = fold (\<lambda>e. btree_insert (ev_key e) (ev_is_add e, ev_member e)) es state"
proof -
  have "fold (state_step sm rules) (take n es) state =
      fold (\<lambda>e. btree_insert (ev_key e) (ev_is_add e, ev_member e)) (take n es) state" for n
  proof (induction n)
    case (Suc n)
    then show ?case using assms by (cases "n < length es") (auto simp: take_Suc_conv_app_nth state_step_applied)
  qed simp
  from this[of "length es"] show ?thesis by simp
qed

definition plane_change :: "roster_event \<Rightarrow> dated_change" where
  "plane_change e = (ev_effective_at e, ev_is_add e, ev_member e)"

lemma latest_change_agrees:
  assumes "\<forall>e \<in> set events. min_utc \<le> ev_effective_at e"
  shows "map_of (rev (map (\<lambda>c. (change_key c, snd c))
      (map (\<lambda>m. (min_utc, True, m)) members @ map plane_change (sort_key event_order events)))) k =
    map_of (rev (map (\<lambda>c. (change_key c, snd c))
      (sort_key (\<lambda>c. (fst c, \<not> fst (snd c))) (map (\<lambda>m. (min_utc, True, m)) members @ map plane_change events)))) k"
proof -
  let ?f = "\<lambda>c :: dated_change. (fst c, \<not> fst (snd c))" and ?rec = "map (\<lambda>m. (min_utc, True, m)) members"
  let ?on = "\<lambda>c. change_key c = k" and ?mine = "filter (\<lambda>e. ev_key e = k) events"
  have mine: "filter ?on (map plane_change xs) = map plane_change (filter (\<lambda>e. ev_key e = k) xs)" for xs
    by (induction xs) (auto simp: plane_change_def)
  have "filter ?on (sort_key ?f (?rec @ map plane_change events)) =
      sort_key ?f (filter ?on ?rec @ map plane_change ?mine)"
    by (simp add: filter_sort mine)
  also have "\<dots> = filter ?on ?rec @ sort_key ?f (map plane_change ?mine)"
    using assms by (intro sort_key_front) (auto simp: plane_change_def)
  also have "sort_key ?f (map plane_change ?mine) = map plane_change (sort_key event_order ?mine)"
    unfolding sort_key_map by (rule arg_cong[where f = "map plane_change"], rule sort_key_cong_order)
      (auto simp: plane_change_def event_order_def)
  also have "filter ?on ?rec @ \<dots> = filter ?on (?rec @ map plane_change (sort_key event_order events))"
    by (simp add: mine filter_sort)
  finally show ?thesis
    by (subst (1 2) map_of_rev_filter) (simp add: filter_map comp_def)
qed

text \<open>The authorized replay extends the unsigned fold. On rows that all have standing at their turn the two
  give the same roster, in the same order.\<close>

theorem unsigned_fold_agrees:
  assumes rows: "map plane_change events =
      map (\<lambda>w. (w_effective_at w, True, widening_member w)) widenings @
      map (\<lambda>r. (r_effective_at r, False, revoked_member r)) revocations"
    and dated: "min_utc \<le> t" "\<forall>e \<in> set events. min_utc \<le> ev_effective_at e"
    and applied: "\<forall>n < length (roster_log.ordered_to t events).
      roster_applies sm rules (fold (state_step sm rules) (take n (roster_log.ordered_to t events)) (record_state members))
        (roster_log.ordered_to t events ! n)"
  shows "authorized_roster_at sm members rules events t = active_roster_at min_utc members widenings revocations t"
proof -
  let ?ins = "\<lambda>c :: dated_change. btree_insert (change_key c) (snd c)"
  let ?rec = "map (\<lambda>m. (min_utc, True, m)) members" and ?kept = "filter (\<lambda>e. ev_effective_at e \<le> t) events"
  let ?f = "\<lambda>c :: dated_change. (fst c, \<not> fst (snd c))"
  have "authorized_roster_state_at sm members rules events t =
      fold ?ins (?rec @ map plane_change (sort_key event_order ?kept)) []"
    unfolding authorized_state_fold all_applied_fold[OF applied]
    by (simp add: record_state_def fold_map comp_def plane_change_def)
  also have "\<dots> = fold ?ins (sort_key ?f (?rec @ map plane_change ?kept)) []"
  proof (rule btree_eqI)
    have "\<forall>e \<in> set ?kept. min_utc \<le> ev_effective_at e" using dated(2) by simp
    from latest_change_agrees[OF this]
    show "map_of (fold ?ins (?rec @ map plane_change (sort_key event_order ?kept)) []) =
        map_of (fold ?ins (sort_key ?f (?rec @ map plane_change ?kept)) [])"
      by (subst (1 2) btree_fold_lookup) (auto simp del: rev_append map_append)
  qed (rule btree_fold_ok, simp)+
  also have "?rec @ map plane_change ?kept = filter (\<lambda>c. fst c \<le> t) (active_changes min_utc members widenings revocations)"
    using dated(1) by (simp add: active_changes_def rows[symmetric] filter_map comp_def plane_change_def)
  finally show ?thesis by (simp add: authorized_roster_at_def active_roster_at_def Let_def)
qed

section \<open>Examples\<close>

definition ex_member :: "string \<Rightarrow> string \<Rightarrow> community_member" where
  "ex_member k r = \<lparr> cm_key_id = k, cm_joined_at = 0, cm_role = Some r \<rparr>"

definition ex_founding :: "community_member list" where
  "ex_founding = [ex_member ''f'' ''founder'', ex_member ''a'' ''member'']"

definition ex_rules :: "string \<Rightarrow> string option \<Rightarrow> roster_rules" where
  "ex_rules p subkind =
     \<lparr> rr_protocol = p, rr_subkind = subkind, rr_policy_blob = None, rr_node_bearing = NO_NODE_BEARING_SEATS \<rparr>"

definition ex_change :: "instant \<Rightarrow> bool \<Rightarrow> string \<Rightarrow> string \<Rightarrow> string list \<Rightarrow> roster_event" where
  "ex_change t add k r signers =
     \<lparr> ev_effective_at = t, ev_is_add = add, ev_member = ex_member k r, ev_signers = set signers,
       ev_moderator_roots = {}, ev_reversed = False \<rparr>"

definition ex_log :: "roster_event list" where
  "ex_log = [ex_change 20 False ''a'' ''member'' [''a''], ex_change 10 True ''b'' ''member'' [''f'']]"

abbreviation (input) half :: "nat \<Rightarrow> nat" where
  "half \<equiv> \<lambda>n. n div 2 + 1"

lemma ex_bearing [simp]: "\<not> bearing_at (rr_node_bearing (ex_rules p q)) k u"
  by (simp add: ex_rules_def NO_NODE_BEARING_SEATS_def bearing_at_def)

theorem authority_intervals_exact_witness:
  "authority_at (root_authority_intervals half (- 100) ex_founding (ex_rules ''founder_only'' None) ex_log [''f'']) ''f'' 15"
proof -
  have "is_active_founder (ex_rules ''founder_only'' None)
      (authorized_roster_state_at half ex_founding (ex_rules ''founder_only'' None) (map drop_moderators ex_log) 15) 15 ''f''"
    by code_simp
  then show ?thesis by (subst authority_intervals_exact) simp_all
qed

theorem roster_converges_witness:
  "fold_roster half ex_founding (ex_rules ''founder_only'' None) ex_log 30 =
     fold_roster half ex_founding (ex_rules ''founder_only'' None) (rev ex_log) 30"
proof -
  have "distinct (map (\<lambda>e. (ev_key e, ev_is_add e, ev_effective_at e)) ex_log)" by code_simp
  then show ?thesis using roster_converges[of ex_log "rev ex_log"] by simp
qed


lemma ex_two_members:
  "n \<le> 2 \<Longrightarrow> \<exists>a b. a \<noteq> b \<and>
     is_active (fst (fold (roster_step half (ex_rules ''founder_only'' None))
       (take n (sort_roster_events (filter (\<lambda>e. ev_effective_at e \<le> 30) ex_log)))
       (record_state ex_founding, record_spans ex_founding))) a \<and>
     is_active (fst (fold (roster_step half (ex_rules ''founder_only'' None))
       (take n (sort_roster_events (filter (\<lambda>e. ev_effective_at e \<le> 30) ex_log)))
       (record_state ex_founding, record_spans ex_founding))) b"
proof -
  assume "n \<le> 2"
  then consider "n = 0" | "n = 1" | "n = 2" by linarith
  then show ?thesis
  proof cases
    case 1
    show ?thesis unfolding 1 by (rule exI[of _ "''f''"], rule exI[of _ "''a''"]) code_simp
  next
    case 2
    show ?thesis unfolding 2 by (rule exI[of _ "''f''"], rule exI[of _ "''b''"]) code_simp
  next
    case 3
    show ?thesis unfolding 3 by (rule exI[of _ "''f''"], rule exI[of _ "''b''"]) code_simp
  qed
qed


theorem spans_exact_witness:
  "is_active (authorized_roster_state_at half ex_founding (ex_rules ''founder_only'' None) ex_log 15) ''b'' \<and>
   \<not> is_active (authorized_roster_state_at half ex_founding (ex_rules ''founder_only'' None) ex_log 5) ''b''"
proof -
  have "map_of (authorized_roster_spans_at half ex_founding (ex_rules ''founder_only'' None) ex_log 30) ''b'' = Some (Some 10)"
    by code_simp
  then show ?thesis
    using spans_exact[of half ex_founding "ex_rules ''founder_only'' None" ex_log 30 "''b''" 10]
    by (simp add: ex_log_def ex_change_def)
qed

definition ex_widening :: membership_widening where
  "ex_widening = \<lparr> w_group_key_id = ''g'', w_member_key_id = ''b'', w_joined_at = 10, w_effective_at = 10,
     w_role = None, w_persist_row_hash = ''h1'' \<rparr>"

definition ex_revocation :: membership_revocation where
  "ex_revocation = \<lparr> r_group_key_id = ''g'', r_removed_identity_key_id = ''a'', r_removed_at = 20,
     r_effective_at = 20, r_reason = None, r_witness_set = [], r_persist_row_hash = ''h2'' \<rparr>"

definition ex_rows :: "roster_event list" where
  "ex_rows = [(ex_change 10 True ''b'' '''' [''f''])\<lparr>ev_member := widening_member ex_widening\<rparr>,
     (ex_change 20 False ''a'' '''' [''a''])\<lparr>ev_member := revoked_member ex_revocation\<rparr>]"

theorem unsigned_fold_agrees_witness:
  "authorized_roster_at half ex_founding (ex_rules ''founder_only'' None) ex_rows 30 =
     active_roster_at (- 100) ex_founding [ex_widening] [ex_revocation] 30"
proof (rule unsigned_fold_agrees)
  show "map plane_change ex_rows =
      map (\<lambda>w. (w_effective_at w, True, widening_member w)) [ex_widening] @
      map (\<lambda>r. (r_effective_at r, False, revoked_member r)) [ex_revocation]"
    by code_simp
  show "\<forall>e \<in> set ex_rows. (- 100) \<le> ev_effective_at e" by code_simp
  show "\<forall>n < length (roster_log.ordered_to 30 ex_rows).
      roster_applies half (ex_rules ''founder_only'' None)
        (fold (state_step half (ex_rules ''founder_only'' None)) (take n (roster_log.ordered_to 30 ex_rows))
          (record_state ex_founding)) (roster_log.ordered_to 30 ex_rows ! n)"
    by code_simp
qed simp

text \<open>The last-founder rule looks only at what a change leaves besides the member it names, and only when that
  member is a founder. A public room whose last member, a founder, has left admits a joiner and then has a
  member and no founder; a founder who is the only member is demoted and stays.\<close>

lemma founder_rule_gaps:
  "map (\<lambda>m. (cm_key_id m, cm_role m))
     (authorized_roster_at half [ex_member ''f'' ''founder''] (ex_rules ''open:self_admit'' (Some ''public''))
       [ex_change 10 False ''f'' ''founder'' [''f''], ex_change 20 True ''j'' ''member'' [''j'']] 30) =
     [(''j'', Some ''member'')] \<and>
   map (\<lambda>m. (cm_key_id m, cm_role m))
     (authorized_roster_at half [ex_member ''f'' ''founder''] (ex_rules ''founder_only'' None)
       [ex_change 10 True ''f'' ''member'' [''f'', ''z'']] 30) =
     [(''f'', Some ''member'')]"
  by code_simp

end
