(* ===== verification/Federation_Types.thy ===== *)
theory Federation_Types
  imports Persist_Prelude
begin

text \<open>
  The rows and enumerations the federation components share (\<open>src/src/federation/types.rs\<close>,
  \<open>src/src/federation/cohort.rs\<close>), and the errors of the directory (\<open>src/src/federation/mod.rs\<close>): the variants
  the modelled code tells apart are constructors, and every other variant is \<open>OtherError\<close> with its
  text. The weight of an attestation is the bit pattern of its double.
\<close>

datatype cohort = SelfId | Family | Community | Affiliations

fun cohort_str :: "cohort \<Rightarrow> string" where
  "cohort_str SelfId = ''self''"
| "cohort_str Family = ''family''"
| "cohort_str Community = ''community''"
| "cohort_str Affiliations = ''affiliations''"

definition shares_community_machinery :: "cohort \<Rightarrow> bool" where
  "shares_community_machinery c \<longleftrightarrow> c = Community \<or> c = Affiliations"

definition cohort_from_token :: "string \<Rightarrow> string + cohort" where
  "cohort_from_token s =
     (if s = ''self'' then Inr SelfId
      else if s = ''family'' then Inr Family
      else if s = ''community'' then Inr Community
      else if s = ''affiliations'' then Inr Affiliations
      else Inl s)"

lemma cohort_token_roundtrip: "cohort_from_token s = Inr c \<longleftrightarrow> s = cohort_str c"
  by (cases c) (auto simp: cohort_from_token_def)

datatype fed_error =
    InvalidArgument string
  | Backend string
  | Unsupported string
  | RosterAuthorityUnauthorized string string string
  | GroupDissolved string instant
  | OtherError string

record scrub_sig =
  sc_key_id :: string
  sc_signature_classical :: string
  sc_signature_pqc :: "string option"
  sc_cosigned_at :: "string option"

record attestation =
  attestation_id :: string
  attesting_key_id :: string
  attested_key_id :: string
  attestation_type :: string
  att_weight :: "nat option"
  asserted_at :: instant
  att_expires_at :: "instant option"
  attestation_envelope :: json
  original_content_hash :: string
  scrub_signature_classical :: string
  scrub_signature_pqc :: "string option"
  scrub_key_id :: string
  scrub_timestamp :: instant
  pqc_completed_at :: "instant option"
  persist_row_hash :: string
  subject_key_ids :: "string list"
  withdraws_admission_rule :: "nat option"
  cohort_scope :: string
  att_tier :: string
  promoted_at :: "instant option"
  additional_scrubs :: "scrub_sig list"

definition scrubs :: "attestation \<Rightarrow> scrub_sig list" where
  "scrubs row =
     \<lparr> sc_key_id = scrub_key_id row, sc_signature_classical = scrub_signature_classical row,
       sc_signature_pqc = scrub_signature_pqc row, sc_cosigned_at = None \<rparr> # additional_scrubs row"

text \<open>The closed tier vocabulary (\<open>attestation_tier\<close>).\<close>

definition TIER_LOCAL :: string where "TIER_LOCAL = ''local''"
definition TIER_FEDERATION :: string where "TIER_FEDERATION = ''federation''"

definition envelope_str :: "attestation \<Rightarrow> string \<Rightarrow> string option" where
  "envelope_str row key = Option.bind (json_get (attestation_envelope row) key) as_str"

end
