(* ===== verification/Reverse_Quorum_Fold.thy ===== *)
theory Reverse_Quorum_Fold
  imports Reverse_Quorum_Policy Federation_Types "HOL-Library.Product_Lexorder"
begin

text \<open>
  The read-time fold of the reverse quorum (\<open>src/src/federation/reverse_quorum.rs\<close>): from the rows a node
  holds to the standing of an action. The fold is pure, so its whole input is the record
  \<open>rq_inputs\<close>. Its theorems are the ones that let nodes agree: the answer depends only on which rows
  are held, the escalated undo is never bought by fewer than three voices, and the actor never votes on
  its own act.
\<close>

section \<open>Dimensions and fields\<close>

definition DIMENSION_OBJECTION :: string where "DIMENSION_OBJECTION = ''objection:raised:v1''"
definition DIMENSION_DISMISSAL :: string where "DIMENSION_DISMISSAL = ''objection:dismissed:v1''"
definition DIMENSION_UPHELD :: string where "DIMENSION_UPHELD = ''objection:upheld:v1''"
definition DIMENSION_OVERRULED :: string where "DIMENSION_OVERRULED = ''objection:overruled:v1''"

definition OBJECTS_TO :: string where "OBJECTS_TO = ''objects_to_attestation_id''"
definition DISMISSES :: string where "DISMISSES = ''dismisses_objection_id''"
definition COHORT :: string where "COHORT = ''cohort''"
definition COHORT_KEY_ID :: string where "COHORT_KEY_ID = ''cohort_key_id''"
definition GROUNDS :: string where "GROUNDS = ''grounds''"
definition BALLOT_ON :: string where "BALLOT_ON = ''ballot_on_objection_id''"

lemmas rq_dimensions = DIMENSION_OBJECTION_def DIMENSION_DISMISSAL_def DIMENSION_UPHELD_def
  DIMENSION_OVERRULED_def
lemmas rq_fields = OBJECTS_TO_def DISMISSES_def COHORT_def COHORT_KEY_ID_def GROUNDS_def BALLOT_ON_def

definition objection_envelope :: "cohort \<Rightarrow> string \<Rightarrow> string \<Rightarrow> string \<Rightarrow> json" where
  "objection_envelope cohort cohort_key action grounds =
     JObject [(''dimension'', JString DIMENSION_OBJECTION), (COHORT, JString (cohort_str cohort)),
              (COHORT_KEY_ID, JString cohort_key), (OBJECTS_TO, JString action),
              (GROUNDS, JString grounds)]"

definition dismissal_envelope :: "cohort \<Rightarrow> string \<Rightarrow> string \<Rightarrow> string \<Rightarrow> string \<Rightarrow> json" where
  "dismissal_envelope cohort cohort_key action objection grounds =
     JObject [(''dimension'', JString DIMENSION_DISMISSAL), (COHORT, JString (cohort_str cohort)),
              (COHORT_KEY_ID, JString cohort_key), (OBJECTS_TO, JString action),
              (DISMISSES, JString objection), (GROUNDS, JString grounds)]"

definition ballot_envelope :: "cohort \<Rightarrow> string \<Rightarrow> string \<Rightarrow> string \<Rightarrow> bool \<Rightarrow> string \<Rightarrow> json" where
  "ballot_envelope cohort cohort_key action objection upholds grounds =
     JObject [(''dimension'', JString (if upholds then DIMENSION_UPHELD else DIMENSION_OVERRULED)),
              (COHORT, JString (cohort_str cohort)), (COHORT_KEY_ID, JString cohort_key),
              (OBJECTS_TO, JString action), (BALLOT_ON, JString objection), (GROUNDS, JString grounds)]"

section \<open>Results\<close>

datatype rq_standing = NotGoverned | WindowOpen | Stood | Reversed

datatype steward_standing =
    NotAdopted | NoDutyHolders | Awaiting | StewardUpheld | StewardOverruled | Silent

fun escalates :: "steward_standing \<Rightarrow> bool" where
  "escalates Silent = True"
| "escalates StewardOverruled = True"
| "escalates NoDutyHolders = True"
| "escalates _ = False"

fun steward_standing_str :: "steward_standing \<Rightarrow> string" where
  "steward_standing_str NotAdopted = ''not_adopted''"
| "steward_standing_str NoDutyHolders = ''no_duty_holders''"
| "steward_standing_str Awaiting = ''awaiting''"
| "steward_standing_str StewardUpheld = ''upheld''"
| "steward_standing_str StewardOverruled = ''overruled''"
| "steward_standing_str Silent = ''silent''"

datatype escalation_outcome = NotEscalated | Unresolved | Upheld | Dismissed

fun escalation_outcome_str :: "escalation_outcome \<Rightarrow> string" where
  "escalation_outcome_str NotEscalated = ''not_escalated''"
| "escalation_outcome_str Unresolved = ''unresolved''"
| "escalation_outcome_str Upheld = ''upheld''"
| "escalation_outcome_str Dismissed = ''dismissed''"

record objection_escalation =
  oe_objection_id :: string
  oe_steward :: steward_standing
  oe_outcome :: escalation_outcome
  oe_duty_holders :: nat
  oe_ruling_required :: nat
  oe_respondents :: nat
  oe_required :: nat
  oe_uphold_ballots :: nat
  oe_overrule_ballots :: nat
  oe_counted_ballot_ids :: "string list"

record rq_fold =
  rf_standing :: rq_standing
  rf_policy :: "string option"
  rf_distinct_objectors :: nat
  rf_required :: nat
  rf_roster_size :: nat
  rf_window_opens_at :: instant
  rf_window_closes_at :: instant
  rf_window_open :: bool
  rf_counted_objection_ids :: "string list"
  rf_dismissed_objection_ids :: "string list"
  rf_steward_deadline :: "instant option"
  rf_escalation :: "objection_escalation list"
  rf_escalated_dismissed_ids :: "string list"

record action_ref =
  actor_key_id :: string
  action_id :: string
  action_asserted_at :: instant

definition action_ref_of :: "attestation \<Rightarrow> action_ref" where
  "action_ref_of a =
     \<lparr> actor_key_id = attesting_key_id a, action_id = attestation_id a,
       action_asserted_at = asserted_at a \<rparr>"

record rq_inputs =
  in_action :: action_ref
  in_objections :: "attestation list"
  in_dismissals :: "attestation list"
  in_ballots :: "attestation list"
  in_roster :: "string list"
  in_duty_holders :: "string list"
  in_policy :: "rq_policy option"
  in_now :: instant

section \<open>Ballots\<close>

definition is_ballot :: "attestation \<Rightarrow> bool" where
  "is_ballot row \<longleftrightarrow> envelope_str row ''dimension'' \<in> {Some DIMENSION_UPHELD, Some DIMENSION_OVERRULED}"

definition is_ballot_on :: "attestation \<Rightarrow> action_ref \<Rightarrow> attestation \<Rightarrow> instant \<Rightarrow> bool" where
  "is_ballot_on row action objection now \<longleftrightarrow>
     is_ballot row \<and>
     envelope_str row BALLOT_ON = Some (attestation_id objection) \<and>
     envelope_str row OBJECTS_TO = Some (action_id action) \<and>
     action_asserted_at action \<le> asserted_at row \<and>
     asserted_at row \<le> now"

definition uphold_rank :: "attestation \<Rightarrow> nat" where
  "uphold_rank b = (if envelope_str b ''dimension'' = Some DIMENSION_UPHELD then 1 else 0)"

definition ballot_order :: "attestation \<Rightarrow> instant \<times> nat \<times> string" where
  "ballot_order b = (asserted_at b, uphold_rank b, attestation_id b)"

definition governing_ballots ::
  "attestation list \<Rightarrow> string list \<Rightarrow> instant option \<Rightarrow> (string \<times> attestation) list" where
  "governing_ballots candidates eligible not_after =
     (let rows = filter (\<lambda>b. attesting_key_id b \<in> set eligible \<and>
                              (case not_after of None \<Rightarrow> True | Some t \<Rightarrow> asserted_at b \<le> t)) candidates
      in fold (\<lambda>b m. btree_insert (attesting_key_id b) b m) (sort_key ballot_order rows) [])"

definition tally :: "(string \<times> attestation) list \<Rightarrow> nat \<times> nat" where
  "tally governing =
     (length (filter (\<lambda>(k, b). envelope_str b ''dimension'' = Some DIMENSION_UPHELD) governing),
      length (filter (\<lambda>(k, b). envelope_str b ''dimension'' = Some DIMENSION_OVERRULED) governing))"

section \<open>One objection\<close>

definition steward_verdict ::
  "nat \<Rightarrow> nat \<Rightarrow> nat \<Rightarrow> bool \<Rightarrow> bool \<Rightarrow> steward_standing" where
  "steward_verdict upheld overruled required deadline_passed no_duty =
     (if required \<le> upheld then StewardUpheld
      else if required \<le> overruled then StewardOverruled
      else if \<not> deadline_passed then Awaiting
      else if no_duty then NoDutyHolders
      else Silent)"

definition escalation_verdict :: "steward_standing \<Rightarrow> nat \<Rightarrow> nat \<Rightarrow> nat \<Rightarrow> escalation_outcome" where
  "escalation_verdict steward upheld overruled required =
     (if \<not> escalates steward then NotEscalated
      else if required \<le> upheld then Upheld
      else if required \<le> overruled then Dismissed
      else Unresolved)"

definition escalate_objection ::
  "chrono \<Rightarrow> (nat \<Rightarrow> nat) \<Rightarrow> action_ref \<Rightarrow> attestation \<Rightarrow> attestation list \<Rightarrow> string list \<Rightarrow> string list
     \<Rightarrow> rq_policy \<Rightarrow> instant \<Rightarrow> objection_escalation" where
  "escalate_objection C sm action objection ballots roster duty_holders policy now =
     (let deadline = rq_steward_deadline C policy (action_asserted_at action);
          actor = actor_key_id action;
          objector = attesting_key_id objection;
          seated_duty = filter (\<lambda>k. k \<noteq> actor \<and> k \<noteq> objector) duty_holders;
          seated_roster = filter (\<lambda>k. k \<noteq> actor) roster;
          relevant = filter (\<lambda>b. is_ballot_on b action objection now) ballots;
          ruling_required = steward_ruling_threshold sm (length seated_duty);
          ruled = tally (governing_ballots relevant seated_duty deadline);
          deadline_passed = (case deadline of None \<Rightarrow> False | Some d \<Rightarrow> d \<le> now);
          steward = steward_verdict (fst ruled) (snd ruled) ruling_required deadline_passed (seated_duty = []);
          pool = governing_ballots relevant seated_roster None;
          counts = tally pool;
          respondents = length pool;
          required = escalated_dismissal_required sm policy respondents
      in
      \<lparr> oe_objection_id = attestation_id objection,
        oe_steward = steward,
        oe_outcome = escalation_verdict steward (fst counts) (snd counts) required,
        oe_duty_holders = length seated_duty,
        oe_ruling_required = ruling_required,
        oe_respondents = respondents,
        oe_required = required,
        oe_uphold_ballots = fst counts,
        oe_overrule_ballots = snd counts,
        oe_counted_ballot_ids = sort (map (attestation_id \<circ> snd) pool) \<rparr>)"

section \<open>The fold\<close>

definition dismissed_names :: "attestation list \<Rightarrow> string set" where
  "dismissed_names dismissals =
     set (List.map_filter
       (\<lambda>d. if envelope_str d ''dimension'' = Some DIMENSION_DISMISSAL then envelope_str d DISMISSES
            else None) dismissals)"

definition objection_in_scope ::
  "action_ref \<Rightarrow> string list \<Rightarrow> instant \<Rightarrow> instant \<Rightarrow> attestation \<Rightarrow> bool" where
  "objection_in_scope action roster opens closes ob \<longleftrightarrow>
     envelope_str ob ''dimension'' = Some DIMENSION_OBJECTION \<and>
     envelope_str ob OBJECTS_TO = Some (action_id action) \<and>
     attesting_key_id ob \<in> set roster \<and>
     \<not> (asserted_at ob < opens \<or> closes < asserted_at ob)"

record fold_acc =
  fa_counted :: "string list"
  fa_objectors :: "string set"
  fa_dismissed :: "string list"
  fa_escalated :: "string list"
  fa_escalation :: "objection_escalation list"

definition fold_step ::
  "(attestation \<Rightarrow> bool) \<Rightarrow> string set \<Rightarrow> (attestation \<Rightarrow> objection_escalation) option
     \<Rightarrow> attestation \<Rightarrow> fold_acc \<Rightarrow> fold_acc" where
  "fold_step in_scope dismissed escalate ob acc =
     (let count = (\<lambda>acc. if attesting_key_id ob \<in> fa_objectors acc then acc
                         else acc\<lparr>fa_objectors := insert (attesting_key_id ob) (fa_objectors acc),
                                  fa_counted := fa_counted acc @ [attestation_id ob]\<rparr>)
      in
      if \<not> in_scope ob then acc
      else if attestation_id ob \<in> dismissed
        then acc\<lparr>fa_dismissed := fa_dismissed acc @ [attestation_id ob]\<rparr>
      else case escalate of
        None \<Rightarrow> count acc
      | Some f \<Rightarrow>
          let acc = acc\<lparr>fa_escalation := fa_escalation acc @ [f ob]\<rparr> in
          if oe_outcome (f ob) = Dismissed
          then acc\<lparr>fa_escalated := fa_escalated acc @ [attestation_id ob]\<rparr>
          else count acc)"

definition fold_acc_empty :: fold_acc where
  "fold_acc_empty = \<lparr> fa_counted = [], fa_objectors = {}, fa_dismissed = [], fa_escalated = [],
     fa_escalation = [] \<rparr>"

definition escalate_of ::
  "chrono \<Rightarrow> (nat \<Rightarrow> nat) \<Rightarrow> rq_inputs \<Rightarrow> rq_policy \<Rightarrow> (attestation \<Rightarrow> objection_escalation) option" where
  "escalate_of C sm inp policy =
     (case rq_steward policy of
        None \<Rightarrow> None
      | Some _ \<Rightarrow> Some (\<lambda>ob. escalate_objection C sm (in_action inp) ob (in_ballots inp) (in_roster inp)
                            (in_duty_holders inp) policy (in_now inp)))"

definition fold_reverse_quorum_over :: "chrono \<Rightarrow> (nat \<Rightarrow> nat) \<Rightarrow> rq_inputs \<Rightarrow> rq_fold" where
  "fold_reverse_quorum_over C sm inp =
     (let action = in_action inp; roster = in_roster inp; now = in_now inp in
      case in_policy inp of
        None \<Rightarrow>
          \<lparr> rf_standing = NotGoverned, rf_policy = None, rf_distinct_objectors = 0, rf_required = 0,
            rf_roster_size = length roster, rf_window_opens_at = action_asserted_at action,
            rf_window_closes_at = action_asserted_at action, rf_window_open = False,
            rf_counted_objection_ids = [], rf_dismissed_objection_ids = [],
            rf_steward_deadline = None, rf_escalation = [], rf_escalated_dismissed_ids = [] \<rparr>
      | Some policy \<Rightarrow>
          let (opens, closes) = rq_window C policy (action_asserted_at action);
              required = reversal_threshold policy (length roster);
              acc = fold (fold_step (objection_in_scope action roster opens closes)
                           (dismissed_names (in_dismissals inp)) (escalate_of C sm inp policy))
                      (in_objections inp) fold_acc_empty;
              window_open = (opens \<le> now \<and> now \<le> closes);
              objectors = card (fa_objectors acc)
          in
          \<lparr> rf_standing = (if required \<le> objectors then Reversed
                           else if window_open then WindowOpen else Stood),
            rf_policy = Some (to_protocol_string policy),
            rf_distinct_objectors = objectors,
            rf_required = required,
            rf_roster_size = length roster,
            rf_window_opens_at = opens,
            rf_window_closes_at = closes,
            rf_window_open = window_open,
            rf_counted_objection_ids = sort (fa_counted acc),
            rf_dismissed_objection_ids = sort (fa_dismissed acc),
            rf_steward_deadline = rq_steward_deadline C policy (action_asserted_at action),
            rf_escalation = sort_key oe_objection_id (fa_escalation acc),
            rf_escalated_dismissed_ids = sort (fa_escalated acc) \<rparr>)"

definition fold_reverse_quorum ::
  "chrono \<Rightarrow> (nat \<Rightarrow> nat) \<Rightarrow> attestation \<Rightarrow> attestation list \<Rightarrow> attestation list \<Rightarrow> string list
     \<Rightarrow> rq_policy option \<Rightarrow> instant \<Rightarrow> rq_fold" where
  "fold_reverse_quorum C sm action objections dismissals roster policy now =
     fold_reverse_quorum_over C sm
       \<lparr> in_action = action_ref_of action, in_objections = objections, in_dismissals = dismissals,
         in_ballots = [], in_roster = roster, in_duty_holders = [], in_policy = policy, in_now = now \<rparr>"

section \<open>Governing ballots depend only on which rows are held\<close>

abbreviation file_ballots :: "attestation list \<Rightarrow> (string \<times> attestation) list \<Rightarrow> (string \<times> attestation) list" where
  "file_ballots \<equiv> fold (\<lambda>b m. btree_insert (attesting_key_id b) b m)"

lemma file_ballots_ok: "btree_ok m \<Longrightarrow> btree_ok (file_ballots rows m)"
  by (induction rows arbitrary: m) simp_all

lemma file_ballots_lookup:
  "btree_ok m \<Longrightarrow> map_of (file_ballots rows m) a =
     (case filter (\<lambda>b. attesting_key_id b = a) rows of [] \<Rightarrow> map_of m a | ys \<Rightarrow> Some (last ys))"
proof (induction rows arbitrary: m)
  case (Cons b rows)
  have "btree_ok (btree_insert (attesting_key_id b) b m)" using Cons.prems by simp
  from Cons.IH[OF this] Cons.prems show ?case by (auto split: list.splits)
qed simp

definition eligible_rows :: "attestation list \<Rightarrow> string list \<Rightarrow> instant option \<Rightarrow> attestation list" where
  "eligible_rows candidates eligible not_after =
     filter (\<lambda>b. attesting_key_id b \<in> set eligible \<and>
                 (case not_after of None \<Rightarrow> True | Some t \<Rightarrow> asserted_at b \<le> t)) candidates"

lemma governing_ballots_alt:
  "governing_ballots cand elig na = file_ballots (sort_key ballot_order (eligible_rows cand elig na)) []"
  by (simp add: governing_ballots_def eligible_rows_def)

lemma governing_ballots_ok: "btree_ok (governing_ballots cand elig na)"
  unfolding governing_ballots_alt by (rule file_ballots_ok) simp

definition governs :: "attestation set \<Rightarrow> string \<Rightarrow> attestation \<Rightarrow> bool" where
  "governs R a b \<longleftrightarrow> b \<in> R \<and> attesting_key_id b = a \<and>
     (\<forall>r \<in> R. attesting_key_id r = a \<longrightarrow> ballot_order r \<le> ballot_order b)"

lemma governing_ballots_Some:
  assumes "map_of (governing_ballots cand elig na) a = Some b"
  shows "governs (set (eligible_rows cand elig na)) a b"
proof -
  let ?rows = "sort_key ballot_order (eligible_rows cand elig na)"
  let ?mine = "filter (\<lambda>b. attesting_key_id b = a) ?rows"
  have mine: "?mine \<noteq> []" "b = last ?mine"
    using assms file_ballots_lookup[of "[]" ?rows a] unfolding governing_ballots_alt
    by (auto split: list.splits)
  have b_in: "b \<in> set ?mine" unfolding mine(2) by (rule last_in_set[OF mine(1)])
  have "sorted (map ballot_order ?mine)" by (rule sorted_filter) simp
  then have "ballot_order r \<le> ballot_order b" if "r \<in> set ?mine" for r
    unfolding mine(2) using that by (rule sorted_last_max)
  with b_in show ?thesis by (auto simp: governs_def)
qed

lemma governing_ballots_dom:
  "map_of (governing_ballots cand elig na) a = None \<longleftrightarrow>
     (\<forall>r \<in> set (eligible_rows cand elig na). attesting_key_id r \<noteq> a)"
proof -
  let ?rows = "sort_key ballot_order (eligible_rows cand elig na)"
  have "map_of (governing_ballots cand elig na) a = None \<longleftrightarrow> filter (\<lambda>b. attesting_key_id b = a) ?rows = []"
    using file_ballots_lookup[of "[]" ?rows a] unfolding governing_ballots_alt by (simp split: list.splits)
  then show ?thesis unfolding filter_empty_conv by simp
qed

definition orders :: "(string \<times> attestation) list \<Rightarrow> (string \<times> instant \<times> nat \<times> string) list" where
  "orders g = map (\<lambda>(k, b). (k, ballot_order b)) g"

lemma orders_lookup: "map_of (orders g) a = map_option ballot_order (map_of g a)"
  by (induction g) (auto simp: orders_def)

lemma orders_ok: "btree_ok g \<Longrightarrow> btree_ok (orders g)"
  by (simp add: orders_def comp_def case_prod_beta)

text \<open>The last ballots of each author, up to what the fold reads of them, are a function of the row set.\<close>

lemma governs_same_order: "governs R a b \<Longrightarrow> governs R a b' \<Longrightarrow> ballot_order b = ballot_order b'"
  unfolding governs_def by (rule order_antisym) simp_all

lemma governing_orders_cong:
  assumes "set (eligible_rows cand elig na) = set (eligible_rows cand' elig' na')"
  shows "orders (governing_ballots cand elig na) = orders (governing_ballots cand' elig' na')"
proof (rule btree_eqI[OF orders_ok[OF governing_ballots_ok] orders_ok[OF governing_ballots_ok] ext])
  fix a
  have none: "map_of (governing_ballots cand elig na) a = None \<longleftrightarrow>
      map_of (governing_ballots cand' elig' na') a = None"
    unfolding governing_ballots_dom assms by (rule refl)
  show "map_of (orders (governing_ballots cand elig na)) a =
      map_of (orders (governing_ballots cand' elig' na')) a"
  proof (cases "map_of (governing_ballots cand elig na) a")
    case None
    with none show ?thesis by (simp add: orders_lookup)
  next
    case (Some b)
    with none obtain b' where b': "map_of (governing_ballots cand' elig' na') a = Some b'" by auto
    from governs_same_order[OF governing_ballots_Some[OF Some, unfolded assms] governing_ballots_Some[OF b']]
    show ?thesis by (simp add: orders_lookup Some b')
  qed
qed

lemma governing_in_rows: "(k, b) \<in> set (governing_ballots cand elig na) \<Longrightarrow>
    b \<in> set (eligible_rows cand elig na) \<and> attesting_key_id b = k"
  using governing_ballots_Some[of cand elig na k b] map_of_is_SomeI[OF btree_distinct[OF governing_ballots_ok]]
  unfolding governs_def by blast

lemma dimension_rank: "is_ballot b \<Longrightarrow> envelope_str b ''dimension'' = Some DIMENSION_OVERRULED \<longleftrightarrow> uphold_rank b = 0"
  by (auto simp: is_ballot_def uphold_rank_def rq_dimensions)

lemma tally_orders:
  assumes "\<forall>b \<in> set cand. is_ballot b"
  shows "tally (governing_ballots cand elig na) =
    (length (filter (\<lambda>(k, t, r, i). r = 1) (orders (governing_ballots cand elig na))),
     length (filter (\<lambda>(k, t, r, i). r = 0) (orders (governing_ballots cand elig na))))"
proof -
  have "is_ballot b" if "(k, b) \<in> set (governing_ballots cand elig na)" for k b
    using governing_in_rows[OF that] assms by (auto simp: eligible_rows_def)
  then have "filter (\<lambda>(k, b). envelope_str b ''dimension'' = Some DIMENSION_OVERRULED)
      (governing_ballots cand elig na) = filter (\<lambda>x. uphold_rank (snd x) = 0) (governing_ballots cand elig na)"
    by (intro filter_cong) (auto simp: dimension_rank)
  moreover have "filter (\<lambda>(k, b). envelope_str b ''dimension'' = Some DIMENSION_UPHELD) g =
      filter (\<lambda>x. uphold_rank (snd x) = 1) g" for g :: "(string \<times> attestation) list"
    by (intro filter_cong) (auto simp: uphold_rank_def)
  ultimately show ?thesis
    by (simp add: tally_def orders_def filter_map comp_def case_prod_beta ballot_order_def)
qed

section \<open>Nodes holding the same rows agree\<close>

lemma eligible_rows_set_cong:
  "set cand = set cand' \<Longrightarrow> set (eligible_rows cand elig na) = set (eligible_rows cand' elig na)"
  by (auto simp: eligible_rows_def)

lemma orders_length: "length (orders g) = length g"
  by (simp add: orders_def)

lemma orders_ids: "map (attestation_id \<circ> snd) g = map (\<lambda>(k, t, r, i). i) (orders g)"
  by (simp add: orders_def ballot_order_def comp_def case_prod_beta)

lemma tally_cong:
  assumes "set cand = set cand'" "\<forall>b \<in> set cand. is_ballot b"
  shows "tally (governing_ballots cand elig na) = tally (governing_ballots cand' elig na)"
  using assms tally_orders[of cand elig na] tally_orders[of cand' elig na]
    governing_orders_cong[OF eligible_rows_set_cong[OF assms(1)]]
  by simp

lemma escalate_objection_cong:
  assumes "set ballots = set ballots'"
  shows "escalate_objection C sm action ob ballots roster duty policy now =
    escalate_objection C sm action ob ballots' roster duty policy now"
proof -
  let ?r = "filter (\<lambda>b. is_ballot_on b action ob now) ballots"
  let ?r' = "filter (\<lambda>b. is_ballot_on b action ob now) ballots'"
  have sets: "set ?r = set ?r'" and balls: "\<forall>b \<in> set ?r. is_ballot b"
    using assms by (auto simp: is_ballot_on_def)
  have ords: "orders (governing_ballots ?r e na) = orders (governing_ballots ?r' e na)" for e na
    by (rule governing_orders_cong[OF eligible_rows_set_cong[OF sets]])
  have "length (governing_ballots ?r e na) = length (governing_ballots ?r' e na)"
    "map (attestation_id \<circ> snd) (governing_ballots ?r e na) =
     map (attestation_id \<circ> snd) (governing_ballots ?r' e na)" for e na
    unfolding orders_length[symmetric] orders_ids ords by simp_all
  then show ?thesis
    by (simp add: escalate_objection_def Let_def tally_cong[OF sets balls])
qed

definition objection_live ::
  "(attestation \<Rightarrow> bool) \<Rightarrow> string set \<Rightarrow> (attestation \<Rightarrow> objection_escalation) option \<Rightarrow> attestation \<Rightarrow> bool"
  where
  "objection_live in_scope dismissed escalate ob \<longleftrightarrow>
     in_scope ob \<and> attestation_id ob \<notin> dismissed \<and>
     (case escalate of None \<Rightarrow> True | Some f \<Rightarrow> oe_outcome (f ob) \<noteq> Dismissed)"

lemma fold_step_objectors:
  "fa_objectors (fold (fold_step sc dis esc) obs acc) =
     fa_objectors acc \<union> attesting_key_id ` {ob \<in> set obs. objection_live sc dis esc ob}"
proof (induction obs arbitrary: acc)
  case (Cons ob obs)
  have "fa_objectors (fold_step sc dis esc ob acc) =
      fa_objectors acc \<union> (if objection_live sc dis esc ob then {attesting_key_id ob} else {})"
    by (auto simp: fold_step_def objection_live_def Let_def split: option.splits)
  then show ?case using Cons.IH[of "fold_step sc dis esc ob acc"] by auto
qed simp

lemma fold_step_lists:
  "fa_dismissed (fold (fold_step sc dis esc) obs acc) =
     fa_dismissed acc @ map attestation_id (filter (\<lambda>ob. sc ob \<and> attestation_id ob \<in> dis) obs)"
  "fa_escalated (fold (fold_step sc dis esc) obs acc) =
     fa_escalated acc @ map attestation_id (filter (\<lambda>ob. sc ob \<and> attestation_id ob \<notin> dis \<and>
       (case esc of None \<Rightarrow> False | Some f \<Rightarrow> oe_outcome (f ob) = Dismissed)) obs)"
  by (induction obs arbitrary: acc)
    (simp_all add: fold_step_def Let_def split: option.splits)

lemma escalate_of_cong:
  assumes "set (in_ballots inp) = set bs"
  shows "escalate_of C sm (inp\<lparr>in_objections := obs, in_dismissals := ds, in_ballots := bs\<rparr>) policy =
    escalate_of C sm inp policy"
  using escalate_objection_cong[OF assms] by (simp add: escalate_of_def split: option.splits)

lemma dismissed_names_cong: "set ds = set ds' \<Longrightarrow> dismissed_names ds = dismissed_names ds'"
  by (auto simp: dismissed_names_def map_filter_def)

text \<open>C18: Nodes holding the same rows agree: the standing of an action, the number of distinct objectors, the
  objections lifted by dismissal and those lifted by escalation are the same whatever order the rows
  arrived in and however often each was delivered.\<close>

theorem fold_converges:
  assumes obs: "set (in_objections inp) = set obs" and dis: "set (in_dismissals inp) = set ds"
    and bal: "set (in_ballots inp) = set bs"
  shows "let out = fold_reverse_quorum_over C sm inp;
      out' = fold_reverse_quorum_over C sm (inp\<lparr>in_objections := obs, in_dismissals := ds, in_ballots := bs\<rparr>) in
    rf_standing out = rf_standing out' \<and> rf_distinct_objectors out = rf_distinct_objectors out' \<and>
    rf_required out = rf_required out' \<and>
    set (rf_dismissed_objection_ids out) = set (rf_dismissed_objection_ids out') \<and>
    set (rf_escalated_dismissed_ids out) = set (rf_escalated_dismissed_ids out')"
proof (cases "in_policy inp")
  case None
  then show ?thesis by (simp add: fold_reverse_quorum_over_def Let_def)
next
  case (Some policy)
  have [simp]: "dismissed_names (in_dismissals inp) = dismissed_names ds"
    by (rule dismissed_names_cong[OF dis])
  show ?thesis
    unfolding fold_reverse_quorum_over_def
    by (simp add: Some Let_def case_prod_beta fold_step_objectors fold_step_lists fold_acc_empty_def
        escalate_of_cong[OF bal] obs)
qed

section \<open>The price of the escalated undo\<close>

lemma governing_keys_distinct: "distinct (map fst (governing_ballots cand elig na))"
  by (rule btree_distinct[OF governing_ballots_ok])

text \<open>The authors counted on one side of a tally, each with a ballot of that side among the candidates.\<close>

lemma tally_side:
  assumes "side = length (filter (\<lambda>(k, b). P b) (governing_ballots cand elig na))"
  shows "\<exists>S. finite S \<and> card S = side \<and> S \<subseteq> set elig \<and>
    (\<forall>k \<in> S. \<exists>b \<in> set cand. attesting_key_id b = k \<and> P b)"
proof -
  let ?f = "filter (\<lambda>(k, b). P b) (governing_ballots cand elig na)"
  let ?S = "set (map fst ?f)"
  have "distinct (map fst ?f)"
    using governing_keys_distinct by (rule distinct_map_filter)
  then have "card ?S = length ?f" using distinct_card[of "map fst ?f"] by simp
  moreover have "k \<in> set elig \<and> (\<exists>b \<in> set cand. attesting_key_id b = k \<and> P b)" if "k \<in> ?S" for k
  proof -
    obtain b where "(k, b) \<in> set (governing_ballots cand elig na)" "P b" using \<open>k \<in> ?S\<close> by auto
    then show ?thesis using governing_in_rows[of k b cand elig na] by (auto simp: eligible_rows_def)
  qed
  ultimately show ?thesis using assms by (intro exI[of _ ?S]) auto
qed

lemma escalation_verdict_Dismissed:
  "escalation_verdict st u v r = Dismissed \<longleftrightarrow> escalates st \<and> u < r \<and> r \<le> v"
  by (auto simp: escalation_verdict_def)

lemma steward_verdict_zero:
  "steward_verdict u v r passed none = Silent \<Longrightarrow> passed"
  "steward_verdict u v r passed none = NoDutyHolders \<Longrightarrow> passed"
  by (auto simp: steward_verdict_def split: if_splits)


section \<open>Recusal\<close>

lemma governing_ballots_recused:
  assumes "a \<notin> set elig"
  shows "governing_ballots (filter P (filter (\<lambda>b. attesting_key_id b \<noteq> a) cand)) elig na =
    governing_ballots (filter P cand) elig na"
proof -
  have "eligible_rows (filter P (filter (\<lambda>b. attesting_key_id b \<noteq> a) cand)) elig na =
      eligible_rows (filter P cand) elig na"
    unfolding eligible_rows_def filter_filter using assms by (intro filter_cong) auto
  then show ?thesis by (simp add: governing_ballots_alt)
qed

text \<open>The actor is recused: its own ballots change nothing, neither the stewards' ruling on an objection to
  its act nor the respondent pool, whether or not it is a steward or a roster member.\<close>

theorem actor_ballots_ignored:
  "escalate_objection C sm action ob
     (filter (\<lambda>b. attesting_key_id b \<noteq> actor_key_id action) ballots) roster duty policy now =
   escalate_objection C sm action ob ballots roster duty policy now"
  unfolding escalate_objection_def Let_def by (simp add: governing_ballots_recused del: filter_filter)

section \<open>What a standing counts\<close>

text \<open>C9: An action is reversed exactly when enough distinct current members hold a live objection to it: the
  count is of members, not rows, each objected within the window, and no counted objection was lifted
  by a verified dismissal or by the escalated pool.\<close>

theorem reversed_iff_distinct_members:
  assumes policy: "in_policy inp = Some p"
  shows "rf_standing (fold_reverse_quorum_over C sm inp) = Reversed \<longleftrightarrow>
    reversal_threshold p (length (in_roster inp)) \<le>
      card {k \<in> set (in_roster inp). \<exists>ob \<in> set (in_objections inp). attesting_key_id ob = k \<and>
        envelope_str ob ''dimension'' = Some DIMENSION_OBJECTION \<and>
        envelope_str ob OBJECTS_TO = Some (action_id (in_action inp)) \<and>
        asserted_at ob \<in> {action_asserted_at (in_action inp) ..
                          snd (rq_window C p (action_asserted_at (in_action inp)))} \<and>
        attestation_id ob \<notin> dismissed_names (in_dismissals inp) \<and>
        (case escalate_of C sm inp p of None \<Rightarrow> True | Some f \<Rightarrow> oe_outcome (f ob) \<noteq> Dismissed)}"
    (is "_ \<longleftrightarrow> _ \<le> card ?live")
proof -
  let ?sc = "objection_in_scope (in_action inp) (in_roster inp) (action_asserted_at (in_action inp))
    (snd (rq_window C p (action_asserted_at (in_action inp))))"
  have "?live = attesting_key_id ` {ob \<in> set (in_objections inp). objection_live ?sc
      (dismissed_names (in_dismissals inp)) (escalate_of C sm inp p) ob}"
    by (auto simp: objection_live_def objection_in_scope_def image_iff not_less)
  then show ?thesis
    by (simp add: fold_reverse_quorum_over_def policy Let_def rq_window_def fold_step_objectors
        fold_acc_empty_def)
qed

section \<open>Witnesses of the fold\<close>

definition ex_row :: "string \<Rightarrow> string \<Rightarrow> instant \<Rightarrow> json \<Rightarrow> attestation" where
  "ex_row i author t env =
     \<lparr> attestation_id = i, attesting_key_id = author, attested_key_id = ''x'',
       attestation_type = ''scores'', att_weight = None, asserted_at = t, att_expires_at = None,
       attestation_envelope = env, original_content_hash = '''', scrub_signature_classical = ''s'',
       scrub_signature_pqc = None, scrub_key_id = author, scrub_timestamp = t, pqc_completed_at = None,
       persist_row_hash = '''', subject_key_ids = [], withdraws_admission_rule = None,
       cohort_scope = ''community'', att_tier = TIER_FEDERATION, promoted_at = None,
       additional_scrubs = [] \<rparr>"

definition ex_action :: action_ref where
  "ex_action = \<lparr> actor_key_id = ''x'', action_id = ''act'', action_asserted_at = 0 \<rparr>"

definition ex_objection :: "string \<Rightarrow> string \<Rightarrow> attestation" where
  "ex_objection i author = ex_row i author 1 (objection_envelope Community ''g'' ''act'' '''')"

definition ex_ballot :: "string \<Rightarrow> string \<Rightarrow> instant \<Rightarrow> bool \<Rightarrow> attestation" where
  "ex_ballot i author t upholds =
     ex_row i author t (ballot_envelope Community ''g'' ''act'' ''o'' upholds '''')"

definition ex_ballots :: "attestation list" where
  "ex_ballots = [ex_ballot ''1'' ''b'' 3700000000000 False, ex_ballot ''2'' ''c'' 3700000000001 False,
     ex_ballot ''3'' ''d'' 3700000000002 False]"

abbreviation (input) ex_now :: instant where "ex_now \<equiv> 4000000000000"
abbreviation (input) ex_members :: "string list" where "ex_members \<equiv> [''a'', ''b'', ''c'', ''d'', ''x'']"

definition ex_inputs :: "attestation list \<Rightarrow> rq_inputs" where
  "ex_inputs obs =
     \<lparr> in_action = ex_action, in_objections = obs, in_dismissals = [], in_ballots = [],
       in_roster = ex_members, in_duty_holders = [''m''], in_policy = Some (ex_rq\<lparr>rq_steward := None\<rparr>),
       in_now = ex_now \<rparr>"

abbreviation (input) ex_sm' :: "nat \<Rightarrow> nat" where "ex_sm' \<equiv> (\<lambda>n. n div 2 + 1)"

lemmas row_eval = envelope_str_def ex_row_def ex_action_def ex_objection_def ex_ballot_def ex_ballots_def
  objection_envelope_def ballot_envelope_def rq_dimensions rq_fields

lemma ex_relevant:
  "filter (\<lambda>b. is_ballot_on b ex_action (ex_objection ''o'' ''a'') ex_now) ex_ballots = ex_ballots"
  by (simp add: is_ballot_on_def is_ballot_def row_eval)

lemma ex_ruling: "governing_ballots ex_ballots [''m''] na = []"
  by (simp add: governing_ballots_def row_eval)

lemma ex_pool:
  "governing_ballots ex_ballots [''a'', ''b'', ''c'', ''d''] None =
     map (\<lambda>b. (attesting_key_id b, b)) ex_ballots"
  by (simp add: governing_ballots_def ballot_order_def less_char_def row_eval)

lemma ex_tally: "tally [] = (0, 0)" "tally (map (\<lambda>b. (attesting_key_id b, b)) ex_ballots) = (0, 3)"
  by (simp_all add: tally_def row_eval)

lemma ex_deadline: "rq_steward_deadline chrono_std ex_rq 0 = Some 3660000000000"
  by (simp add: rq_steward_deadline_def rq_window_def add_secs_def chrono_std_def nanos_def i64_max_def
      ex_rq_def Let_def)

lemma ex_seats:
  "filter (\<lambda>k. k \<noteq> actor_key_id ex_action) ex_members = [''a'', ''b'', ''c'', ''d'']"
  "filter (\<lambda>k. k \<noteq> actor_key_id ex_action \<and> k \<noteq> attesting_key_id (ex_objection ''o'' ''a'')) [''m''] = [''m'']"
  "action_asserted_at ex_action = 0"
  by (simp_all add: ex_action_def ex_objection_def ex_row_def)

lemma ex_escalated:
  "oe_outcome (escalate_objection chrono_std ex_sm' ex_action (ex_objection ''o'' ''a'') ex_ballots
     ex_members [''m''] ex_rq ex_now) = Dismissed"
proof -
  have "length ex_ballots = 3" by (simp add: ex_ballots_def)
  then show ?thesis
    unfolding escalate_objection_def Let_def ex_seats ex_relevant ex_ruling ex_pool ex_tally ex_deadline
    by (simp add: steward_verdict_def steward_ruling_threshold_def escalation_verdict_def
        escalated_dismissal_required_def dismissal_threshold_def ESCALATION_RESPONDENT_FLOOR_def ex_rq_def)
qed


lemmas ex_fold_eval = fold_reverse_quorum_over_def fold_step_def fold_acc_empty_def objection_in_scope_def
  dismissed_names_def map_filter_def escalate_of_def ex_inputs_def rq_window_def add_secs_def
  chrono_std_def nanos_def i64_max_def ex_rq_def Let_def row_eval

theorem fold_converges_witness:
  "rf_standing (fold_reverse_quorum_over chrono_std ex_sm' (ex_inputs [ex_objection ''o1'' ''a'', ex_objection ''o2'' ''b''])) =
   rf_standing (fold_reverse_quorum_over chrono_std ex_sm'
     ((ex_inputs [ex_objection ''o1'' ''a'', ex_objection ''o2'' ''b''])
       \<lparr>in_objections := [ex_objection ''o2'' ''b'', ex_objection ''o1'' ''a'', ex_objection ''o2'' ''b''],
        in_dismissals := [], in_ballots := []\<rparr>))"
  using fold_converges[of "ex_inputs [ex_objection ''o1'' ''a'', ex_objection ''o2'' ''b'']"
      "[ex_objection ''o2'' ''b'', ex_objection ''o1'' ''a'', ex_objection ''o2'' ''b'']" "[]" "[]"
      chrono_std ex_sm']
  by (simp add: ex_inputs_def Let_def insert_commute)

theorem reversed_iff_distinct_members_witness:
  "rf_standing (fold_reverse_quorum_over chrono_std ex_sm'
     (ex_inputs [ex_objection ''o1'' ''a'', ex_objection ''o2'' ''a''])) \<noteq> Reversed"
proof -
  let ?inp = "ex_inputs [ex_objection ''o1'' ''a'', ex_objection ''o2'' ''a'']"
  have pol: "in_policy ?inp = Some (ex_rq\<lparr>rq_steward := None\<rparr>)" by (simp add: ex_inputs_def)
  have "{k \<in> set (in_roster ?inp). \<exists>ob \<in> set (in_objections ?inp). attesting_key_id ob = k \<and> Q ob} \<subseteq> {''a''}" for Q
    by (auto simp: ex_inputs_def ex_objection_def ex_row_def)
  then have "card {k \<in> set (in_roster ?inp). \<exists>ob \<in> set (in_objections ?inp). attesting_key_id ob = k \<and> Q ob} \<le> 1" for Q
    using card_mono[of "{''a''}"] by fastforce
  then show ?thesis
    unfolding reversed_iff_distinct_members[OF pol] not_le
    by (rule le_less_trans) (simp add: reversal_threshold_def ex_inputs_def ex_rq_def)
qed

text \<open>The evidence list of a fold, unlike its standing, depends on the order the rows were read in: when one
  member authored two objections, the id reported is that of whichever row came first.\<close>

theorem counted_ids_depend_on_order:
  "rf_counted_objection_ids (fold_reverse_quorum_over chrono_std ex_sm'
     (ex_inputs [ex_objection ''o1'' ''a'', ex_objection ''o2'' ''a''])) = [''o1''] \<and>
   rf_counted_objection_ids (fold_reverse_quorum_over chrono_std ex_sm'
     (ex_inputs [ex_objection ''o2'' ''a'', ex_objection ''o1'' ''a''])) = [''o2'']"
  by (simp add: ex_fold_eval)

end
