(* ===== verification/Utf8_Text.thy ===== *)
theory Utf8_Text
  imports Persist_Prelude
begin

text \<open>
  Byte strings as text: the validity test of \<open>String::from_utf8\<close>, the character count of
  \<open>str::chars\<close>, and the first \<open>n\<close> characters as the SQL function \<open>substr\<close> takes them. A \<^typ>\<open>string\<close>
  is a list of bytes, ordered bytewise.
\<close>

abbreviation byte :: "char \<Rightarrow> nat" where
  "byte c \<equiv> of_char c"

lemma byte_less: "byte c < 256"
  by (metis mod_less_divisor of_char_mod_256 zero_less_numeral)

definition is_cont :: "char \<Rightarrow> bool" where
  "is_cont c \<longleftrightarrow> 128 \<le> byte c \<and> byte c < 192"

definition second_ok :: "nat \<Rightarrow> char \<Rightarrow> bool" where
  "second_ok a b \<longleftrightarrow> is_cont b \<and> (a = 0xE0 \<longrightarrow> 0xA0 \<le> byte b) \<and> (a = 0xED \<longrightarrow> byte b \<le> 0x9F) \<and>
     (a = 0xF0 \<longrightarrow> 0x90 \<le> byte b) \<and> (a = 0xF4 \<longrightarrow> byte b \<le> 0x8F)"

text \<open>The length of the well-formed sequence a byte string starts with.\<close>

fun utf8_lead :: "string \<Rightarrow> nat option" where
  "utf8_lead [] = None"
| "utf8_lead (a # t) =
     (let n = byte a in
      if n < 128 then Some 1
      else if 0xC2 \<le> n \<and> n \<le> 0xDF
      then (case t of b # _ \<Rightarrow> if is_cont b then Some 2 else None | _ \<Rightarrow> None)
      else if 0xE0 \<le> n \<and> n \<le> 0xEF
      then (case t of b # c # _ \<Rightarrow> if second_ok n b \<and> is_cont c then Some 3 else None | _ \<Rightarrow> None)
      else if 0xF0 \<le> n \<and> n \<le> 0xF4
      then (case t of b # c # d # _ \<Rightarrow>
              if second_ok n b \<and> is_cont c \<and> is_cont d then Some 4 else None
            | _ \<Rightarrow> None)
      else None)"

lemma utf8_lead_bounds: "utf8_lead s = Some n \<Longrightarrow> 0 < n \<and> n \<le> length s"
  by (cases s) (auto simp: Let_def split: if_splits list.splits)

lemma utf8_lead_append: "utf8_lead s = Some n \<Longrightarrow> utf8_lead (s @ r) = Some n"
  by (cases s) (auto simp: Let_def split: if_splits list.splits)

lemma utf8_lead_not_cont: "utf8_lead (a # t) = Some n \<Longrightarrow> \<not> is_cont a"
  by (auto simp: is_cont_def Let_def split: if_splits)

function utf8 :: "string \<Rightarrow> bool" where
  "utf8 s = (if s = [] then True else case utf8_lead s of None \<Rightarrow> False | Some n \<Rightarrow> utf8 (drop n s))"
  by pat_completeness auto
termination
proof (relation "measure length", goal_cases)
  case (2 s n)
  then show ?case using utf8_lead_bounds[of s n] by auto
qed simp

declare utf8.simps [simp del]

lemma utf8_Nil [simp]: "utf8 []"
  by (subst utf8.simps) simp

lemma utf8_hd: "utf8 s \<Longrightarrow> s \<noteq> [] \<Longrightarrow> \<not> is_cont (hd s)"
  by (subst (asm) utf8.simps) (cases s; auto simp del: utf8_lead.simps dest: utf8_lead_not_cont split: option.splits)

text \<open>Validity is prefix-cancelling: cutting a valid prefix off a valid string leaves a valid string.\<close>

lemma utf8_cancel: "utf8 p \<Longrightarrow> utf8 (p @ r) \<Longrightarrow> utf8 r"
proof (induction p rule: utf8.induct)
  case (1 p)
  show ?case
  proof (cases "p = []")
    case False
    then obtain n where n: "utf8_lead p = Some n" and rest: "utf8 (drop n p)"
      using "1.prems"(1) by (subst (asm) utf8.simps) (auto split: option.splits)
    have "utf8 (drop n (p @ r))"
      using "1.prems"(2) False utf8_lead_append[OF n, of r] by (subst (asm) utf8.simps) auto
    then have "utf8 (drop n p @ r)" using utf8_lead_bounds[OF n] by simp
    then show ?thesis using "1.IH"[OF False n rest] by simp
  qed (use "1.prems" in simp)
qed

definition char_count :: "string \<Rightarrow> nat" where
  "char_count s = length (filter (\<lambda>c. \<not> is_cont c) s)"

fun take_chars :: "nat \<Rightarrow> string \<Rightarrow> string" where
  "take_chars 0 s = []"
| "take_chars (Suc n) [] = []"
| "take_chars (Suc n) (c # cs) =
     c # takeWhile is_cont cs @ take_chars n (dropWhile is_cont cs)"

lemma take_chars_prefix: "\<exists>r. s = take_chars n s @ r"
proof (induction n s rule: take_chars.induct)
  case (3 n c cs)
  then obtain r where "dropWhile is_cont cs = take_chars n (dropWhile is_cont cs) @ r" by blast
  then show ?case by (metis append.assoc append_Cons take_chars.simps(3) takeWhile_dropWhile_id)
qed auto

lemma char_count_dropWhile: "char_count (dropWhile is_cont s) = char_count s"
  by (induction s) (auto simp: char_count_def)

lemma takeWhile_cut: "r = [] \<or> \<not> P (hd r) \<Longrightarrow> takeWhile P (cs @ r) = takeWhile P cs"
  by (induction cs) (cases r; auto)+

lemma dropWhile_cut: "r = [] \<or> \<not> P (hd r) \<Longrightarrow> dropWhile P (cs @ r) = dropWhile P cs @ r"
  by (induction cs) (cases r; auto)+

lemma take_chars_whole:
  "p = [] \<or> \<not> is_cont (hd p) \<Longrightarrow> r = [] \<or> \<not> is_cont (hd r) \<Longrightarrow> take_chars (char_count p) (p @ r) = p"
proof (induction "length p" arbitrary: p rule: less_induct)
  case less
  show ?case
  proof (cases p)
    case Nil
    then show ?thesis by (simp add: char_count_def)
  next
    case (Cons c cs)
    define q where "q = dropWhile is_cont cs"
    have head: "\<not> is_cont c" using less.prems Cons by simp
    have "takeWhile is_cont (cs @ r) = takeWhile is_cont cs" "dropWhile is_cont (cs @ r) = q @ r"
      using less.prems(2) by (simp_all add: takeWhile_cut dropWhile_cut q_def)
    moreover have "char_count p = Suc (char_count q)"
      using head by (simp add: Cons q_def char_count_dropWhile) (simp add: char_count_def)
    moreover have "take_chars (char_count q) (q @ r) = q"
    proof (rule less.hyps)
      show "length q < length p" by (simp add: Cons q_def length_dropWhile_le le_imp_less_Suc)
      show "q = [] \<or> \<not> is_cont (hd q)" using hd_dropWhile[of is_cont cs] by (auto simp: q_def)
    qed (rule less.prems)
    ultimately show ?thesis using takeWhile_dropWhile_id[of is_cont cs] by (simp add: Cons q_def)
  qed
qed

text \<open>On valid text, comparing the leading characters with a string tests a byte prefix.\<close>

lemma substr_is_prefix:
  assumes "utf8 p" "utf8 s"
  shows "take_chars (char_count p) s = p \<longleftrightarrow> starts_with p s"
proof
  assume "take_chars (char_count p) s = p"
  then show "starts_with p s" using take_chars_prefix[of s "char_count p"] by (auto simp: starts_with_iff)
next
  assume "starts_with p s"
  then obtain r where s: "s = p @ r" by (auto simp: starts_with_iff)
  then have "utf8 r" using assms utf8_cancel by blast
  then show "take_chars (char_count p) s = p"
    unfolding s using assms(1) utf8_hd by (intro take_chars_whole) blast+
qed

section \<open>Trimming and splitting\<close>

text \<open>\<open>str::trim\<close> removes the characters with the Unicode \<open>White_Space\<close> property, given here by
  their encodings.\<close>

definition is_ws :: "string \<Rightarrow> bool" where
  "is_ws s \<longleftrightarrow> (let b = map byte s in
     (\<exists>x \<in> {9, 10, 11, 12, 13, 32}. b = [x]) \<or> b = [194, 133] \<or> b = [194, 160] \<or> b = [225, 154, 128] \<or>
     (length b = 3 \<and> take 2 b = [226, 128] \<and> (b ! 2 \<in> {128..138} \<or> b ! 2 \<in> {168, 169, 175})) \<or>
     b = [226, 129, 159] \<or> b = [227, 128, 128])"

function trim_start :: "string \<Rightarrow> string" where
  "trim_start s =
     (if is_ws (take 1 s) \<and> s \<noteq> [] then trim_start (drop 1 s)
      else if is_ws (take 2 s) \<and> s \<noteq> [] then trim_start (drop 2 s)
      else if is_ws (take 3 s) \<and> s \<noteq> [] then trim_start (drop 3 s)
      else s)"
  by pat_completeness auto
termination by (relation "measure length") auto

function trim_end :: "string \<Rightarrow> string" where
  "trim_end s =
     (let n = length s in
      if is_ws (drop (n - 1) s) \<and> s \<noteq> [] then trim_end (take (n - 1) s)
      else if is_ws (drop (n - 2) s) \<and> s \<noteq> [] then trim_end (take (n - 2) s)
      else if is_ws (drop (n - 3) s) \<and> s \<noteq> [] then trim_end (take (n - 3) s)
      else s)"
  by pat_completeness auto
termination by (relation "measure length") auto

declare trim_start.simps [simp del]
declare trim_end.simps [simp del]

definition trim :: "string \<Rightarrow> string" where
  "trim s = trim_end (trim_start s)"

fun split_on :: "char \<Rightarrow> string \<Rightarrow> string list" where
  "split_on c [] = [[]]"
| "split_on c (x # xs) = (if x = c then [] # split_on c xs else (x # hd (split_on c xs)) # tl (split_on c xs))"

end
