(* ===== verification/Attestation_Query.thy ===== *)
theory Attestation_Query
  imports Federation_Types Utf8_Text "HOL-Library.Product_Lexorder"
begin

text \<open>
  The typed bounded attestation read (\<open>src/src/federation/attestation_query.rs\<close>): the query and its
  builders, the refusals of \<open>validate\<close>, the predicate \<open>admits\<close>, the page cut and cursor of
  \<open>query_attestations\<close>, the page walk of \<open>Pages::next\<close>, and the statement \<open>render_sql\<close> plans for sqlite
  and postgres, with the half-open byte range of \<open>dimension_prefix_bounds\<close>
  (\<open>src/src/ceg/list/federation.rs\<close>).

  The executor of a backend is a function from a query to its rows; the read counters of
  \<open>record_query_read\<close> are telemetry and are left out. A statement is kept as the list of its
  conjuncts (\<open>clause\<close>): \<open>clause_sql\<close> prints each with its binds as the code does, and \<open>sql_truth\<close> is
  its meaning in SQL's three-valued logic. The lemmas show that the planned statement selects exactly
  what \<open>admits\<close> admits, and that walking the pages of any executor with that contract ends and
  returns every admitted row once, in order.
\<close>

section \<open>The query\<close>

record attestation_cursor =
  cur_version :: string
  last_asserted_at :: instant
  last_attestation_id :: string

definition from_trailing :: "instant \<Rightarrow> string \<Rightarrow> attestation_cursor" where
  "from_trailing t i = \<lparr> cur_version = ''v1'', last_asserted_at = t, last_attestation_id = i \<rparr>"

definition MAX_PAGE :: nat where "MAX_PAGE = 10000"
definition FOLD_PAGE :: nat where "FOLD_PAGE = 500"

datatype dimension_filter = AnyDim | Prefix string | Exact string | AnyOf "string list"

record scope_filter =
  sf_cohort_scope :: string
  sf_cohort_target :: "string option"

datatype query_tier = FederationTier | LocalTier

fun tier_stored :: "query_tier \<Rightarrow> string" where
  "tier_stored FederationTier = TIER_FEDERATION"
| "tier_stored LocalTier = TIER_LOCAL"

datatype direction = Asc | Desc

datatype query_order = ByAssertedAt direction

fun order_direction :: "query_order \<Rightarrow> direction" where
  "order_direction (ByAssertedAt d) = d"

record attestation_query =
  q_by :: "string option"
  q_to :: "string option"
  q_dimension :: dimension_filter
  q_types :: "string list"
  q_type_prefix :: "string option"
  q_excluded_dimensions :: "string list"
  q_tier :: query_tier
  q_order :: query_order
  q_limit :: nat
  q_after :: "attestation_cursor option"
  q_as_of :: "instant option"
  q_scope :: "scope_filter option"

definition pinned :: "string option \<Rightarrow> string option \<Rightarrow> nat \<Rightarrow> attestation_query" where
  "pinned by to limit =
     \<lparr> q_by = by, q_to = to, q_dimension = AnyDim, q_types = [], q_type_prefix = None,
       q_excluded_dimensions = [], q_tier = FederationTier, q_order = ByAssertedAt Desc,
       q_limit = limit, q_after = None, q_as_of = None, q_scope = None \<rparr>"

definition query_by :: "string \<Rightarrow> nat \<Rightarrow> attestation_query" where
  "query_by k limit = pinned (Some k) None limit"

definition query_to :: "string \<Rightarrow> nat \<Rightarrow> attestation_query" where
  "query_to k limit = pinned None (Some k) limit"

definition authored_by :: "string \<Rightarrow> attestation_query \<Rightarrow> attestation_query" where
  "authored_by k q = q\<lparr>q_by := Some k\<rparr>"

definition attested_to :: "string \<Rightarrow> attestation_query \<Rightarrow> attestation_query" where
  "attested_to k q = q\<lparr>q_to := Some k\<rparr>"

definition dimension_prefix :: "string \<Rightarrow> attestation_query \<Rightarrow> attestation_query" where
  "dimension_prefix p q = q\<lparr>q_dimension := Prefix p\<rparr>"

definition query_dimension :: "string \<Rightarrow> attestation_query \<Rightarrow> attestation_query" where
  "query_dimension d q = q\<lparr>q_dimension := Exact d\<rparr>"

definition dimension_any_of :: "string list \<Rightarrow> attestation_query \<Rightarrow> attestation_query" where
  "dimension_any_of ds q = q\<lparr>q_dimension := AnyOf ds\<rparr>"

definition query_scope :: "string \<Rightarrow> string option \<Rightarrow> attestation_query \<Rightarrow> attestation_query" where
  "query_scope c t q = q\<lparr>q_scope := Some \<lparr> sf_cohort_scope = c, sf_cohort_target = t \<rparr>\<rparr>"

definition query_types :: "string list \<Rightarrow> attestation_query \<Rightarrow> attestation_query" where
  "query_types ts q = q\<lparr>q_types := ts\<rparr>"

definition type_prefix :: "string \<Rightarrow> attestation_query \<Rightarrow> attestation_query" where
  "type_prefix p q = q\<lparr>q_type_prefix := Some p\<rparr>"

definition excluding_dimensions :: "string list \<Rightarrow> attestation_query \<Rightarrow> attestation_query" where
  "excluding_dimensions ds q = q\<lparr>q_excluded_dimensions := ds\<rparr>"

definition query_with_tier :: "query_tier \<Rightarrow> attestation_query \<Rightarrow> attestation_query" where
  "query_with_tier t q = q\<lparr>q_tier := t\<rparr>"

definition query_ordered :: "query_order \<Rightarrow> attestation_query \<Rightarrow> attestation_query" where
  "query_ordered ord q = q\<lparr>q_order := ord\<rparr>"

definition query_after :: "attestation_cursor option \<Rightarrow> attestation_query \<Rightarrow> attestation_query" where
  "query_after c q = q\<lparr>q_after := c\<rparr>"

definition query_as_of :: "instant \<Rightarrow> attestation_query \<Rightarrow> attestation_query" where
  "query_as_of t q = q\<lparr>q_as_of := Some t\<rparr>"

definition oldest_first :: "attestation_query \<Rightarrow> attestation_query" where
  "oldest_first q = q\<lparr>q_order := ByAssertedAt Asc\<rparr>"

definition is_narrowed :: "attestation_query \<Rightarrow> bool" where
  "is_narrowed q \<longleftrightarrow> q_types q \<noteq> [] \<or> q_type_prefix q \<noteq> None \<or> q_dimension q \<noteq> AnyDim \<or>
     q_excluded_dimensions q \<noteq> [] \<or> q_scope q \<noteq> None"

definition seeks_narrow_index :: "attestation_query \<Rightarrow> bool" where
  "seeks_narrow_index q \<longleftrightarrow> q_types q \<noteq> [] \<or> q_type_prefix q \<noteq> None \<or> q_dimension q \<noteq> AnyDim \<or>
     (q_scope q \<noteq> None \<and> q_to q \<noteq> None)"

definition query_shape :: "attestation_query \<Rightarrow> string" where
  "query_shape q =
     (if q_tier q = LocalTier then ''list_local_tier_attestations''
      else
        let to = q_to q \<noteq> None; dim = q_dimension q \<noteq> AnyDim in
        if q_type_prefix q \<noteq> None \<and> \<not> dim
        then (if to then ''list_attestations_for_types'' else ''list_attestations_by_types'')
        else if dim
        then (if to then ''list_attestations_for_dimension_prefix''
              else ''list_attestations_by_dimension_prefix'')
        else if length (q_types q) = 0
        then (if to then ''list_attestations_for'' else ''list_attestations_by'')
        else if length (q_types q) = 1 \<and> q_excluded_dimensions q = []
        then (if to then ''list_attestations_for_type'' else ''list_attestations_by_type'')
        else (if to then ''list_attestations_for_types'' else ''list_attestations_by_types''))"

definition query_key :: "attestation_query \<Rightarrow> string" where
  "query_key q = (case q_by q of Some k \<Rightarrow> k | None \<Rightarrow> (case q_to q of Some k \<Rightarrow> k | None \<Rightarrow> ''*''))"

definition validate :: "attestation_query \<Rightarrow> fed_error + unit" where
  "validate q =
     (if q_by q = None \<and> q_to q = None
      then Inl (InvalidArgument ''AttestationQuery pins no key (by or to)'')
      else if q_limit q > MAX_PAGE
      then Inl (InvalidArgument
             (''AttestationQuery limit '' @ show_nat (q_limit q) @ '' exceeds '' @ show_nat MAX_PAGE))
      else if q_dimension q = AnyOf []
      then Inl (InvalidArgument ''AttestationQuery DimensionFilter::AnyOf names no dimension'')
      else
        (case q_after q of
           Some c \<Rightarrow>
             if cur_version c \<noteq> ''v1''
             then Inl (InvalidArgument
                    (''AttestationCursor version '' @ cur_version c @ '' unsupported; v1 only''))
             else Inr ()
         | None \<Rightarrow> Inr ()))"

section \<open>The predicate and the order\<close>

fun find_map :: "('a \<Rightarrow> 'b option) \<Rightarrow> 'a list \<Rightarrow> 'b option" where
  "find_map f [] = None"
| "find_map f (x # xs) = (case f x of Some y \<Rightarrow> Some y | None \<Rightarrow> find_map f xs)"

definition envelope_dimension :: "json \<Rightarrow> string option" where
  "envelope_dimension env = Option.bind (json_get env ''dimension'') as_str"

definition cohort_target_fields :: "string list" where
  "cohort_target_fields = [''community_id'', ''community_key_id'', ''cohort_key_id'', ''family_key_id'']"

definition cohort_target_of_envelope :: "json \<Rightarrow> string option" where
  "cohort_target_of_envelope env = find_map (\<lambda>k. Option.bind (json_get env k) as_str) cohort_target_fields"

definition row_key :: "attestation \<Rightarrow> instant \<times> string" where
  "row_key a = (asserted_at a, attestation_id a)"

definition cursor_key :: "attestation_cursor \<Rightarrow> instant \<times> string" where
  "cursor_key c = (last_asserted_at c, last_attestation_id c)"

fun precedes :: "direction \<Rightarrow> instant \<times> string \<Rightarrow> instant \<times> string \<Rightarrow> bool" where
  "precedes Asc x y \<longleftrightarrow> x < y"
| "precedes Desc x y \<longleftrightarrow> y < x"

definition admits :: "attestation_query \<Rightarrow> attestation \<Rightarrow> bool" where
  "admits q a \<longleftrightarrow>
     (let dimension = envelope_dimension (attestation_envelope a) in
      is_none_or (q_by q) (\<lambda>k. attesting_key_id a = k) \<and>
      is_none_or (q_to q) (\<lambda>k. attested_key_id a = k) \<and>
      att_tier a = tier_stored (q_tier q) \<and>
      (case q_dimension q of
         AnyDim \<Rightarrow> True
       | Prefix p \<Rightarrow> (case dimension of None \<Rightarrow> False | Some d \<Rightarrow> starts_with p d)
       | Exact x \<Rightarrow> dimension = Some x
       | AnyOf xs \<Rightarrow> (case dimension of None \<Rightarrow> False | Some d \<Rightarrow> d \<in> set xs)) \<and>
      is_none_or (q_scope q) (\<lambda>s. cohort_scope a = sf_cohort_scope s \<and>
        is_none_or (sf_cohort_target s) (\<lambda>t. cohort_target_of_envelope (attestation_envelope a) = Some t)) \<and>
      (q_types q = [] \<or> attestation_type a \<in> set (q_types q)) \<and>
      is_none_or (q_type_prefix q) (\<lambda>p. starts_with p (attestation_type a)) \<and>
      \<not> (case dimension of None \<Rightarrow> False | Some d \<Rightarrow> d \<in> set (q_excluded_dimensions q)) \<and>
      is_none_or (q_as_of q) (\<lambda>t. asserted_at a \<le> t) \<and>
      is_none_or (q_after q) (\<lambda>c. precedes (order_direction (q_order q)) (cursor_key c) (row_key a)))"

fun sort_rows :: "direction \<Rightarrow> attestation list \<Rightarrow> attestation list" where
  "sort_rows Asc rows = sort_key row_key rows"
| "sort_rows Desc rows = rev (sort_key row_key (rev rows))"

definition query_sort :: "attestation_query \<Rightarrow> attestation list \<Rightarrow> attestation list" where
  "query_sort q rows = sort_rows (order_direction (q_order q)) rows"

definition fetch :: "attestation_query \<Rightarrow> nat" where
  "fetch q = q_limit q + 1"

section \<open>One page\<close>

record page =
  page_rows :: "attestation list"
  page_next :: "attestation_cursor option"

datatype not_served_reason = ReadRefused fed_error | ReadFault fed_error

fun into_error :: "not_served_reason \<Rightarrow> fed_error" where
  "into_error (ReadRefused e) = e"
| "into_error (ReadFault e) = e"

datatype read_outcome = Served page | NotServed not_served_reason

fun served :: "read_outcome \<Rightarrow> fed_error + page" where
  "served (Served p) = Inr p"
| "served (NotServed r) = Inl (into_error r)"

type_synonym query_exec = "attestation_query \<Rightarrow> fed_error + attestation list"

definition query_attestations :: "query_exec \<Rightarrow> attestation_query \<Rightarrow> read_outcome" where
  "query_attestations exec q =
     (case validate q of
        Inl e \<Rightarrow> NotServed (ReadRefused e)
      | Inr _ \<Rightarrow>
          (case exec q of
             Inl e \<Rightarrow> (case e of Unsupported _ \<Rightarrow> NotServed (ReadRefused e) | _ \<Rightarrow> NotServed (ReadFault e))
           | Inr rows \<Rightarrow>
               if length rows > fetch q
               then NotServed (ReadFault (Backend
                 (''execute_attestation_query returned '' @ show_nat (length rows - fetch q) @
                  '' rows past its page of '' @ show_nat (fetch q) @
                  '' (limit '' @ show_nat (q_limit q) @ '' + 1)'')))
               else
                 let limit = q_limit q in
                 if length rows > limit
                 then let rows = take limit rows in
                      Served \<lparr> page_rows = rows,
                        page_next = (if rows = [] then None
                                     else Some (from_trailing (asserted_at (last rows)) (attestation_id (last rows)))) \<rparr>
                 else Served \<lparr> page_rows = rows, page_next = None \<rparr>))"

section \<open>The walk over the pages\<close>

record pages =
  pg_query :: attestation_query
  pg_done :: bool
  pg_last :: "attestation_cursor option"

definition query_pages :: "attestation_query \<Rightarrow> pages" where
  "query_pages q = \<lparr> pg_query = q, pg_done = False, pg_last = None \<rparr>"

definition pages_next :: "query_exec \<Rightarrow> pages \<Rightarrow> pages \<times> (fed_error + attestation list option)" where
  "pages_next exec p =
     (if pg_done p then (p, Inr None)
      else
        (case served (query_attestations exec (pg_query p)) of
           Inl e \<Rightarrow> (p, Inl e)
         | Inr page \<Rightarrow>
             (case page_next page of
                Some c \<Rightarrow>
                  if pg_last p = Some c
                  then (p, Inl (Backend ''attestation query cursor did not advance''))
                  else (p\<lparr>pg_last := Some c, pg_query := (pg_query p)\<lparr>q_after := Some c\<rparr>\<rparr>,
                        Inr (Some (page_rows page)))
              | None \<Rightarrow> (p\<lparr>pg_done := True\<rparr>, Inr (Some (page_rows page))))))"

text \<open>
  The loop every fold writes, \<open>while let Some(page) = pages.next(dir)\<close>: not returning is the value
  \<^const>\<open>None\<close>.
\<close>

partial_function (option) walk ::
    "query_exec \<Rightarrow> pages \<Rightarrow> attestation list \<Rightarrow> (fed_error + attestation list) option" where
  "walk exec p acc =
     (case pages_next exec p of
        (p', r) \<Rightarrow>
          (case r of
             Inl e \<Rightarrow> Some (Inl e)
           | Inr None \<Rightarrow> Some (Inr acc)
           | Inr (Some rows) \<Rightarrow> walk exec p' (acc @ rows)))"

section \<open>The planned statement\<close>

text \<open>
  The successor of a byte prefix: the last byte that can be incremented is, and what follows it is
  dropped. The bytes are popped from the end, so the loop runs over the reversed prefix.
\<close>

fun bump :: "string \<Rightarrow> string option" where
  "bump [] = None"
| "bump (b # bs) = (if byte b = 255 then bump bs else Some (rev (char_of (byte b + 1) # bs)))"

definition dimension_prefix_bounds :: "string \<Rightarrow> (string \<times> string) option" where
  "dimension_prefix_bounds p =
     (if p = [] then None
      else
        (case bump (rev p) of
           None \<Rightarrow> None
         | Some upper \<Rightarrow> if utf8 upper then Some (p, upper) else None))"

datatype dialect = Sqlite | Postgres

datatype bind = BText string | BTime instant | BInt int

record statement =
  st_sql :: string
  st_binds :: "bind list"

datatype col = ColAttesting | ColAttested | ColDimension | ColScope | ColTarget | ColType

datatype clause =
    EqCol col string
  | TierIs string
  | RangeCol col string string
  | SubstrCol col nat string
  | InCol col "string list"
  | NotInDimension "string list"
  | AsOf instant
  | After direction instant string

definition prefix_clause :: "col \<Rightarrow> string \<Rightarrow> clause" where
  "prefix_clause c p =
     (case dimension_prefix_bounds p of
        Some (lo, hi) \<Rightarrow> RangeCol c lo hi
      | None \<Rightarrow> SubstrCol c (char_count p) p)"

definition opt_list :: "('a \<Rightarrow> 'b) \<Rightarrow> 'a option \<Rightarrow> 'b list" where
  "opt_list f x = (case x of None \<Rightarrow> [] | Some y \<Rightarrow> [f y])"

definition plan :: "attestation_query \<Rightarrow> clause list" where
  "plan q =
     opt_list (EqCol ColAttesting) (q_by q) @
     opt_list (EqCol ColAttested) (q_to q) @
     [TierIs (tier_stored (q_tier q))] @
     (case q_dimension q of
        AnyDim \<Rightarrow> []
      | Prefix p \<Rightarrow> [prefix_clause ColDimension p]
      | Exact x \<Rightarrow> [EqCol ColDimension x]
      | AnyOf xs \<Rightarrow> [InCol ColDimension xs]) @
     (case q_scope q of
        None \<Rightarrow> []
      | Some s \<Rightarrow> EqCol ColScope (sf_cohort_scope s) # opt_list (EqCol ColTarget) (sf_cohort_target s)) @
     (if q_types q = [] then [] else [InCol ColType (q_types q)]) @
     opt_list (prefix_clause ColType) (q_type_prefix q) @
     (if q_excluded_dimensions q = [] then [] else [NotInDimension (q_excluded_dimensions q)]) @
     opt_list AsOf (q_as_of q) @
     opt_list (\<lambda>c. After (order_direction (q_order q)) (last_asserted_at c) (last_attestation_id c)) (q_after q)"

text \<open>How each conjunct is printed: the text, with its binds pushed in order.\<close>

definition collate :: "dialect \<Rightarrow> string" where
  "collate d = (case d of Sqlite \<Rightarrow> [] | Postgres \<Rightarrow> '' COLLATE '' @ [CHR 0x22, CHR ''C'', CHR 0x22])"

fun col_name :: "col \<Rightarrow> string" where
  "col_name ColAttesting = ''attesting_key_id''"
| "col_name ColAttested = ''attested_key_id''"
| "col_name ColDimension = ''dimension''"
| "col_name ColScope = ''cohort_scope''"
| "col_name ColTarget = ''cohort_target''"
| "col_name ColType = ''attestation_type''"

fun id_text :: "dialect \<Rightarrow> string" where
  "id_text Sqlite = ''attestation_id''"
| "id_text Postgres = ''attestation_id::text'' @ collate Postgres"

fun dim_text :: "dialect \<Rightarrow> col \<Rightarrow> string" where
  "dim_text d ColDimension = ''dimension'' @ collate d"
| "dim_text d c = col_name c"

definition ph :: "dialect \<Rightarrow> bind list \<Rightarrow> string" where
  "ph d binds = (case d of Sqlite \<Rightarrow> ''?'' | Postgres \<Rightarrow> ''$'') @ show_nat (length binds)"

fun push_list :: "dialect \<Rightarrow> bind list \<Rightarrow> string list \<Rightarrow> bind list \<times> string list" where
  "push_list d binds [] = (binds, [])"
| "push_list d binds (x # xs) =
     (let binds = binds @ [BText x]; p = ph d binds; (binds, phs) = push_list d binds xs
      in (binds, p # phs))"

fun clause_sql :: "dialect \<Rightarrow> string \<Rightarrow> bind list \<Rightarrow> clause \<Rightarrow> bind list \<times> string" where
  "clause_sql d pin binds (EqCol c v) =
     (let binds = binds @ [BText v] in (binds, dim_text d c @ '' = '' @ ph d binds))"
| "clause_sql d pin binds (TierIs t) = (binds, ''tier = '' @ [CHR 0x27] @ t @ [CHR 0x27])"
| "clause_sql d pin binds (RangeCol c lo hi) =
     (let binds = binds @ [BText lo]; a = ph d binds; binds = binds @ [BText hi]; b = ph d binds;
          x = col_name c @ collate d
      in (binds, ''('' @ x @ '' >= '' @ a @ '' AND '' @ x @ '' < '' @ b @ '')''))"
| "clause_sql d pin binds (SubstrCol c n p) =
     (let binds = binds @ [BText p]
      in (binds, ''substr('' @ col_name c @ '', 1, '' @ show_nat n @ '') = '' @ ph d binds))"
| "clause_sql d pin binds (InCol c vs) =
     (let (binds, phs) = push_list d binds vs
      in (binds, dim_text d c @ '' IN ('' @ (if phs = [] then ''NULL'' else join '', '' phs) @ '')''))"
| "clause_sql d pin binds (NotInDimension vs) =
     (let (binds, phs) = push_list d binds vs
      in (binds, ''(dimension IS NULL OR dimension NOT IN ('' @ join '', '' phs @ ''))''))"
| "clause_sql d pin binds (AsOf t) =
     (let binds = binds @ [BTime t] in (binds, pin @ ''asserted_at <= '' @ ph d binds))"
| "clause_sql d pin binds (After dir t i) =
     (let binds = binds @ [BTime t]; a = ph d binds; binds = binds @ [BText i]; b = ph d binds;
          cmp = (case dir of Desc \<Rightarrow> ''<'' | Asc \<Rightarrow> ''>'')
      in (binds, ''('' @ pin @ ''asserted_at, '' @ id_text d @ '') '' @ cmp @ '' ('' @ a @ '', '' @ b @ '')''))"

fun clauses_sql :: "dialect \<Rightarrow> string \<Rightarrow> bind list \<Rightarrow> clause list \<Rightarrow> bind list \<times> string list" where
  "clauses_sql d pin binds [] = (binds, [])"
| "clauses_sql d pin binds (c # cs) =
     (let (binds, part) = clause_sql d pin binds c; (binds, parts) = clauses_sql d pin binds cs
      in (binds, part # parts))"

definition render_sql :: "attestation_query \<Rightarrow> dialect \<Rightarrow> string \<Rightarrow> string \<Rightarrow> statement" where
  "render_sql q d tbl columns =
     (let pin = (if d = Sqlite \<and> seeks_narrow_index q then ''+'' else []);
          (binds, parts) = clauses_sql d pin [] (plan q);
          dir = (case order_direction (q_order q) of Desc \<Rightarrow> ''DESC'' | Asc \<Rightarrow> ''ASC'');
          binds = binds @ [BInt (int (q_limit q) + 1)];
          limit = ph d binds
      in \<lparr> st_sql = ''SELECT '' @ columns @ '' FROM '' @ tbl @ '' WHERE '' @ join '' AND '' parts @
             '' ORDER BY '' @ pin @ ''asserted_at '' @ dir @ '', '' @ id_text d @ '' '' @ dir @
             '' LIMIT '' @ limit,
           st_binds = binds \<rparr>)"

section \<open>The meaning of the statement\<close>

text \<open>
  What the statement selects. A column is \<^const>\<open>None\<close> when it is NULL; a comparison with NULL is
  unknown, and WHERE keeps the rows on which every conjunct is true. The two generated columns
  (\<open>dimension\<close>, \<open>cohort_target\<close>) read the envelope with the database's JSON-to-text operator, which is
  not part of the repository: it is the parameter \<open>J\<close>, and what the code relies on is that it gives
  a JSON string as itself and JSON null as NULL.
\<close>

definition json_text_law :: "(json \<Rightarrow> string option) \<Rightarrow> bool" where
  "json_text_law J \<longleftrightarrow> (\<forall>s. J (JString s) = Some s) \<and> J JNull = None"

fun col_val :: "(json \<Rightarrow> string option) \<Rightarrow> attestation \<Rightarrow> col \<Rightarrow> string option" where
  "col_val J a ColAttesting = Some (attesting_key_id a)"
| "col_val J a ColAttested = Some (attested_key_id a)"
| "col_val J a ColDimension = Option.bind (json_get (attestation_envelope a) ''dimension'') J"
| "col_val J a ColScope = Some (cohort_scope a)"
| "col_val J a ColTarget = find_map (\<lambda>k. Option.bind (json_get (attestation_envelope a) k) J) cohort_target_fields"
| "col_val J a ColType = Some (attestation_type a)"

fun sql_truth :: "(json \<Rightarrow> string option) \<Rightarrow> attestation \<Rightarrow> clause \<Rightarrow> bool option" where
  "sql_truth J a (EqCol c v) = map_option (\<lambda>x. x = v) (col_val J a c)"
| "sql_truth J a (TierIs t) = Some (att_tier a = t)"
| "sql_truth J a (RangeCol c lo hi) = map_option (\<lambda>x. lo \<le> x \<and> x < hi) (col_val J a c)"
| "sql_truth J a (SubstrCol c n p) = map_option (\<lambda>x. take_chars n x = p) (col_val J a c)"
| "sql_truth J a (InCol c vs) = (if vs = [] then None else map_option (\<lambda>x. x \<in> set vs) (col_val J a c))"
| "sql_truth J a (NotInDimension vs) =
     (case col_val J a ColDimension of None \<Rightarrow> Some True | Some x \<Rightarrow> Some (x \<notin> set vs))"
| "sql_truth J a (AsOf t) = Some (asserted_at a \<le> t)"
| "sql_truth J a (After dir t i) = Some (precedes dir (t, i) (row_key a))"

definition where_holds :: "(json \<Rightarrow> string option) \<Rightarrow> clause list \<Rightarrow> attestation \<Rightarrow> bool" where
  "where_holds J cs a \<longleftrightarrow> list_all (\<lambda>c. sql_truth J a c = Some True) cs"

definition sql_exec :: "(json \<Rightarrow> string option) \<Rightarrow> attestation list \<Rightarrow> query_exec" where
  "sql_exec J tbl q =
     Inr (take (nat (int (q_limit q) + 1))
       (sort_rows (order_direction (q_order q)) (filter (where_holds J (plan q)) tbl)))"

section \<open>The byte range of a prefix\<close>

definition top_byte :: char where "top_byte = char_of (255::nat)"

lemma byte_top [simp]: "byte top_byte = 255"
  by (simp add: top_byte_def)

lemma char_le_top: "c \<le> top_byte"
proof -
  have "byte c < 256" by (rule byte_less)
  then show ?thesis unfolding less_eq_char_def byte_top by linarith
qed

lemma bump_shape:
  "bump r = Some hi \<Longrightarrow> \<exists>q b m. rev r = q @ b # replicate m top_byte \<and> byte b < 255 \<and>
     hi = q @ [char_of (byte b + 1)]"
proof (induction r)
  case (Cons b r)
  show ?case
  proof (cases "byte b = 255")
    case True
    then have top: "b = top_byte" by (metis byte_top of_char_eq_iff)
    obtain q c m where "rev r = q @ c # replicate m top_byte" "byte c < 255"
        "hi = q @ [char_of (byte c + 1)]"
      using Cons True by auto
    then have "rev (b # r) = q @ c # replicate (Suc m) top_byte"
      by (simp add: top replicate_append_same)
    with \<open>byte c < 255\<close> \<open>hi = _\<close> show ?thesis by blast
  next
    case False
    then have "byte b < 255" using byte_less[of b] by linarith
    with Cons False show ?thesis
      by (intro exI[of _ "rev r"] exI[of _ b] exI[of _ 0]) simp
  qed
qed simp

lemma replicate_top_le: "replicate m top_byte \<le> s \<longleftrightarrow> starts_with (replicate m top_byte) s"
proof (induction m arbitrary: s)
  case (Suc m)
  then show ?case
    using char_le_top by (cases s) (auto simp: starts_with_def leD)
qed (simp add: starts_with_def)

lemma char_succ_less: "byte b < 255 \<Longrightarrow> c < char_of (byte b + 1) \<longleftrightarrow> c \<le> b"
  by (auto simp: less_char_def less_eq_char_def of_char_of)

lemma prefix_range:
  assumes "byte b < 255"
  shows "q @ b # replicate m top_byte \<le> s \<and> s < q @ [char_of (byte b + 1)] \<longleftrightarrow>
    starts_with (q @ b # replicate m top_byte) s"
proof (induction q arbitrary: s)
  case Nil
  show ?case
  proof (cases s)
    case (Cons c t)
    have "c = char_of (byte b + 1) \<Longrightarrow> b < c" using assms by (simp add: less_char_def of_char_of)
    then show ?thesis
      using assms replicate_top_le[of m t] char_succ_less[OF assms, of c]
      by (auto simp: Cons starts_with_def)
  qed (simp add: starts_with_def)
next
  case (Cons c q)
  then show ?case by (cases s) (auto simp: starts_with_def)
qed

lemma dimension_prefix_bounds_range:
  assumes "dimension_prefix_bounds p = Some (lo, hi)"
  shows "lo \<le> s \<and> s < hi \<longleftrightarrow> starts_with p s"
proof -
  have "bump (rev p) = Some hi" and lo: "lo = p"
    using assms by (auto simp: dimension_prefix_bounds_def split: if_splits option.splits)
  from bump_shape[OF this(1)] obtain q b m where
    "p = q @ b # replicate m top_byte" "byte b < 255" "hi = q @ [char_of (byte b + 1)]" by auto
  then show ?thesis using prefix_range lo by simp
qed

section \<open>The statement selects what the predicate admits\<close>

text \<open>
  Rust strings are valid UTF-8; the envelope fields the two generated columns read are strings,
  null or absent.
\<close>

definition query_text :: "attestation_query \<Rightarrow> bool" where
  "query_text q \<longleftrightarrow> (\<forall>p. q_dimension q = Prefix p \<longrightarrow> utf8 p) \<and> (\<forall>p. q_type_prefix q = Some p \<longrightarrow> utf8 p)"

definition textual :: "json option \<Rightarrow> bool" where
  "textual v \<longleftrightarrow> (case v of None \<Rightarrow> True | Some JNull \<Rightarrow> True | Some (JString s) \<Rightarrow> utf8 s | _ \<Rightarrow> False)"

definition row_text :: "attestation \<Rightarrow> bool" where
  "row_text a \<longleftrightarrow> utf8 (attestation_type a) \<and>
     list_all (\<lambda>k. textual (json_get (attestation_envelope a) k)) (''dimension'' # cohort_target_fields)"

lemma textual_column:
  assumes "json_text_law J" "textual v"
  shows "Option.bind v J = Option.bind v as_str"
proof (cases v)
  case (Some x)
  then show ?thesis using assms by (cases x) (auto simp: json_text_law_def textual_def)
qed simp

lemma textual_string: "textual v \<Longrightarrow> Option.bind v as_str = Some s \<Longrightarrow> utf8 s"
  by (cases v; cases "the v") (auto simp: textual_def)

lemma find_map_cong: "(\<And>x. x \<in> set xs \<Longrightarrow> f x = g x) \<Longrightarrow> find_map f xs = find_map g xs"
  by (induction xs) (auto split: option.splits)

lemma row_text_columns:
  assumes "json_text_law J" "row_text a"
  shows "col_val J a ColDimension = envelope_dimension (attestation_envelope a)"
    and "col_val J a ColTarget = cohort_target_of_envelope (attestation_envelope a)"
    and "envelope_dimension (attestation_envelope a) = Some d \<Longrightarrow> utf8 d"
proof -
  have fields: "textual (json_get (attestation_envelope a) k)"
    if "k \<in> set (''dimension'' # cohort_target_fields)" for k
    using assms(2) that by (auto simp: row_text_def list_all_iff)
  show "col_val J a ColDimension = envelope_dimension (attestation_envelope a)"
    using textual_column[OF assms(1) fields[of "''dimension''"]] by (simp add: envelope_dimension_def)
  show "col_val J a ColTarget = cohort_target_of_envelope (attestation_envelope a)"
    unfolding col_val.simps cohort_target_of_envelope_def
    by (intro find_map_cong textual_column[OF assms(1)] fields) simp
  show "utf8 d" if "envelope_dimension (attestation_envelope a) = Some d"
    using that textual_string[OF fields[of "''dimension''"]] by (simp add: envelope_dimension_def)
qed

lemma prefix_clause_truth:
  assumes "utf8 p" "\<And>s. col_val J a c = Some s \<Longrightarrow> utf8 s"
  shows "sql_truth J a (prefix_clause c p) = Some True \<longleftrightarrow>
    (case col_val J a c of None \<Rightarrow> False | Some s \<Rightarrow> starts_with p s)"
proof (cases "dimension_prefix_bounds p")
  case None
  then show ?thesis
    using assms substr_is_prefix[OF assms(1)] by (auto simp: prefix_clause_def split: option.splits)
next
  case (Some b)
  obtain lo hi where b: "b = (lo, hi)" by (cases b)
  show ?thesis
    using dimension_prefix_bounds_range[OF Some[unfolded b]]
    by (auto simp: prefix_clause_def Some b split: option.splits)
qed

lemma list_all_opt_list: "list_all P (opt_list f x) \<longleftrightarrow> is_none_or x (\<lambda>y. P (f y))"
  by (simp add: opt_list_def is_none_or_def split: option.splits)

lemma plan_is_admits:
  assumes J: "json_text_law J" and q: "query_text q" and a: "row_text a"
  shows "where_holds J (plan q) a \<longleftrightarrow> admits q a"
proof -
  note cols = row_text_columns[OF J a]
  define T where "T = (\<lambda>c. sql_truth J a c = Some True)"
  define dim where "dim = envelope_dimension (attestation_envelope a)"
  have prefix_dim: "T (prefix_clause ColDimension p) \<longleftrightarrow> (case dim of None \<Rightarrow> False | Some d \<Rightarrow> starts_with p d)"
    if "q_dimension q = Prefix p" for p
    using prefix_clause_truth[of p J a ColDimension] q that cols by (simp add: query_text_def T_def dim_def)
  have prefix_ty: "T (prefix_clause ColType p) \<longleftrightarrow> starts_with p (attestation_type a)"
    if "q_type_prefix q = Some p" for p
    using prefix_clause_truth[of p J a ColType] q that a by (simp add: query_text_def row_text_def T_def)
  have dims: "list_all T (case q_dimension q of AnyDim \<Rightarrow> [] | Prefix p \<Rightarrow> [prefix_clause ColDimension p]
        | Exact x \<Rightarrow> [EqCol ColDimension x] | AnyOf xs \<Rightarrow> [InCol ColDimension xs]) \<longleftrightarrow>
      (case q_dimension q of AnyDim \<Rightarrow> True
       | Prefix p \<Rightarrow> (case dim of None \<Rightarrow> False | Some d \<Rightarrow> starts_with p d)
       | Exact x \<Rightarrow> dim = Some x
       | AnyOf xs \<Rightarrow> (case dim of None \<Rightarrow> False | Some d \<Rightarrow> d \<in> set xs))"
    using prefix_dim cols(1)
    by (cases "q_dimension q"; cases dim) (auto simp: T_def dim_def simp del: col_val.simps)
  have scope: "list_all T (case q_scope q of None \<Rightarrow> []
        | Some s \<Rightarrow> EqCol ColScope (sf_cohort_scope s) # opt_list (EqCol ColTarget) (sf_cohort_target s)) \<longleftrightarrow>
      is_none_or (q_scope q) (\<lambda>s. cohort_scope a = sf_cohort_scope s \<and>
        is_none_or (sf_cohort_target s) (\<lambda>t. cohort_target_of_envelope (attestation_envelope a) = Some t))"
    using cols(2) by (auto simp: T_def list_all_opt_list is_none_or_def split: option.splits)
  have excluded: "list_all T (if xs = [] then [] else [NotInDimension xs]) \<longleftrightarrow>
      \<not> (case dim of None \<Rightarrow> False | Some d \<Rightarrow> d \<in> set xs)" for xs
    using cols(1) by (auto simp: T_def dim_def simp del: col_val.simps split: option.splits)
  have types: "list_all T (if xs = [] then [] else [InCol ColType xs]) \<longleftrightarrow>
      (xs = [] \<or> attestation_type a \<in> set xs)" for xs
    by (simp add: T_def)
  have ty: "is_none_or (q_type_prefix q) (\<lambda>p. T (prefix_clause ColType p)) =
      is_none_or (q_type_prefix q) (\<lambda>p. starts_with p (attestation_type a))"
    using prefix_ty by (rule is_none_or_cong)
  have rest: "T (EqCol ColAttesting k) \<longleftrightarrow> attesting_key_id a = k" "T (EqCol ColAttested k) \<longleftrightarrow> attested_key_id a = k"
      "T (TierIs k) \<longleftrightarrow> att_tier a = k" "T (AsOf t) \<longleftrightarrow> asserted_at a \<le> t"
      "T (After d t k) \<longleftrightarrow> precedes d (t, k) (row_key a)" for k t d
    by (auto simp: T_def)
  have "where_holds J (plan q) a \<longleftrightarrow> list_all T (plan q)" by (simp add: where_holds_def T_def)
  also have "\<dots> \<longleftrightarrow> admits q a"
    unfolding plan_def list_all_append list_all_opt_list dims scope types excluded ty rest
      admits_def Let_def dim_def[symmetric] cursor_key_def by (simp add: rest)
  finally show ?thesis .
qed

section \<open>Order and cuts\<close>

abbreviation row_before :: "direction \<Rightarrow> attestation \<Rightarrow> attestation \<Rightarrow> bool" where
  "row_before d a b \<equiv> precedes d (row_key a) (row_key b)"

lemma precedes_trans: "precedes d x y \<Longrightarrow> precedes d y z \<Longrightarrow> precedes d x z"
  by (cases d) auto

lemma precedes_asym: "precedes d x y \<Longrightarrow> \<not> precedes d y x"
  by (cases d) auto

lemma precedes_irrefl [simp]: "\<not> precedes d x x"
  by (cases d) auto

lemma sort_key_strict:
  assumes "distinct (map attestation_id xs)"
  shows "sorted_wrt (\<lambda>a b. row_key a < row_key b) (sort_key row_key xs)"
proof -
  have "distinct (map row_key xs)"
    using assms by (auto simp: distinct_map inj_on_def row_key_def)
  then have "distinct (map row_key (sort_key row_key xs))"
    by (metis distinct_map distinct_sort set_sort)
  then have "sorted_wrt (<) (map row_key (sort_key row_key xs))"
    using sorted_sort_key strict_sorted_iff by blast
  then show ?thesis by (simp add: sorted_wrt_map)
qed

lemma sort_rows_strict:
  assumes "distinct (map attestation_id xs)"
  shows "sorted_wrt (row_before d) (sort_rows d xs)"
proof (cases d)
  case Desc
  have "distinct (map attestation_id (rev xs))" using assms by (simp add: rev_map[symmetric])
  from sort_key_strict[OF this] show ?thesis by (simp add: Desc sorted_wrt_rev)
qed (use sort_key_strict[OF assms] in simp)

lemma filter_sort_rows: "filter P (sort_rows d xs) = sort_rows d (filter P xs)"
  by (cases d) (simp_all add: filter_sort rev_filter[symmetric])

lemma set_sort_rows [simp]: "set (sort_rows d xs) = set xs"
  by (cases d) simp_all

lemma length_sort_rows [simp]: "length (sort_rows d xs) = length xs"
  by (cases d) simp_all

lemma sorted_cut:
  assumes sorted: "sorted_wrt R xs" and asym: "\<And>x y. R x y \<Longrightarrow> \<not> R y x" and n: "0 < n" "n \<le> length xs"
  shows "filter (R (xs ! (n - 1))) xs = drop n xs"
proof -
  have before: "\<not> R (xs ! (n - 1)) (xs ! i)" if "i < n" for i
  proof (cases "i = n - 1")
    case False
    then have "R (xs ! i) (xs ! (n - 1))"
      using that n by (intro sorted_wrt_nth_less[OF sorted]) linarith+
    then show ?thesis by (rule asym)
  qed (use asym in metis)
  have after: "R (xs ! (n - 1)) (xs ! (n + i))" if "i < length xs - n" for i
    using that n by (intro sorted_wrt_nth_less[OF sorted]) linarith+
  have "filter (R (xs ! (n - 1))) (take n xs) = []"
    unfolding filter_empty_conv using before n by (metis in_set_conv_nth length_take min.absorb2 nth_take)
  moreover have "filter (R (xs ! (n - 1))) (drop n xs) = drop n xs"
    unfolding filter_id_conv using after n(2) by (metis in_set_conv_nth length_drop nth_drop)
  ultimately show ?thesis by (metis append_Nil append_take_drop_id filter_append)
qed

lemma admits_after:
  "admits q a \<longleftrightarrow> admits (q\<lparr>q_after := None\<rparr>) a \<and>
     is_none_or (q_after q) (\<lambda>c. precedes (order_direction (q_order q)) (cursor_key c) (row_key a))"
  by (simp add: admits_def Let_def cong: option.case_cong)

definition trailing_cursor :: "attestation \<Rightarrow> attestation_cursor" where
  "trailing_cursor a = from_trailing (asserted_at a) (attestation_id a)"

lemma cursor_key_trailing [simp]: "cursor_key (trailing_cursor a) = row_key a"
  by (simp add: trailing_cursor_def from_trailing_def cursor_key_def row_key_def)

text \<open>The rows after the cursor of a page are the rows the page left.\<close>

lemma next_cut:
  fixes q :: attestation_query and t :: "attestation list"
  defines "S \<equiv> query_sort q (filter (admits q) t)"
  assumes ids: "distinct (map attestation_id t)" and n: "0 < n" "n \<le> length S"
  defines "q' \<equiv> q\<lparr>q_after := Some (trailing_cursor (S ! (n - 1)))\<rparr>"
  shows "query_sort q' (filter (admits q') t) = drop n S"
proof -
  define d where "d = order_direction (q_order q)"
  define z where "z = S ! (n - 1)"
  have "z \<in> set S" unfolding z_def using n by (intro nth_mem) linarith
  then have z: "admits q z" by (simp add: S_def query_sort_def)
  have "admits q' a \<longleftrightarrow> admits q a \<and> row_before d z a" for a
  proof -
    have "admits q' a \<longleftrightarrow> admits (q\<lparr>q_after := None\<rparr>) a \<and> row_before d z a"
      by (subst admits_after) (simp add: q'_def z_def d_def)
    moreover have "admits (q\<lparr>q_after := None\<rparr>) a \<Longrightarrow> row_before d z a \<Longrightarrow> admits q a"
      using z unfolding admits_after[of q a] admits_after[of q z] d_def
      by (auto simp: is_none_or_def split: option.splits intro: precedes_trans)
    ultimately show ?thesis using admits_after[of q a] by blast
  qed
  then have "filter (admits q') t = filter (row_before d z) (filter (admits q) t)"
    unfolding filter_filter by (intro filter_cong) auto
  then have "query_sort q' (filter (admits q') t) = filter (row_before d z) S"
    by (simp only: S_def query_sort_def filter_sort_rows) (simp add: q'_def d_def)
  also have "\<dots> = drop n S"
    unfolding z_def
  proof (rule sorted_cut)
    show "sorted_wrt (row_before d) S"
      unfolding S_def query_sort_def d_def
      by (intro sort_rows_strict distinct_map_filter ids)
    show "\<not> row_before d y x" if "row_before d x y" for x y using that by (rule precedes_asym)
  qed (rule n)+
  finally show ?thesis .
qed

lemma mset_sort_rows [simp]: "mset (sort_rows d xs) = mset xs"
  by (cases d) simp_all

text \<open>A strict order sorts a multiset in one way.\<close>

lemma row_sorted_unique:
  assumes "sorted_wrt (row_before d) xs" "sorted_wrt (row_before d) ys" "set xs = set ys"
  shows "xs = ys"
proof -
  have strict: "sorted_wrt (<) (map row_key zs)" if "sorted_wrt (row_before Asc) zs" for zs
    using that by (simp add: sorted_wrt_map)
  have eq: "as = bs" if "sorted_wrt (row_before Asc) as" "sorted_wrt (row_before Asc) bs" "set as = set bs" for as bs
  proof -
    have "distinct as"
      using strict[OF that(1)] by (simp add: strict_sorted_iff distinct_map)
    moreover have "map row_key as = map row_key bs"
      using strict[OF that(1)] strict[OF that(2)] that(3)
      by (metis list.set_map sorted_distinct_set_unique strict_sorted_iff)
    moreover have "inj_on row_key (set as)"
      using strict[OF that(1)] by (simp add: strict_sorted_iff distinct_map)
    ultimately show ?thesis using that(3) by (metis Un_absorb map_inj_on)
  qed
  show ?thesis
  proof (cases d)
    case Desc
    then have "rev xs = rev ys" using assms by (intro eq) (simp_all add: sorted_wrt_rev)
    then show ?thesis by simp
  qed (use eq assms in auto)
qed

section \<open>The executor's contract\<close>

text \<open>
  What a backend promises (\<open>run_attestation_query\<close>: at most \<open>fetch\<close> rows in the query's order): the
  first rows, one past the page, of the admitted rows of the table it holds. Every fold that walks
  pages is a client of it.
\<close>

locale attestation_store =
  fixes store_ok :: "'s \<Rightarrow> bool"
    and rows_of :: "'s \<Rightarrow> attestation list"
    and exec_of :: "'s \<Rightarrow> query_exec"
  assumes store_ids: "store_ok s \<Longrightarrow> distinct (map attestation_id (rows_of s))"
    and exec_page: "store_ok s \<Longrightarrow> query_text q \<Longrightarrow>
      exec_of s q = Inr (take (fetch q) (query_sort q (filter (admits q) (rows_of s))))"
begin

abbreviation matching :: "'s \<Rightarrow> attestation_query \<Rightarrow> attestation list" where
  "matching s q \<equiv> query_sort q (filter (admits q) (rows_of s))"

lemma page_served:
  assumes ok: "store_ok s" and q: "query_text q" "validate q = Inr ()" "0 < q_limit q"
  shows "served (query_attestations (exec_of s) q) =
    Inr \<lparr> page_rows = take (q_limit q) (matching s q),
          page_next = (if q_limit q < length (matching s q)
                       then Some (trailing_cursor (matching s q ! (q_limit q - 1))) else None) \<rparr>"
proof -
  define S where "S = matching s q"
  have exec: "exec_of s q = Inr (take (fetch q) S)" using exec_page[OF ok q(1)] by (simp add: S_def)
  show ?thesis
  proof (cases "q_limit q < length S")
    case True
    have "take (q_limit q) S \<noteq> []" using True q(3) by auto
    moreover from this have "last (take (q_limit q) S) = S ! (q_limit q - 1)"
      using True q(3) by (simp add: last_conv_nth min_def)
    ultimately have "last (take (q_limit q) S) = S ! (q_limit q - 1)" "take (q_limit q) S \<noteq> []" by blast+
    then show ?thesis using True q
      by (simp add: S_def[symmetric] query_attestations_def exec fetch_def trailing_cursor_def Let_def min_def)
  next
    case False
    then show ?thesis using q
      by (simp add: S_def[symmetric] query_attestations_def exec fetch_def Let_def)
  qed
qed

text \<open>A walk ends, with every matching row once, in order, after what it had gathered.\<close>

lemma walk_matching:
  assumes ok: "store_ok s" and q: "query_text q" "validate q = Inr ()" "0 < q_limit q"
    and last: "l = None \<or> l = q_after q"
  shows "walk (exec_of s) \<lparr> pg_query = q, pg_done = False, pg_last = l \<rparr> acc = Some (Inr (acc @ matching s q))"
  using q last
proof (induction "length (matching s q)" arbitrary: q l acc rule: less_induct)
  case less
  let ?n = "q_limit q" and ?S = "matching s q"
  note page = page_served[OF ok less.prems(1-3)]
  show ?case
  proof (cases "?n < length ?S")
    case False
    then show ?thesis by (subst walk.simps, subst walk.simps) (simp add: pages_next_def page)
  next
    case True
    define z where "z = ?S ! (?n - 1)"
    define c where "c = trailing_cursor z"
    define q' where "q' = q\<lparr>q_after := Some c\<rparr>"
    have rest: "matching s q' = drop ?n ?S"
      using next_cut[OF store_ids[OF ok], of ?n q] True less.prems(3) by (simp add: q'_def c_def z_def)
    have "z \<in> set ?S" unfolding z_def using True by (intro nth_mem) linarith
    then have "admits q z" by (simp add: query_sort_def)
    then have "q_after q \<noteq> Some c" by (subst (asm) admits_after) (auto simp: c_def)
    then have "l \<noteq> Some c" using less.prems(4) by auto
    then have "walk (exec_of s) \<lparr> pg_query = q, pg_done = False, pg_last = l \<rparr> acc =
        walk (exec_of s) \<lparr> pg_query = q', pg_done = False, pg_last = Some c \<rparr> (acc @ take ?n ?S)"
      using True by (subst walk.simps) (simp add: pages_next_def page q'_def c_def z_def)
    also have "\<dots> = Some (Inr ((acc @ take ?n ?S) @ matching s q'))"
    proof (rule less.hyps)
      show "length (matching s q') < length ?S" using True less.prems(3) by (simp add: rest)
      show "query_text q'" "0 < q_limit q'" "Some c = None \<or> Some c = q_after q'"
        using less.prems by (simp_all add: q'_def query_text_def)
      show "validate q' = Inr ()"
        using less.prems(2) by (auto simp: validate_def q'_def c_def trailing_cursor_def from_trailing_def split: if_splits)
    qed
    finally show ?thesis by (simp add: rest)
  qed
qed

lemma pages_complete:
  assumes "store_ok s" "query_text q" "validate q = Inr ()" "0 < q_limit q"
  shows "walk (exec_of s) (query_pages q) [] = Some (Inr (matching s q))"
  using walk_matching[OF assms, of None "[]"] by (simp add: query_pages_def)

text \<open>
  A walk bounded by an instant is replayable: rows a later write adds, dated after the instant, are
  not in it.
\<close>

lemma as_of_replay:
  assumes ok: "store_ok s" "store_ok s'" and q: "query_text q" "validate q = Inr ()" "0 < q_limit q"
    and t: "q_as_of q = Some t"
    and grown: "mset (rows_of s') = mset (rows_of s) + mset new" "list_all (\<lambda>r. t < asserted_at r) new"
  shows "walk (exec_of s') (query_pages q) [] = walk (exec_of s) (query_pages q) []"
proof -
  have "mset (filter (admits q) new) = {#}"
    using grown(2) t by (auto simp: list_all_iff filter_empty_conv admits_def Let_def)
  then have same: "mset (filter (admits q) (rows_of s')) = mset (filter (admits q) (rows_of s))"
    using grown(1) by simp
  have "matching s' q = matching s q"
  proof (rule row_sorted_unique)
    show "set (matching s' q) = set (matching s q)" using same by (metis mset_sort_rows query_sort_def set_mset_mset)
    show "sorted_wrt (row_before (order_direction (q_order q))) (matching s q)"
      "sorted_wrt (row_before (order_direction (q_order q))) (matching s' q)"
      unfolding query_sort_def by (intro sort_rows_strict distinct_map_filter store_ids ok)+
  qed
  then show ?thesis using pages_complete q ok by simp
qed

end

section \<open>The SQL backends meet the contract\<close>

definition table_ok :: "attestation list \<Rightarrow> bool" where
  "table_ok t \<longleftrightarrow> distinct (map attestation_id t) \<and> list_all row_text t"

interpretation sql_store: attestation_store
  "\<lambda>s. json_text_law (fst s) \<and> table_ok (snd s)" snd "\<lambda>s. sql_exec (fst s) (snd s)"
proof unfold_locales
  fix s :: "(json \<Rightarrow> string option) \<times> attestation list" and q
  assume ok: "json_text_law (fst s) \<and> table_ok (snd s)"
  then show "distinct (map attestation_id (snd s))" by (simp add: table_ok_def)
  assume q: "query_text q"
  have "filter (where_holds (fst s) (plan q)) (snd s) = filter (admits q) (snd s)"
    using ok q by (intro filter_cong) (auto simp: table_ok_def list_all_iff plan_is_admits)
  then show "sql_exec (fst s) (snd s) q = Inr (take (fetch q) (query_sort q (filter (admits q) (snd s))))"
    by (simp add: sql_exec_def query_sort_def fetch_def nat_add_distrib)
qed

section \<open>No text of the caller in the statement\<close>

text \<open>A conjunct with the values it binds forgotten.\<close>

fun unbound :: "clause \<Rightarrow> clause" where
  "unbound (EqCol c v) = EqCol c []"
| "unbound (TierIs t) = TierIs t"
| "unbound (RangeCol c lo hi) = RangeCol c [] []"
| "unbound (SubstrCol c n p) = SubstrCol c n []"
| "unbound (InCol c vs) = InCol c (map (\<lambda>_. []) vs)"
| "unbound (NotInDimension vs) = NotInDimension (map (\<lambda>_. []) vs)"
| "unbound (AsOf t) = AsOf 0"
| "unbound (After d t i) = After d 0 []"

lemma ph_length: "length b = length b' \<Longrightarrow> ph d b = ph d b'"
  by (simp add: ph_def)

lemma push_list_text:
  "length b = length b' \<Longrightarrow> length vs = length vs' \<Longrightarrow>
     snd (push_list d b vs) = snd (push_list d b' vs') \<and>
     length (fst (push_list d b vs)) = length b + length vs"
proof (induction vs arbitrary: b b' vs')
  case (Cons v vs)
  then obtain w ws where vs': "vs' = w # ws" "length vs = length ws" by (cases vs') auto
  show ?case
    using Cons.IH[of "b @ [BText v]" "b' @ [BText w]" ws] Cons.prems vs'
      ph_length[of "b @ [BText v]" "b' @ [BText w]" d]
    by (auto simp: Let_def split: prod.splits)
qed simp

lemma clause_sql_text:
  assumes "length b = length b'"
  shows "snd (clause_sql d pin b c) = snd (clause_sql d pin b' (unbound c)) \<and>
    length (fst (clause_sql d pin b c)) = length (fst (clause_sql d pin b' (unbound c)))"
proof (cases c)
  case (InCol x vs)
  then show ?thesis
    using push_list_text[OF assms, of vs "map (\<lambda>_. []) vs" d] push_list_text[of b' b' "map (\<lambda>_. []) vs" "map (\<lambda>_. []) vs" d] assms
    by (auto simp: Let_def split: prod.splits)
next
  case (NotInDimension vs)
  then show ?thesis
    using push_list_text[OF assms, of vs "map (\<lambda>_. []) vs" d] push_list_text[of b' b' "map (\<lambda>_. []) vs" "map (\<lambda>_. []) vs" d] assms
    by (auto simp: Let_def split: prod.splits)
qed (use assms in \<open>simp_all add: Let_def ph_def\<close>)

lemma clauses_sql_text:
  "length b = length b' \<Longrightarrow>
     snd (clauses_sql d pin b cs) = snd (clauses_sql d pin b' (map unbound cs)) \<and>
     length (fst (clauses_sql d pin b cs)) = length (fst (clauses_sql d pin b' (map unbound cs)))"
proof (induction cs arbitrary: b b')
  case (Cons c cs)
  obtain b1 p1 b2 p2 where step: "clause_sql d pin b c = (b1, p1)" "clause_sql d pin b' (unbound c) = (b2, p2)"
    by (metis surj_pair)
  then have "p1 = p2" "length b1 = length b2" using clause_sql_text[OF Cons.prems, of d pin c] by auto
  then show ?case using Cons.IH[of b1 b2] step by (auto simp: Let_def split: prod.splits)
qed simp

section \<open>The properties of the bounded read\<close>



text \<open>A walk bounded by an instant is replayable: whatever rows dated after the instant are written
  later, the walk returns the same rows in the same order.\<close>

theorem as_of_walk_replayable:
  assumes "json_text_law J" "table_ok t" "table_ok t'" "query_text q" "validate q = Inr ()" "0 < q_limit q"
    and "q_as_of q = Some u" "mset t' = mset t + mset new" "list_all (\<lambda>r. u < asserted_at r) new"
  shows "walk (sql_exec J t') (query_pages q) [] = walk (sql_exec J t) (query_pages q) []"
  using sql_store.as_of_replay[of "(J, t)" "(J, t')" q u new] assms by simp

text \<open>The statement's text is independent of the values a caller supplies: two queries of one shape, which
  differ only in the strings and instants they bind, are planned as the same SQL text, so no value of
  a caller is ever part of the SQL.\<close>

theorem sql_text_value_free:
  assumes "map unbound (plan q) = map unbound (plan q')"
    and "order_direction (q_order q) = order_direction (q_order q')"
    and "seeks_narrow_index q = seeks_narrow_index q'"
  shows "st_sql (render_sql q d tbl columns) = st_sql (render_sql q' d tbl columns)"
proof -
  define pin where "pin = (if d = Sqlite \<and> seeks_narrow_index q then ''+'' else [])"
  obtain b1 p1 b2 p2 where 1: "clauses_sql d pin [] (plan q) = (b1, p1)"
      and 2: "clauses_sql d pin [] (plan q') = (b2, p2)"
    by (metis surj_pair)
  have same: "p1 = p2" "length b1 = length b2"
    using clauses_sql_text[of "[]" "[]" d pin "plan q"] clauses_sql_text[of "[]" "[]" d pin "plan q'"] assms(1) 1 2
    by simp_all
  have pin': "(if d = Sqlite \<and> seeks_narrow_index q' then ''+'' else []) = pin"
    using assms(3) by (simp add: pin_def)
  show ?thesis
    unfolding render_sql_def Let_def pin_def[symmetric] pin' 1 2 by (simp add: same assms(2) ph_def)
qed

section \<open>Witnesses of the bounded read\<close>

definition sample_row :: "string \<Rightarrow> instant \<Rightarrow> string \<Rightarrow> attestation" where
  "sample_row i t dm =
     \<lparr> attestation_id = i, attesting_key_id = ''k'', attested_key_id = ''x'',
       attestation_type = ''scores'', att_weight = None, asserted_at = t, att_expires_at = None,
       attestation_envelope = JObject [(''dimension'', JString dm)], original_content_hash = '''',
       scrub_signature_classical = ''s'', scrub_signature_pqc = None, scrub_key_id = ''k'',
       scrub_timestamp = t, pqc_completed_at = None, persist_row_hash = '''', subject_key_ids = [],
       withdraws_admission_rule = None, cohort_scope = ''federation'', att_tier = TIER_FEDERATION,
       promoted_at = None, additional_scrubs = [] \<rparr>"

definition sample_table :: "attestation list" where
  "sample_table = [sample_row ''a'' 1 ''objection:x'', sample_row ''b'' 2 ''other'',
     sample_row ''c'' 2 ''objection:y'', sample_row ''d'' 3 ''objection:z'']"

definition sample_query :: attestation_query where
  "sample_query = dimension_prefix ''objection:'' (query_to ''x'' 2)"

definition json_text_std :: "json \<Rightarrow> string option" where
  "json_text_std v = (case v of JString s \<Rightarrow> Some s | _ \<Rightarrow> None)"

lemma json_text_std_law: "json_text_law json_text_std"
  by (simp add: json_text_law_def json_text_std_def)

lemma sample_text: "query_text sample_query" "table_ok sample_table" "row_text (sample_row ''a'' 1 ''objection:x'')"
proof -
  have "utf8 ''objection:''" by code_simp
  then show "query_text sample_query"
    by (simp add: query_text_def sample_query_def dimension_prefix_def query_to_def pinned_def)
  show "table_ok sample_table" by code_simp
  show "row_text (sample_row ''a'' 1 ''objection:x'')" by code_simp
qed

lemma sample_valid: "validate sample_query = Inr ()" "0 < q_limit sample_query"
  by code_simp+



lemma sample_later:
  "query_text (query_as_of 3 sample_query)" "table_ok (sample_row ''e'' 9 ''objection:w'' # sample_table)"
  using sample_text(1) by (simp add: query_text_def query_as_of_def) code_simp

lemma sample_later_valid: "validate (query_as_of 3 sample_query) = Inr ()" "0 < q_limit (query_as_of 3 sample_query)"
  by code_simp+

theorem as_of_walk_replayable_witness:
  "walk (sql_exec json_text_std (sample_row ''e'' 9 ''objection:w'' # sample_table))
     (query_pages (query_as_of 3 sample_query)) [] =
   walk (sql_exec json_text_std sample_table) (query_pages (query_as_of 3 sample_query)) []"
  by (rule as_of_walk_replayable[OF json_text_std_law sample_text(2) sample_later(2) sample_later(1)
        sample_later_valid, where new = "[sample_row ''e'' 9 ''objection:w'']" and u = 3])
    (simp_all add: query_as_of_def sample_row_def)

theorem sql_text_value_free_witness:
  "st_sql (render_sql (query_to ''x'' 2) Postgres ''t'' ''*'') =
   st_sql (render_sql (query_to (''y OR 1=1'') 2) Postgres ''t'' ''*'')"
  by (rule sql_text_value_free)
    (simp_all add: plan_def query_to_def pinned_def opt_list_def seeks_narrow_index_def)

section \<open>Dimensions that are not strings\<close>

text \<open>
  Outside the hypothesis the two readings part: the JSON-to-text operator of the generated column
  renders a boolean, and a row whose dimension is the JSON value \<open>true\<close> is dropped by the statement
  that excludes the dimension \<open>true\<close> although the predicate admits it.
\<close>

definition json_text_rendering :: "json \<Rightarrow> string option" where
  "json_text_rendering v = (case v of JString s \<Rightarrow> Some s | JBool b \<Rightarrow> Some (if b then ''true'' else ''false'') | _ \<Rightarrow> None)"

definition boolean_row :: attestation where
  "boolean_row = (sample_row ''a'' 1 [])\<lparr>attestation_envelope := JObject [(''dimension'', JBool True)]\<rparr>"

definition excluding_query :: attestation_query where
  "excluding_query = (query_to ''x'' 2)\<lparr>q_excluded_dimensions := [''true'']\<rparr>"

lemma non_string_dimension_dropped:
  "json_text_law json_text_rendering \<and> admits excluding_query boolean_row \<and>
   \<not> where_holds json_text_rendering (plan excluding_query) boolean_row"
proof -
  have "json_text_law json_text_rendering" by (simp add: json_text_law_def json_text_rendering_def)
  moreover have "admits excluding_query boolean_row" by code_simp
  moreover have "\<not> where_holds json_text_rendering (plan excluding_query) boolean_row" by code_simp
  ultimately show ?thesis by blast
qed

end
