(* ===== verification/Reverse_Quorum_Doors.thy ===== *)
theory Reverse_Quorum_Doors
  imports Reverse_Quorum_Fold Attestation_Query
begin

text \<open>
  The doors of the reverse quorum (\<open>src/src/federation/reverse_quorum.rs\<close>): the protective door
  \<open>admit_objection\<close>, the undo door \<open>record_objection_dismissal\<close>, the ballot door \<open>admit_ballot\<close>, and the
  read-time answer \<open>resolve_reverse_quorum_with\<close>, which re-counts every held dismissal before it folds.

  The code is generic over a \<open>FederationDirectory\<close>; the model is generic over a record of the
  directory's operations on a state \<open>'s\<close>. Verifying a hybrid signature against the keys of the
  directory and deriving the appointed moderators are operations of that record. A door gives the
  directory's state after it with its result, and \<^const>\<open>None\<close> stands for a page walk that does not end.
\<close>

section \<open>Refusals and outcomes\<close>

datatype objection_refusal =
    CohortUnknown | RefusedNotGoverned | NotACohortMember | TargetActionUnknown | DimensionMismatch
  | MalformedEnvelope | UnverifiableSignature | DuplicateObjection | NotFiledAgainstActor
  | ObjectionUnknown | DismissalQuorumShort | StewardTierNotAdopted | ActorRecused
  | BallotPredatesAction

fun objection_refusal_str :: "objection_refusal \<Rightarrow> string" where
  "objection_refusal_str CohortUnknown = ''cohort_unknown''"
| "objection_refusal_str RefusedNotGoverned = ''not_governed''"
| "objection_refusal_str NotACohortMember = ''not_a_cohort_member''"
| "objection_refusal_str TargetActionUnknown = ''target_action_unknown''"
| "objection_refusal_str DimensionMismatch = ''dimension_mismatch''"
| "objection_refusal_str MalformedEnvelope = ''malformed_envelope''"
| "objection_refusal_str UnverifiableSignature = ''unverifiable_signature''"
| "objection_refusal_str DuplicateObjection = ''duplicate_objection''"
| "objection_refusal_str NotFiledAgainstActor = ''not_filed_against_actor''"
| "objection_refusal_str ObjectionUnknown = ''objection_unknown''"
| "objection_refusal_str DismissalQuorumShort = ''dismissal_quorum_short''"
| "objection_refusal_str StewardTierNotAdopted = ''steward_tier_not_adopted''"
| "objection_refusal_str ActorRecused = ''actor_recused''"
| "objection_refusal_str BallotPredatesAction = ''ballot_predates_action''"

datatype objection_outcome = ObjAdmitted | ObjRefused objection_refusal

record dismissal_quorum =
  dq_counted :: nat
  dq_required :: nat
  dq_roster_size :: nat

record dismissal_decision =
  dd_outcome :: objection_outcome
  dd_quorum :: dismissal_quorum

section \<open>The directory\<close>

record group_ref =
  gr_consensus_protocol :: "string option"

record 's directory =
  dir_lookup_group :: "'s \<Rightarrow> cohort \<Rightarrow> string \<Rightarrow> fed_error + group_ref option"
  dir_active_members :: "'s \<Rightarrow> cohort \<Rightarrow> string \<Rightarrow> fed_error + string list"
  dir_get_attestation :: "'s \<Rightarrow> string \<Rightarrow> fed_error + attestation option"
  dir_exec :: "'s \<Rightarrow> query_exec"
  dir_verify :: "'s \<Rightarrow> string \<Rightarrow> json \<Rightarrow> string \<Rightarrow> string option \<Rightarrow> bool"
  dir_moderators :: "'s \<Rightarrow> string \<Rightarrow> fed_error + string list"
  dir_put :: "'s \<Rightarrow> attestation \<Rightarrow> 's \<times> (fed_error + unit)"

section \<open>Shared primitives\<close>

definition parse_cohort :: "string \<Rightarrow> cohort option" where
  "parse_cohort token =
     (if token = ''family'' then Some Family
      else if token = ''community'' then Some Community
      else if token = ''affiliations'' then Some Affiliations
      else None)"

definition envelope_cohort :: "attestation \<Rightarrow> (cohort \<times> string) option" where
  "envelope_cohort row =
     (case Option.bind (envelope_str row COHORT) parse_cohort of
        None \<Rightarrow> None
      | Some cohort \<Rightarrow>
          (case envelope_str row COHORT_KEY_ID of
             None \<Rightarrow> None
           | Some key \<Rightarrow> if key = [] then None else Some (cohort, key)))"

definition cohort_state ::
  "'s directory \<Rightarrow> 's \<Rightarrow> cohort \<Rightarrow> string \<Rightarrow> fed_error + (string list \<times> rq_policy option) option" where
  "cohort_state D s cohort key =
     (case dir_lookup_group D s cohort key of
        Inl (Unsupported _) \<Rightarrow> Inr None
      | Inl e \<Rightarrow> Inl e
      | Inr None \<Rightarrow> Inr None
      | Inr (Some grp) \<Rightarrow>
          let policy = Option.bind (gr_consensus_protocol grp) rq_parse in
          (case dir_active_members D s cohort key of
             Inr members \<Rightarrow> Inr (Some (members, policy))
           | Inl (Unsupported _) \<Rightarrow> Inr (Some ([], policy))
           | Inl e \<Rightarrow> Inl e))"

definition count_step ::
  "'s directory \<Rightarrow> 's \<Rightarrow> json \<Rightarrow> string list \<Rightarrow> scrub_sig \<Rightarrow> string set \<Rightarrow> string set" where
  "count_step D s env roster scrub counted =
     (if sc_key_id scrub \<in> counted \<or> sc_key_id scrub \<notin> set roster then counted
      else if dir_verify D s (sc_key_id scrub) env (sc_signature_classical scrub) (sc_signature_pqc scrub)
      then insert (sc_key_id scrub) counted
      else counted)"

definition count_distinct_roster_scrubs ::
  "'s directory \<Rightarrow> 's \<Rightarrow> json \<Rightarrow> scrub_sig list \<Rightarrow> string list \<Rightarrow> string set" where
  "count_distinct_roster_scrubs D s env scs roster = fold (count_step D s env roster) scs {}"

definition signed_by_author :: "'s directory \<Rightarrow> 's \<Rightarrow> attestation \<Rightarrow> bool" where
  "signed_by_author D s row =
     dir_verify D s (attesting_key_id row) (attestation_envelope row) (scrub_signature_classical row)
       (scrub_signature_pqc row)"

definition of_objection_family :: "attestation \<Rightarrow> bool" where
  "of_objection_family r \<longleftrightarrow> envelope_str r ''dimension'' \<in>
     {Some DIMENSION_OBJECTION, Some DIMENSION_DISMISSAL, Some DIMENSION_UPHELD, Some DIMENSION_OVERRULED}"

definition objections_query :: "string \<Rightarrow> attestation_query" where
  "objections_query actor = dimension_prefix ''objection:'' (query_to actor FOLD_PAGE)"

definition objections_against ::
  "'s directory \<Rightarrow> 's \<Rightarrow> action_ref \<Rightarrow> (fed_error + attestation list) option" where
  "objections_against D s action =
     (case walk (dir_exec D s) (query_pages (objections_query (actor_key_id action))) [] of
        None \<Rightarrow> None
      | Some (Inl (Unsupported _)) \<Rightarrow> Some (Inr [])
      | Some (Inl e) \<Rightarrow> Some (Inl e)
      | Some (Inr rows) \<Rightarrow>
          Some (Inr (filter (\<lambda>r. of_objection_family r \<and> envelope_str r OBJECTS_TO = Some (action_id action)) rows)))"

definition resolve_action ::
  "'s directory \<Rightarrow> 's \<Rightarrow> action_ref option \<Rightarrow> string \<Rightarrow> fed_error + action_ref option" where
  "resolve_action D s supplied aid =
     (case supplied of
        Some a \<Rightarrow> if action_id a = aid then Inr (Some a) else Inr None
      | None \<Rightarrow>
          (case dir_get_attestation D s aid of
             Inl e \<Rightarrow> Inl e
           | Inr None \<Rightarrow> Inr None
           | Inr (Some row) \<Rightarrow> Inr (Some (action_ref_of row))))"

definition put_row :: "'s directory \<Rightarrow> 's \<Rightarrow> attestation \<Rightarrow> 'a \<Rightarrow> 's \<times> (fed_error + 'a)" where
  "put_row D s row x = (case dir_put D s row of (s', Inl e) \<Rightarrow> (s', Inl e) | (s', Inr _) \<Rightarrow> (s', Inr x))"

section \<open>The protective door\<close>

definition prior_objection :: "attestation \<Rightarrow> attestation \<Rightarrow> bool" where
  "prior_objection ob prior \<longleftrightarrow>
     envelope_str prior ''dimension'' = Some DIMENSION_OBJECTION \<and>
     attesting_key_id prior = attesting_key_id ob \<and>
     attestation_id prior \<noteq> attestation_id ob"

definition admit_objection ::
  "'s directory \<Rightarrow> 's \<Rightarrow> attestation \<Rightarrow> action_ref option \<Rightarrow> ('s \<times> (fed_error + objection_outcome)) option" where
  "admit_objection D s ob supplied =
     (let refused = (\<lambda>r. Some (s, Inr (ObjRefused r))) in
      if envelope_str ob ''dimension'' \<noteq> Some DIMENSION_OBJECTION then refused DimensionMismatch
      else case envelope_cohort ob of None \<Rightarrow> refused MalformedEnvelope
      | Some (cohort, key) \<Rightarrow>
      (case envelope_str ob OBJECTS_TO of None \<Rightarrow> refused MalformedEnvelope
      | Some aid \<Rightarrow>
      if aid = [] then refused MalformedEnvelope
      else case cohort_state D s cohort key of Inl e \<Rightarrow> Some (s, Inl e)
      | Inr None \<Rightarrow> refused CohortUnknown
      | Inr (Some (roster, policy)) \<Rightarrow>
      if policy = None then refused RefusedNotGoverned
      else if attesting_key_id ob \<notin> set roster then refused NotACohortMember
      else case resolve_action D s supplied aid of Inl e \<Rightarrow> Some (s, Inl e)
      | Inr None \<Rightarrow> refused TargetActionUnknown
      | Inr (Some action) \<Rightarrow>
      if attested_key_id ob \<noteq> actor_key_id action then refused NotFiledAgainstActor
      else if \<not> signed_by_author D s ob then refused UnverifiableSignature
      else case objections_against D s action of None \<Rightarrow> None
      | Some (Inl e) \<Rightarrow> Some (s, Inl e)
      | Some (Inr rows) \<Rightarrow>
      if list_ex (prior_objection ob) rows then refused DuplicateObjection
      else Some (put_row D s ob ObjAdmitted)))"

definition record_objection where
  "record_objection D s ob = admit_objection D s ob None"

definition record_objection_against where
  "record_objection_against D s ob action = admit_objection D s ob (Some action)"

section \<open>The undo door\<close>

definition names_objection :: "attestation \<Rightarrow> attestation \<Rightarrow> bool" where
  "names_objection d row \<longleftrightarrow>
     envelope_str row ''dimension'' = Some DIMENSION_OBJECTION \<and>
     envelope_str row OBJECTS_TO = envelope_str d OBJECTS_TO"

definition record_objection_dismissal ::
  "(nat \<Rightarrow> nat) \<Rightarrow> 's directory \<Rightarrow> 's \<Rightarrow> attestation \<Rightarrow> 's \<times> (fed_error + dismissal_decision)" where
  "record_objection_dismissal sm D s d =
     (let empty = \<lparr> dq_counted = 0, dq_required = 0, dq_roster_size = 0 \<rparr>;
          refuse = (\<lambda>r q. (s, Inr \<lparr> dd_outcome = ObjRefused r, dd_quorum = q \<rparr>)) in
      if envelope_str d ''dimension'' \<noteq> Some DIMENSION_DISMISSAL then refuse DimensionMismatch empty
      else case envelope_cohort d of None \<Rightarrow> refuse MalformedEnvelope empty
      | Some (cohort, key) \<Rightarrow>
      (case envelope_str d DISMISSES of None \<Rightarrow> refuse MalformedEnvelope empty
      | Some oid \<Rightarrow>
      (case cohort_state D s cohort key of Inl e \<Rightarrow> (s, Inl e)
      | Inr None \<Rightarrow> refuse CohortUnknown empty
      | Inr (Some (roster, None)) \<Rightarrow> refuse RefusedNotGoverned (empty\<lparr>dq_roster_size := length roster\<rparr>)
      | Inr (Some (roster, Some policy)) \<Rightarrow>
      let short = \<lparr> dq_counted = 0, dq_required = dismissal_threshold sm policy (length roster),
                    dq_roster_size = length roster \<rparr> in
      (case dir_get_attestation D s oid of Inl e \<Rightarrow> (s, Inl e)
      | Inr named \<Rightarrow>
      (case (case named of Some row \<Rightarrow> if names_objection d row then Some row else None | None \<Rightarrow> None) of
        None \<Rightarrow> refuse ObjectionUnknown short
      | Some ob \<Rightarrow>
      if attested_key_id d \<noteq> attested_key_id ob then refuse NotFiledAgainstActor short
      else
        let self_dismissal = (attesting_key_id ob = attesting_key_id d);
            required = dismissal_required sm policy (length roster) self_dismissal;
            counted = count_distinct_roster_scrubs D s (attestation_envelope d) (scrubs d) roster;
            quorum = \<lparr> dq_counted = card counted, dq_required = required, dq_roster_size = length roster \<rparr>
        in
        if dq_counted quorum < dq_required quorum then refuse DismissalQuorumShort quorum
        else put_row D s d \<lparr> dd_outcome = ObjAdmitted, dd_quorum = quorum \<rparr>)))))"

section \<open>The ballot door\<close>

definition admit_ballot ::
  "'s directory \<Rightarrow> 's \<Rightarrow> attestation \<Rightarrow> action_ref option \<Rightarrow> 's \<times> (fed_error + objection_outcome)" where
  "admit_ballot D s b supplied =
     (let refused = (\<lambda>r. (s, Inr (ObjRefused r))) in
      if \<not> is_ballot b then refused DimensionMismatch
      else case envelope_cohort b of None \<Rightarrow> refused MalformedEnvelope
      | Some (cohort, key) \<Rightarrow>
      (case envelope_str b OBJECTS_TO of None \<Rightarrow> refused MalformedEnvelope
      | Some aid \<Rightarrow>
      (case envelope_str b BALLOT_ON of None \<Rightarrow> refused MalformedEnvelope
      | Some oid \<Rightarrow>
      if aid = [] \<or> oid = [] then refused MalformedEnvelope
      else case cohort_state D s cohort key of Inl e \<Rightarrow> (s, Inl e)
      | Inr None \<Rightarrow> refused CohortUnknown
      | Inr (Some (roster, None)) \<Rightarrow> refused RefusedNotGoverned
      | Inr (Some (roster, Some policy)) \<Rightarrow>
      if rq_steward policy = None then refused StewardTierNotAdopted
      else if attesting_key_id b \<notin> set roster then refused NotACohortMember
      else case resolve_action D s supplied aid of Inl e \<Rightarrow> (s, Inl e)
      | Inr None \<Rightarrow> refused TargetActionUnknown
      | Inr (Some action) \<Rightarrow>
      if attested_key_id b \<noteq> actor_key_id action then refused NotFiledAgainstActor
      else if attesting_key_id b = actor_key_id action then refused ActorRecused
      else if asserted_at b < action_asserted_at action then refused BallotPredatesAction
      else if \<not> signed_by_author D s b then refused UnverifiableSignature
      else case dir_get_attestation D s oid of Inl e \<Rightarrow> (s, Inl e)
      | Inr named \<Rightarrow>
      if (case named of None \<Rightarrow> True | Some row \<Rightarrow>
            \<not> (envelope_str row ''dimension'' = Some DIMENSION_OBJECTION \<and> envelope_str row OBJECTS_TO = Some aid))
      then refused ObjectionUnknown
      else put_row D s b ObjAdmitted)))"

definition record_objection_ballot where
  "record_objection_ballot D s b = admit_ballot D s b None"

definition record_objection_ballot_against where
  "record_objection_ballot_against D s b action = admit_ballot D s b (Some action)"

section \<open>The read-time answer\<close>

definition is_self_dismissal :: "attestation list \<Rightarrow> attestation \<Rightarrow> bool" where
  "is_self_dismissal objections d \<longleftrightarrow>
     (case envelope_str d DISMISSES of
        None \<Rightarrow> False
      | Some oid \<Rightarrow> list_ex (\<lambda>ob. attestation_id ob = oid \<and> attesting_key_id ob = attesting_key_id d) objections)"

definition dismissal_verified ::
  "(nat \<Rightarrow> nat) \<Rightarrow> 's directory \<Rightarrow> 's \<Rightarrow> rq_policy \<Rightarrow> string list \<Rightarrow> attestation list \<Rightarrow> attestation \<Rightarrow> bool" where
  "dismissal_verified sm D s policy roster objections d \<longleftrightarrow>
     dismissal_required sm policy (length roster) (is_self_dismissal objections d) \<le>
       card (count_distinct_roster_scrubs D s (attestation_envelope d) (scrubs d) roster)"

definition is_dismissal :: "attestation \<Rightarrow> bool" where
  "is_dismissal r \<longleftrightarrow> envelope_str r ''dimension'' = Some DIMENSION_DISMISSAL"

definition rq_inputs_of ::
  "(nat \<Rightarrow> nat) \<Rightarrow> 's directory \<Rightarrow> 's \<Rightarrow> string list \<Rightarrow> rq_policy option \<Rightarrow> string list \<Rightarrow> action_ref \<Rightarrow> instant
     \<Rightarrow> attestation list \<Rightarrow> rq_inputs" where
  "rq_inputs_of sm D s roster policy duty action now rows =
     (let ballots = filter is_ballot rows;
          rest = filter (\<lambda>r. \<not> is_ballot r) rows;
          dismissals = filter is_dismissal rest;
          objections = filter (\<lambda>r. \<not> is_dismissal r) rest;
          verified = (case policy of None \<Rightarrow> []
                      | Some p \<Rightarrow> filter (dismissal_verified sm D s p roster objections) dismissals)
      in \<lparr> in_action = action, in_objections = objections, in_dismissals = verified, in_ballots = ballots,
           in_roster = roster, in_duty_holders = duty, in_policy = policy, in_now = now \<rparr>)"

definition duty_holders_of ::
  "'s directory \<Rightarrow> 's \<Rightarrow> cohort \<Rightarrow> string \<Rightarrow> rq_policy option \<Rightarrow> string list option \<Rightarrow> fed_error + string list" where
  "duty_holders_of D s cohort key policy given =
     (case given of
        Some g \<Rightarrow> Inr g
      | None \<Rightarrow>
          if Option.bind policy rq_steward \<noteq> None \<and> (cohort = Community \<or> cohort = Affiliations)
          then dir_moderators D s key
          else Inr [])"

definition resolve_reverse_quorum_with ::
  "chrono \<Rightarrow> (nat \<Rightarrow> nat) \<Rightarrow> 's directory \<Rightarrow> 's \<Rightarrow> cohort \<Rightarrow> string \<Rightarrow> string list \<Rightarrow> rq_policy option
     \<Rightarrow> string list option \<Rightarrow> action_ref \<Rightarrow> instant \<Rightarrow> (fed_error + rq_fold) option" where
  "resolve_reverse_quorum_with C sm D s cohort key roster policy given action now =
     (case objections_against D s action of
        None \<Rightarrow> None
      | Some (Inl e) \<Rightarrow> Some (Inl e)
      | Some (Inr rows) \<Rightarrow>
          (case duty_holders_of D s cohort key policy given of
             Inl e \<Rightarrow> Some (Inl e)
           | Inr duty \<Rightarrow>
               Some (Inr (fold_reverse_quorum_over C sm (rq_inputs_of sm D s roster policy duty action now rows)))))"

definition resolve_reverse_quorum_for ::
  "chrono \<Rightarrow> (nat \<Rightarrow> nat) \<Rightarrow> 's directory \<Rightarrow> 's \<Rightarrow> cohort \<Rightarrow> string \<Rightarrow> action_ref \<Rightarrow> instant
     \<Rightarrow> (fed_error + rq_fold) option" where
  "resolve_reverse_quorum_for C sm D s cohort key action now =
     (case cohort_state D s cohort key of
        Inl e \<Rightarrow> Some (Inl e)
      | Inr st \<Rightarrow>
          (case (case st of None \<Rightarrow> ([], None) | Some x \<Rightarrow> x) of
             (roster, policy) \<Rightarrow> resolve_reverse_quorum_with C sm D s cohort key roster policy None action now))"

definition resolve_reverse_quorum where
  "resolve_reverse_quorum C sm D s cohort key action now =
     resolve_reverse_quorum_for C sm D s cohort key (action_ref_of action) now"

section \<open>What the doors rely on\<close>

text \<open>
  A row as it is stored: the store may fill in the columns it computes itself.
\<close>

definition stored_as :: "attestation \<Rightarrow> attestation \<Rightarrow> bool" where
  "stored_as row r \<longleftrightarrow>
     attestation_id r = attestation_id row \<and> attesting_key_id r = attesting_key_id row \<and>
     attested_key_id r = attested_key_id row \<and> asserted_at r = asserted_at row \<and>
     attestation_envelope r = attestation_envelope row \<and> scrubs r = scrubs row \<and>
     att_tier r = att_tier row"

text \<open>
  The documented behaviour of a directory the properties below assume: its executor meets the page
  contract over the rows it holds; a lookup by id answers with a held row of that id; a successful
  put keeps the rows held, adds the row, and leaves the rosters, the policies and the registered
  keys as they were.
\<close>

definition directory_laws :: "'s directory \<Rightarrow> ('s \<Rightarrow> bool) \<Rightarrow> ('s \<Rightarrow> attestation list) \<Rightarrow> bool" where
  "directory_laws D ok rows \<longleftrightarrow>
     attestation_store ok rows (dir_exec D) \<and>
     (\<forall>s i r. ok s \<longrightarrow> dir_get_attestation D s i = Inr (Some r) \<longrightarrow> r \<in> set (rows s) \<and> attestation_id r = i) \<and>
     (\<forall>s row s'. ok s \<longrightarrow> dir_put D s row = (s', Inr ()) \<longrightarrow>
        ok s' \<and> set (rows s) \<subseteq> set (rows s') \<and> (\<exists>r \<in> set (rows s'). stored_as row r) \<and>
        dir_verify D s' = dir_verify D s)"

lemma stored_as_envelope: "stored_as row r \<Longrightarrow> envelope_str r k = envelope_str row k"
  by (simp add: stored_as_def envelope_str_def)

lemma objections_query_ok:
  "query_text (objections_query a)" "validate (objections_query a) = Inr ()" "0 < q_limit (objections_query a)"
proof -
  have "utf8 ''objection:''" by code_simp
  then show "query_text (objections_query a)"
    by (simp add: query_text_def objections_query_def dimension_prefix_def query_to_def pinned_def)
qed (simp_all add: validate_def objections_query_def dimension_prefix_def query_to_def pinned_def
    FOLD_PAGE_def MAX_PAGE_def)

lemma family_prefix: "of_objection_family r \<Longrightarrow> \<exists>d. envelope_str r ''dimension'' = Some d \<and> starts_with ''objection:'' d"
  by (auto simp: of_objection_family_def rq_dimensions starts_with_def)

lemma admits_objections_query:
  "admits (objections_query a) r \<longleftrightarrow> attested_key_id r = a \<and> att_tier r = TIER_FEDERATION \<and>
     (\<exists>d. envelope_str r ''dimension'' = Some d \<and> starts_with ''objection:'' d)"
  by (auto simp: admits_def objections_query_def dimension_prefix_def query_to_def pinned_def Let_def
      envelope_dimension_def envelope_str_def split: option.splits)

text \<open>The read of the doors and of the fold finds exactly the rows of the objection family about the action.\<close>

lemma objections_against_rows:
  assumes laws: "directory_laws D ok rows" and s: "ok s"
  shows "\<exists>found. objections_against D s action = Some (Inr found) \<and>
    set found = {r \<in> set (rows s). attested_key_id r = actor_key_id action \<and> att_tier r = TIER_FEDERATION \<and>
      of_objection_family r \<and> envelope_str r OBJECTS_TO = Some (action_id action)}"
proof -
  let ?q = "objections_query (actor_key_id action)"
  have store: "attestation_store ok rows (dir_exec D)" using laws by (simp add: directory_laws_def)
  have "walk (dir_exec D s) (query_pages ?q) [] = Some (Inr (query_sort ?q (filter (admits ?q) (rows s))))"
    by (rule attestation_store.pages_complete[OF store s objections_query_ok])
  then have "objections_against D s action = Some (Inr (filter
      (\<lambda>r. of_objection_family r \<and> envelope_str r OBJECTS_TO = Some (action_id action))
      (query_sort ?q (filter (admits ?q) (rows s)))))"
    by (simp add: objections_against_def)
  then show ?thesis
    using family_prefix by (auto simp: query_sort_def admits_objections_query)
qed

section \<open>What an admission went through\<close>

lemma put_row_ok: "put_row D s row x = (s', Inr y) \<longleftrightarrow> dir_put D s row = (s', Inr ()) \<and> y = x"
  by (auto simp: put_row_def split: prod.splits sum.splits)

lemma put_row_refused: "put_row D s row x = (s', Inr y) \<Longrightarrow> y = x"
  by (simp add: put_row_ok)

lemma admit_objectionE:
  assumes "admit_objection D s ob supplied = Some (s', Inr ObjAdmitted)"
  obtains cohort key aid roster p action found where
    "envelope_str ob ''dimension'' = Some DIMENSION_OBJECTION" "envelope_cohort ob = Some (cohort, key)"
    "envelope_str ob OBJECTS_TO = Some aid" "cohort_state D s cohort key = Inr (Some (roster, Some p))"
    "attesting_key_id ob \<in> set roster" "resolve_action D s supplied aid = Inr (Some action)"
    "attested_key_id ob = actor_key_id action" "signed_by_author D s ob"
    "objections_against D s action = Some (Inr found)" "\<not> list_ex (prior_objection ob) found"
    "dir_put D s ob = (s', Inr ())"
  using assms unfolding admit_objection_def Let_def
  by (force simp: put_row_ok split: if_splits option.splits sum.splits prod.splits)

lemma record_dismissalE:
  assumes "record_objection_dismissal sm D s d = (s', Inr dec)" "dd_outcome dec = ObjAdmitted"
  obtains cohort key oid roster p ob where
    "envelope_str d ''dimension'' = Some DIMENSION_DISMISSAL" "envelope_cohort d = Some (cohort, key)"
    "envelope_str d DISMISSES = Some oid" "cohort_state D s cohort key = Inr (Some (roster, Some p))"
    "dir_get_attestation D s oid = Inr (Some ob)" "names_objection d ob" "attested_key_id d = attested_key_id ob"
    "dismissal_required sm p (length roster) (attesting_key_id ob = attesting_key_id d) \<le>
       card (count_distinct_roster_scrubs D s (attestation_envelope d) (scrubs d) roster)"
    "dir_put D s d = (s', Inr ())"
  using assms unfolding record_objection_dismissal_def Let_def
  by (force simp: put_row_ok split: if_splits option.splits sum.splits prod.splits)

section \<open>Counting signatures\<close>

lemma count_step_fold:
  "fold (count_step D s env roster) scs acc =
     acc \<union> {k \<in> set roster. \<exists>sc \<in> set scs. sc_key_id sc = k \<and>
       dir_verify D s k env (sc_signature_classical sc) (sc_signature_pqc sc)}"
proof (induction scs arbitrary: acc)
  case (Cons sc scs)
  show ?case unfolding fold_simps comp_apply Cons.IH by (auto simp: count_step_def)
qed simp

lemma count_distinct_set:
  "count_distinct_roster_scrubs D s env scs roster =
     {k \<in> set roster. \<exists>sc \<in> set scs. sc_key_id sc = k \<and>
       dir_verify D s k env (sc_signature_classical sc) (sc_signature_pqc sc)}"
  by (simp add: count_distinct_roster_scrubs_def count_step_fold)

section \<open>The rows the answer is folded from\<close>

lemma rq_inputs_of_fields:
  "in_action (rq_inputs_of sm D s roster policy duty action now rows) = action"
  "in_roster (rq_inputs_of sm D s roster policy duty action now rows) = roster"
  "in_policy (rq_inputs_of sm D s roster policy duty action now rows) = policy"
  "in_objections (rq_inputs_of sm D s roster policy duty action now rows) =
     filter (\<lambda>r. \<not> is_dismissal r) (filter (\<lambda>r. \<not> is_ballot r) rows)"
  by (simp_all add: rq_inputs_of_def Let_def)

lemma objection_kinds:
  assumes "envelope_str r ''dimension'' = Some DIMENSION_OBJECTION"
  shows "\<not> is_ballot r" "\<not> is_dismissal r" "of_objection_family r"
  using assms by (simp_all add: is_ballot_def is_dismissal_def of_objection_family_def rq_dimensions)

lemma dismissal_kinds:
  assumes "envelope_str r ''dimension'' = Some DIMENSION_DISMISSAL"
  shows "\<not> is_ballot r" "is_dismissal r" "of_objection_family r"
  using assms by (simp_all add: is_ballot_def is_dismissal_def of_objection_family_def rq_dimensions)

lemma fold_step_grows: "set (fa_counted acc) \<subseteq> set (fa_counted (fold_step sc dis esc ob acc))"
  by (auto simp: fold_step_def Let_def split: option.splits)

lemma fold_steps_grow: "set (fa_counted acc) \<subseteq> set (fa_counted (fold (fold_step sc dis esc) obs acc))"
proof (induction obs arbitrary: acc)
  case (Cons ob obs)
  show ?case
    using fold_step_grows[of acc sc dis esc ob] Cons.IH[of "fold_step sc dis esc ob acc"]
    unfolding fold_simps by (rule subset_trans)
qed simp

lemma fold_step_new:
  assumes "k \<in> fa_objectors (fold_step sc dis esc ob acc)" "k \<notin> fa_objectors acc"
  shows "attesting_key_id ob = k \<and> attestation_id ob \<in> set (fa_counted (fold_step sc dis esc ob acc))"
  using assms by (auto simp: fold_step_def Let_def split: option.splits if_splits)

lemma fold_step_counted:
  "k \<in> fa_objectors (fold (fold_step sc dis esc) obs acc) \<Longrightarrow> k \<notin> fa_objectors acc \<Longrightarrow>
     \<exists>ob \<in> set obs. attesting_key_id ob = k \<and> attestation_id ob \<in> set (fa_counted (fold (fold_step sc dis esc) obs acc))"
proof (induction obs arbitrary: acc)
  case (Cons ob obs)
  let ?acc = "fold_step sc dis esc ob acc"
  show ?case
  proof (cases "k \<in> fa_objectors ?acc")
    case True
    then show ?thesis
      using fold_step_new[OF True Cons.prems(2)] fold_steps_grow[of ?acc sc dis esc obs]
      by (intro bexI[of _ ob]) auto
  next
    case False
    from Cons.prems(1) have "k \<in> fa_objectors (fold (fold_step sc dis esc) obs ?acc)" by simp
    from Cons.IH[OF this False] show ?thesis by (auto intro: bexI)
  qed
qed simp

text \<open>Every objection in scope is counted for its author, or the answer names what lifted it.\<close>

lemma objection_accounted:
  assumes policy: "in_policy inp = Some p" and ob: "ob \<in> set (in_objections inp)"
    and sc: "objection_in_scope (in_action inp) (in_roster inp) (action_asserted_at (in_action inp))
      (snd (rq_window C p (action_asserted_at (in_action inp)))) ob"
    and f_def: "f = fold_reverse_quorum_over C sm inp"
  shows "(\<exists>r \<in> set (in_objections inp). attesting_key_id r = attesting_key_id ob \<and>
      attestation_id r \<in> set (rf_counted_objection_ids f)) \<or>
    attestation_id ob \<in> set (rf_dismissed_objection_ids f) \<or>
    attestation_id ob \<in> set (rf_escalated_dismissed_ids f)"
proof -
  let ?sc = "objection_in_scope (in_action inp) (in_roster inp) (action_asserted_at (in_action inp))
    (snd (rq_window C p (action_asserted_at (in_action inp))))"
  let ?dis = "dismissed_names (in_dismissals inp)" and ?esc = "escalate_of C sm inp p"
  let ?acc = "fold (fold_step ?sc ?dis ?esc) (in_objections inp) fold_acc_empty"
  have lists: "set (rf_counted_objection_ids f) = set (fa_counted ?acc)"
      "set (rf_dismissed_objection_ids f) = set (fa_dismissed ?acc)"
      "set (rf_escalated_dismissed_ids f) = set (fa_escalated ?acc)"
    by (simp_all add: f_def fold_reverse_quorum_over_def policy Let_def rq_window_def)
  show ?thesis
  proof (cases "objection_live ?sc ?dis ?esc ob")
    case True
    then have "attesting_key_id ob \<in> fa_objectors ?acc" using ob by (auto simp: fold_step_objectors)
    moreover have "attesting_key_id ob \<notin> fa_objectors fold_acc_empty" by (simp add: fold_acc_empty_def)
    ultimately show ?thesis unfolding lists using fold_step_counted by blast
  next
    case False
    then have "attestation_id ob \<in> set (fa_dismissed ?acc) \<or> attestation_id ob \<in> set (fa_escalated ?acc)"
      using ob sc by (auto simp: fold_step_lists objection_live_def split: option.splits)
    then show ?thesis unfolding lists by blast
  qed
qed

lemma objection_dismissed:
  assumes "in_policy inp = Some p" "ob \<in> set (in_objections inp)"
    "objection_in_scope (in_action inp) (in_roster inp) (action_asserted_at (in_action inp))
      (snd (rq_window C p (action_asserted_at (in_action inp)))) ob"
    "attestation_id ob \<in> dismissed_names (in_dismissals inp)"
  shows "attestation_id ob \<in> set (rf_dismissed_objection_ids (fold_reverse_quorum_over C sm inp))"
  using assms
  by (auto simp: fold_reverse_quorum_over_def Let_def rq_window_def fold_step_lists fold_acc_empty_def)

lemma dismissed_objection:
  assumes "in_policy inp = Some p"
    "i \<in> set (rf_dismissed_objection_ids (fold_reverse_quorum_over C sm inp))"
  shows "\<exists>ob \<in> set (in_objections inp). attestation_id ob = i \<and> i \<in> dismissed_names (in_dismissals inp)"
  using assms
  by (auto simp: fold_reverse_quorum_over_def Let_def rq_window_def fold_step_lists fold_acc_empty_def)

section \<open>What a door leaves behind\<close>

lemma admit_objection_result:
  "admit_objection D s ob supplied = Some (s', r) \<Longrightarrow>
     (s' = s \<and> r \<noteq> Inr ObjAdmitted) \<or> put_row D s ob ObjAdmitted = (s', r)"
  unfolding admit_objection_def Let_def
  by (simp split: if_splits option.splits sum.splits prod.splits) auto

lemma admit_ballot_result:
  "admit_ballot D s b supplied = (s', r) \<Longrightarrow>
     (s' = s \<and> r \<noteq> Inr ObjAdmitted) \<or> put_row D s b ObjAdmitted = (s', r)"
  unfolding admit_ballot_def Let_def
  by (simp split: if_splits option.splits sum.splits prod.splits) auto

lemma record_dismissal_result:
  "record_objection_dismissal sm D s d = (s', r) \<Longrightarrow>
     (s' = s \<and> (\<forall>dec. r = Inr dec \<longrightarrow> dd_outcome dec \<noteq> ObjAdmitted)) \<or>
     (\<exists>q. put_row D s d \<lparr> dd_outcome = ObjAdmitted, dd_quorum = q \<rparr> = (s', r))"
  unfolding record_objection_dismissal_def Let_def
  by (simp split: if_splits option.splits sum.splits prod.splits) auto

lemma put_row_result:
  assumes "put_row D s row x = (s', r)"
  shows "(r = Inr x \<and> dir_put D s row = (s', Inr ())) \<or> (\<exists>e. r = Inl e \<and> dir_put D s row = (s', Inl e))"
  using assms by (auto simp: put_row_def split: prod.splits sum.splits)

lemma resolve_action_id:
  assumes "directory_laws D ok rows" "ok s" "resolve_action D s supplied aid = Inr (Some action)"
  shows "action_id action = aid"
  using assms by (auto simp: resolve_action_def directory_laws_def action_ref_of_def
      split: option.splits sum.splits if_splits)

lemma resolved_inputs:
  assumes "directory_laws D ok rows" "ok s"
  obtains found where "set found = {r \<in> set (rows s). attested_key_id r = actor_key_id action \<and>
      att_tier r = TIER_FEDERATION \<and> of_objection_family r \<and> envelope_str r OBJECTS_TO = Some (action_id action)}"
    "resolve_reverse_quorum_with C sm D s cohort key roster policy (Some duty) action now =
       Some (Inr (fold_reverse_quorum_over C sm (rq_inputs_of sm D s roster policy duty action now found)))"
  using objections_against_rows[OF assms, of action]
  by (auto simp: resolve_reverse_quorum_with_def duty_holders_of_def)

text \<open>The price the undo door asked covers the price the read asks.\<close>

lemma dismissal_lifts:
  assumes laws: "directory_laws D ok rows" and s: "ok s"
    and adm: "record_objection_dismissal sm D s d = (s', Inr dec)" "dd_outcome dec = ObjAdmitted"
    and cohort: "envelope_cohort d = Some (cohort, key)"
    and st: "cohort_state D s cohort key = Inr (Some (roster, Some p))"
    and ob: "envelope_str d DISMISSES = Some oid" "dir_get_attestation D s oid = Inr (Some ob)"
    and tiers: "att_tier d = TIER_FEDERATION" "att_tier ob = TIER_FEDERATION"
    and action: "actor_key_id action = attested_key_id ob" "envelope_str ob OBJECTS_TO = Some (action_id action)"
    and member: "attesting_key_id ob \<in> set roster"
    and window: "action_asserted_at action \<le> asserted_at ob"
      "asserted_at ob \<le> snd (rq_window C p (action_asserted_at action))"
  shows "\<exists>f. resolve_reverse_quorum_with C sm D s' cohort key roster (Some p) (Some duty) action now = Some (Inr f) \<and>
    oid \<in> set (rf_dismissed_objection_ids f)"
proof -
  have gates: "envelope_str d ''dimension'' = Some DIMENSION_DISMISSAL" "names_objection d ob"
      "attested_key_id d = attested_key_id ob" "dir_put D s d = (s', Inr ())"
      "dismissal_required sm p (length roster) (attesting_key_id ob = attesting_key_id d) \<le>
         card (count_distinct_roster_scrubs D s (attestation_envelope d) (scrubs d) roster)"
    using adm cohort st ob by (auto elim!: record_dismissalE)
  obtain r where s': "ok s'" "set (rows s) \<subseteq> set (rows s')" "dir_verify D s' = dir_verify D s"
      and r: "r \<in> set (rows s')" "stored_as d r"
    using laws s gates(4) unfolding directory_laws_def by blast
  have held: "ob \<in> set (rows s')" "attestation_id ob = oid"
    using laws s ob(2) s'(2) unfolding directory_laws_def by blast+
  obtain found where found: "set found = {r \<in> set (rows s'). attested_key_id r = actor_key_id action \<and>
        att_tier r = TIER_FEDERATION \<and> of_objection_family r \<and> envelope_str r OBJECTS_TO = Some (action_id action)}"
      and res: "resolve_reverse_quorum_with C sm D s' cohort key roster (Some p) (Some duty) action now =
        Some (Inr (fold_reverse_quorum_over C sm (rq_inputs_of sm D s' roster (Some p) duty action now found)))"
    using resolved_inputs[OF laws s'(1)] by blast
  let ?inp = "rq_inputs_of sm D s' roster (Some p) duty action now found"
  have ob_dim: "envelope_str ob ''dimension'' = Some DIMENSION_OBJECTION"
    using gates(2) by (simp add: names_objection_def)
  have ob_in: "ob \<in> set (in_objections ?inp)"
    using held(1) action tiers(2) objection_kinds[OF ob_dim] unfolding rq_inputs_of_fields(4) by (simp add: found)
  have r_dim: "envelope_str r ''dimension'' = Some DIMENSION_DISMISSAL" and r_names: "envelope_str r DISMISSES = Some oid"
    using gates(1) ob(1) stored_as_envelope[OF r(2)] by simp_all
  have r_found: "r \<in> set found"
    using r gates(2,3) action tiers(1) dismissal_kinds[OF r_dim] stored_as_envelope[OF r(2), of OBJECTS_TO]
    unfolding found by (simp add: stored_as_def names_objection_def)
  have self: "is_self_dismissal (in_objections ?inp) r" if "attesting_key_id ob = attesting_key_id d"
    using ob_in held(2) that r(2) r_names by (auto simp: is_self_dismissal_def list_ex_iff stored_as_def)
  have "dismissal_required sm p (length roster) (is_self_dismissal (in_objections ?inp) r) \<le>
      dismissal_required sm p (length roster) (attesting_key_id ob = attesting_key_id d)"
    using self by (auto simp: dismissal_required_def OBJECTION_THRESHOLD_def dismissal_threshold_def)
  then have "dismissal_verified sm D s' p roster (in_objections ?inp) r"
    using gates(5) r(2) s'(3) by (simp add: dismissal_verified_def count_distinct_set stored_as_def)
  then have "r \<in> set (in_dismissals ?inp)"
    using r_found dismissal_kinds[OF r_dim] by (simp add: rq_inputs_of_def Let_def)
  then have "oid \<in> dismissed_names (in_dismissals ?inp)"
    using r_dim r_names by (force simp: dismissed_names_def map_filter_def)
  then have "attestation_id ob \<in> set (rf_dismissed_objection_ids (fold_reverse_quorum_over C sm ?inp))"
    using ob_in ob_dim held(2) member window action(2)
    by (intro objection_dismissed[where p = p]) (simp_all add: rq_inputs_of_fields objection_in_scope_def)
  then show ?thesis using res held(2) by simp
qed

section \<open>The properties of the doors\<close>

text \<open>C23: No door writes before it has admitted: whenever a door refuses, for whatever reason, the directory is
  exactly as it was; a door that admits has made one put, of the row it was offered; and an error
  leaves the directory as it was or as the failed put left it.\<close>

theorem doors_refuse_without_writing:
  "(case admit_objection D s row supplied of
      None \<Rightarrow> True
    | Some (s', Inl e) \<Rightarrow> s' = s \<or> dir_put D s row = (s', Inl e)
    | Some (s', Inr ObjAdmitted) \<Rightarrow> dir_put D s row = (s', Inr ())
    | Some (s', Inr (ObjRefused _)) \<Rightarrow> s' = s) \<and>
   (case admit_ballot D s row supplied of
      (s', Inl e) \<Rightarrow> s' = s \<or> dir_put D s row = (s', Inl e)
    | (s', Inr ObjAdmitted) \<Rightarrow> dir_put D s row = (s', Inr ())
    | (s', Inr (ObjRefused _)) \<Rightarrow> s' = s) \<and>
   (case record_objection_dismissal sm D s row of
      (s', Inl e) \<Rightarrow> s' = s \<or> dir_put D s row = (s', Inl e)
    | (s', Inr dec) \<Rightarrow>
        (case dd_outcome dec of ObjAdmitted \<Rightarrow> dir_put D s row = (s', Inr ()) | ObjRefused _ \<Rightarrow> s' = s))"
proof (intro conjI, goal_cases)
  case 1
  show ?case
  proof (cases "admit_objection D s row supplied")
    case (Some x)
    obtain s' r where x: "x = (s', r)" by (cases x)
    show ?thesis
      using admit_objection_result[OF Some[unfolded x]] put_row_result[of D s row ObjAdmitted s' r]
      by (cases r) (auto simp: Some x split: objection_outcome.splits)
  qed simp
next
  case 2
  obtain s' r where x: "admit_ballot D s row supplied = (s', r)" by (cases "admit_ballot D s row supplied")
  show ?case
    using admit_ballot_result[OF x] put_row_result[of D s row ObjAdmitted s' r]
    by (cases r) (auto simp: x split: objection_outcome.splits)
next
  case 3
  obtain s' r where x: "record_objection_dismissal sm D s row = (s', r)"
    by (cases "record_objection_dismissal sm D s row")
  show ?case
    using record_dismissal_result[OF x]
    by (cases r) (auto simp: x dest!: put_row_result split: objection_outcome.splits)
qed

text \<open>An admitted objection is never inert: in the state after its admission, the answer about the action it
  names, over the roster and policy of its cohort, counts its author, or names the objection among
  those lifted by a verified dismissal or by escalation, whenever it is dated within the window.\<close>

theorem admitted_objection_counts:
  assumes laws: "directory_laws D ok rows" and s: "ok s" and tier: "att_tier ob = TIER_FEDERATION"
    and adm: "admit_objection D s ob supplied = Some (s', Inr ObjAdmitted)"
    and cohort: "envelope_cohort ob = Some (cohort, key)"
    and st: "cohort_state D s cohort key = Inr (Some (roster, Some p))"
    and action: "envelope_str ob OBJECTS_TO = Some aid" "resolve_action D s supplied aid = Inr (Some action)"
    and window: "action_asserted_at action \<le> asserted_at ob"
      "asserted_at ob \<le> snd (rq_window C p (action_asserted_at action))"
  shows "\<exists>f. resolve_reverse_quorum_with C sm D s' cohort key roster (Some p) (Some duty) action now = Some (Inr f) \<and>
    ((\<exists>r \<in> set (rows s'). attesting_key_id r = attesting_key_id ob \<and>
        attestation_id r \<in> set (rf_counted_objection_ids f)) \<or>
     attestation_id ob \<in> set (rf_dismissed_objection_ids f) \<or>
     attestation_id ob \<in> set (rf_escalated_dismissed_ids f))"
proof -
  have gates: "envelope_str ob ''dimension'' = Some DIMENSION_OBJECTION" "attesting_key_id ob \<in> set roster"
      "attested_key_id ob = actor_key_id action" "dir_put D s ob = (s', Inr ())"
    using adm cohort st action by (auto elim!: admit_objectionE)
  have aid: "action_id action = aid" using resolve_action_id[OF laws s action(2)] .
  obtain r where s': "ok s'" and r: "r \<in> set (rows s')" "stored_as ob r"
    using laws s gates(4) unfolding directory_laws_def by blast
  obtain found where found: "set found = {r \<in> set (rows s'). attested_key_id r = actor_key_id action \<and>
        att_tier r = TIER_FEDERATION \<and> of_objection_family r \<and> envelope_str r OBJECTS_TO = Some (action_id action)}"
      and res: "resolve_reverse_quorum_with C sm D s' cohort key roster (Some p) (Some duty) action now =
        Some (Inr (fold_reverse_quorum_over C sm (rq_inputs_of sm D s' roster (Some p) duty action now found)))"
    using resolved_inputs[OF laws s'] by blast
  let ?inp = "rq_inputs_of sm D s' roster (Some p) duty action now found"
  have dim: "envelope_str r ''dimension'' = Some DIMENSION_OBJECTION"
    using gates(1) stored_as_envelope[OF r(2)] by simp
  have fields: "attestation_id r = attestation_id ob" "attesting_key_id r = attesting_key_id ob"
      "asserted_at r = asserted_at ob" "envelope_str r OBJECTS_TO = Some aid"
    using r(2) action(1) stored_as_envelope[OF r(2)] by (simp_all add: stored_as_def)
  have "r \<in> set found"
    using r gates(3) tier objection_kinds[OF dim] fields(4) aid unfolding found by (simp add: stored_as_def)
  then have "r \<in> set (in_objections ?inp)" using objection_kinds[OF dim] by (simp add: rq_inputs_of_fields)
  moreover have "objection_in_scope action roster (action_asserted_at action)
      (snd (rq_window C p (action_asserted_at action))) r"
    using dim fields gates(2) window aid by (simp add: objection_in_scope_def)
  ultimately have "(\<exists>r' \<in> set (in_objections ?inp). attesting_key_id r' = attesting_key_id r \<and>
      attestation_id r' \<in> set (rf_counted_objection_ids (fold_reverse_quorum_over C sm ?inp))) \<or>
    attestation_id r \<in> set (rf_dismissed_objection_ids (fold_reverse_quorum_over C sm ?inp)) \<or>
    attestation_id r \<in> set (rf_escalated_dismissed_ids (fold_reverse_quorum_over C sm ?inp))"
    by (intro objection_accounted[where p = p]) (simp_all add: rq_inputs_of_fields)
  moreover have "set (in_objections ?inp) \<subseteq> set (rows s')" using found by (auto simp: rq_inputs_of_fields)
  ultimately show ?thesis unfolding res fields by blast
qed

text \<open>The undo door and the read agree on the price: a dismissal that was admitted lifts the objection it
  names in the answer folded from the state after it, over the same roster and policy, including when
  it was admitted at the price of one because its author is the objector.\<close>

theorem admitted_dismissal_lifts:
  assumes laws: "directory_laws D ok rows" and s: "ok s"
    and adm: "record_objection_dismissal sm D s d = (s', Inr dec)" "dd_outcome dec = ObjAdmitted"
    and cohort: "envelope_cohort d = Some (cohort, key)"
    and st: "cohort_state D s cohort key = Inr (Some (roster, Some p))"
    and ob: "envelope_str d DISMISSES = Some oid" "dir_get_attestation D s oid = Inr (Some ob)"
    and tiers: "att_tier d = TIER_FEDERATION" "att_tier ob = TIER_FEDERATION"
    and action: "actor_key_id action = attested_key_id ob" "envelope_str ob OBJECTS_TO = Some (action_id action)"
    and member: "attesting_key_id ob \<in> set roster"
    and window: "action_asserted_at action \<le> asserted_at ob"
      "asserted_at ob \<le> snd (rq_window C p (action_asserted_at action))"
  shows "\<exists>f. resolve_reverse_quorum_with C sm D s' cohort key roster (Some p) (Some duty) action now = Some (Inr f) \<and>
    oid \<in> set (rf_dismissed_objection_ids f)"
  using assms by (rule dismissal_lifts)


section \<open>A directory over one table\<close>

text \<open>
  A concrete directory for the witnesses: its state is a table of rows, read by the planned
  statements; one roster and one policy; a signature verifies when it reads \<open>s\<close>.
\<close>

definition table_directory :: "string list \<Rightarrow> rq_policy \<Rightarrow> attestation list directory" where
  "table_directory roster p =
     \<lparr> dir_lookup_group = (\<lambda>s c k. Inr (Some \<lparr> gr_consensus_protocol = Some (to_protocol_string p) \<rparr>)),
       dir_active_members = (\<lambda>s c k. Inr roster),
       dir_get_attestation = (\<lambda>s i. Inr (find (\<lambda>r. attestation_id r = i) s)),
       dir_exec = sql_exec json_text_std,
       dir_verify = (\<lambda>s k env sig pq. sig = ''s''),
       dir_moderators = (\<lambda>s k. Inr []),
       dir_put = (\<lambda>s row. if table_ok (row # s) then (row # s, Inr ()) else (s, Inl (Backend ''duplicate''))) \<rparr>"

lemma table_store: "attestation_store table_ok (\<lambda>s. s) (sql_exec json_text_std)"
proof
  show "distinct (map attestation_id s)" if "table_ok s" for s using that by (simp add: table_ok_def)
  show "sql_exec json_text_std s q = Inr (take (fetch q) (query_sort q (filter (admits q) s)))"
    if "table_ok s" "query_text q" for s q
    using sql_store.exec_page[of "(json_text_std, s)" q] that json_text_std_law by simp
qed

lemma table_directory_laws: "directory_laws (table_directory roster p) table_ok (\<lambda>s. s)"
  unfolding directory_laws_def
proof (intro conjI allI impI, goal_cases)
  case 1
  then show ?case using table_store by (simp add: table_directory_def)
qed (auto simp: table_directory_def stored_as_def find_Some_iff split: if_splits)

lemma table_cohort_state:
  "policy_wf p \<Longrightarrow> cohort_state (table_directory roster p) s c k = Inr (Some (roster, Some p))"
  using rq_parse_to_protocol[of p] by (simp add: cohort_state_def table_directory_def)

section \<open>Witnesses of the doors\<close>

abbreviation (input) ex_dir :: "attestation list directory" where
  "ex_dir \<equiv> table_directory ex_members ex_rq"

definition ex_act :: attestation where
  "ex_act = ex_row ''act'' ''x'' 0 (JObject [])"

definition ex_self_dismissal :: attestation where
  "ex_self_dismissal = ex_row ''d'' ''a'' 2 (dismissal_envelope Community ''g'' ''act'' ''o'' '''')"

lemma ex_tables:
  "table_ok [ex_act]" "table_ok [ex_objection ''o'' ''a'', ex_act]"
  "table_ok [ex_self_dismissal, ex_objection ''o'' ''a'', ex_act]"
  by code_simp+

lemma ex_envelopes:
  "envelope_cohort (ex_objection i k) = Some (Community, ''g'')"
  "envelope_str (ex_objection i k) OBJECTS_TO = Some ''act''"
  "envelope_str (ex_objection i k) ''dimension'' = Some DIMENSION_OBJECTION"
  "envelope_cohort ex_self_dismissal = Some (Community, ''g'')"
  "envelope_str ex_self_dismissal DISMISSES = Some ''o''"
  "envelope_str ex_act ''dimension'' = None"
  by (simp_all add: envelope_cohort_def parse_cohort_def row_eval ex_self_dismissal_def ex_act_def
      dismissal_envelope_def)

lemma ex_state: "cohort_state ex_dir s c k = Inr (Some (ex_members, Some ex_rq))"
  by (rule table_cohort_state[OF ex_rq_wf])

lemma ex_window: "1 \<le> snd (rq_window chrono_std ex_rq 0)"
  by code_simp

lemma ex_resolve_action: "resolve_action ex_dir (xs @ [ex_act]) None ''act'' = Inr (Some ex_action)"
  if "find (\<lambda>r. attestation_id r = ''act'') (xs @ [ex_act]) = Some ex_act" for xs
  using that by (simp add: resolve_action_def table_directory_def ex_act_def ex_row_def ex_action_def action_ref_of_def)

lemma ex_admitted:
  "admit_objection ex_dir [ex_act] (ex_objection ''o'' ''a'') None =
     Some ([ex_objection ''o'' ''a'', ex_act], Inr ObjAdmitted)"
proof -
  have "\<not> of_objection_family ex_act" by (simp add: of_objection_family_def ex_envelopes)
  then have "{r \<in> set [ex_act]. attested_key_id r = actor_key_id ex_action \<and> att_tier r = TIER_FEDERATION \<and>
      of_objection_family r \<and> envelope_str r OBJECTS_TO = Some (action_id ex_action)} = {}" by auto
  with objections_against_rows[OF table_directory_laws ex_tables(1), of ex_members ex_rq ex_action]
  have found: "objections_against ex_dir [ex_act] ex_action = Some (Inr [])" by (metis set_empty)
  have act: "resolve_action ex_dir [ex_act] None ''act'' = Inr (Some ex_action)"
    using ex_resolve_action[of "[]"] by (simp add: ex_act_def ex_row_def)
  have rest: "attesting_key_id (ex_objection ''o'' ''a'') = ''a''" "attested_key_id (ex_objection ''o'' ''a'') = ''x''"
      "actor_key_id ex_action = ''x''" "signed_by_author ex_dir [ex_act] (ex_objection ''o'' ''a'')"
    by (simp_all add: row_eval signed_by_author_def table_directory_def)
  have "put_row ex_dir [ex_act] (ex_objection ''o'' ''a'') ObjAdmitted =
      ([ex_objection ''o'' ''a'', ex_act], Inr ObjAdmitted)"
    using ex_tables(2) by (simp add: put_row_def table_directory_def)
  then show ?thesis
    unfolding admit_objection_def Let_def by (simp add: ex_envelopes ex_state act rest found)
qed

lemma ex_dismissed:
  "record_objection_dismissal (\<lambda>n. n div 2 + 1) ex_dir [ex_objection ''o'' ''a'', ex_act] ex_self_dismissal =
     ([ex_self_dismissal, ex_objection ''o'' ''a'', ex_act],
      Inr \<lparr> dd_outcome = ObjAdmitted, dd_quorum = \<lparr> dq_counted = 1, dq_required = 1, dq_roster_size = 5 \<rparr> \<rparr>)"
proof -
  let ?s = "[ex_objection ''o'' ''a'', ex_act]" and ?d = ex_self_dismissal
  have dim: "envelope_str ?d ''dimension'' = Some DIMENSION_DISMISSAL" "attested_key_id ?d = ''x''"
      "attesting_key_id ?d = ''a''" "names_objection ?d (ex_objection ''o'' ''a'')"
    by (simp_all add: names_objection_def row_eval ex_self_dismissal_def dismissal_envelope_def)
  have ob: "dir_get_attestation ex_dir ?s ''o'' = Inr (Some (ex_objection ''o'' ''a''))"
      "attested_key_id (ex_objection ''o'' ''a'') = ''x''" "attesting_key_id (ex_objection ''o'' ''a'') = ''a''"
    by (simp_all add: table_directory_def row_eval)
  have "count_distinct_roster_scrubs ex_dir ?s (attestation_envelope ?d) (scrubs ?d) ex_members = {''a''}"
    by (auto simp: count_distinct_set scrubs_def ex_self_dismissal_def ex_row_def table_directory_def)
  then have price: "card (count_distinct_roster_scrubs ex_dir ?s (attestation_envelope ?d) (scrubs ?d) ex_members) = 1"
    by simp
  have put: "put_row ex_dir ?s ?d x = ([?d, ex_objection ''o'' ''a'', ex_act], Inr x)" for x :: dismissal_decision
    using ex_tables(3) by (simp add: put_row_def table_directory_def)
  show ?thesis
    unfolding record_objection_dismissal_def Let_def
    by (simp add: ex_envelopes ex_state dim ob price put dismissal_required_def OBJECTION_THRESHOLD_def)
qed

theorem admitted_objection_counts_witness:
  "\<exists>f. resolve_reverse_quorum_with chrono_std (\<lambda>n. n div 2 + 1) ex_dir [ex_objection ''o'' ''a'', ex_act]
       Community ''g'' ex_members (Some ex_rq) (Some []) ex_action 5 = Some (Inr f) \<and>
    ((\<exists>r \<in> set [ex_objection ''o'' ''a'', ex_act]. attesting_key_id r = ''a'' \<and>
        attestation_id r \<in> set (rf_counted_objection_ids f)) \<or>
     ''o'' \<in> set (rf_dismissed_objection_ids f) \<or> ''o'' \<in> set (rf_escalated_dismissed_ids f))"
proof -
  have "resolve_action ex_dir [ex_act] None ''act'' = Inr (Some ex_action)"
    using ex_resolve_action[of "[]"] by (simp add: ex_act_def ex_row_def)
  moreover have "att_tier (ex_objection ''o'' ''a'') = TIER_FEDERATION" "asserted_at (ex_objection ''o'' ''a'') = 1"
      "action_asserted_at ex_action = 0" "attesting_key_id (ex_objection ''o'' ''a'') = ''a''"
      "attestation_id (ex_objection ''o'' ''a'') = ''o''"
    by (simp_all add: row_eval)
  ultimately show ?thesis
    using admitted_objection_counts[OF table_directory_laws ex_tables(1) _ ex_admitted ex_envelopes(1) ex_state
        ex_envelopes(2), of ex_action chrono_std "\<lambda>n. n div 2 + 1" "[]" 5] ex_window
    by simp
qed

lemma ex_lift_facts:
  "dir_get_attestation ex_dir [ex_objection ''o'' ''a'', ex_act] ''o'' = Inr (Some (ex_objection ''o'' ''a''))"
  "att_tier ex_self_dismissal = TIER_FEDERATION" "att_tier (ex_objection ''o'' ''a'') = TIER_FEDERATION"
  "actor_key_id ex_action = attested_key_id (ex_objection ''o'' ''a'')"
  "envelope_str (ex_objection ''o'' ''a'') OBJECTS_TO = Some (action_id ex_action)"
  "attesting_key_id (ex_objection ''o'' ''a'') \<in> set ex_members"
  "action_asserted_at ex_action \<le> asserted_at (ex_objection ''o'' ''a'')"
  "asserted_at (ex_objection ''o'' ''a'') \<le> snd (rq_window chrono_std ex_rq (action_asserted_at ex_action))"
  using ex_window by (simp_all add: table_directory_def row_eval ex_self_dismissal_def)

theorem admitted_dismissal_lifts_witness:
  "\<exists>f. resolve_reverse_quorum_with chrono_std (\<lambda>n. n div 2 + 1) ex_dir
      [ex_self_dismissal, ex_objection ''o'' ''a'', ex_act] Community ''g'' ex_members (Some ex_rq) (Some [])
      ex_action 5 = Some (Inr f) \<and> ''o'' \<in> set (rf_dismissed_objection_ids f)"
  using admitted_dismissal_lifts[OF table_directory_laws ex_tables(2) ex_dismissed _ ex_envelopes(4) ex_state
      ex_envelopes(5) ex_lift_facts]
  by simp


section \<open>A retracted objection\<close>

text \<open>A member who retracted an objection cannot raise another: the door counts every objection row of the
  author, whether or not it has been lifted, so after a self-dismissal the answer lists the old
  objection as dismissed and a new one by the same member is refused as a duplicate.\<close>

theorem retracted_objection_blocks:
  "admit_objection ex_dir [ex_self_dismissal, ex_objection ''o'' ''a'', ex_act] (ex_objection ''o2'' ''a'') None =
     Some ([ex_self_dismissal, ex_objection ''o'' ''a'', ex_act], Inr (ObjRefused DuplicateObjection)) \<and>
   (\<exists>f. resolve_reverse_quorum_with chrono_std (\<lambda>n. n div 2 + 1) ex_dir
      [ex_self_dismissal, ex_objection ''o'' ''a'', ex_act] Community ''g'' ex_members (Some ex_rq) (Some [])
      ex_action 5 = Some (Inr f) \<and> ''o'' \<in> set (rf_dismissed_objection_ids f))"
proof
  let ?s = "[ex_self_dismissal, ex_objection ''o'' ''a'', ex_act]" and ?new = "ex_objection ''o2'' ''a''"
  have act: "resolve_action ex_dir ?s None ''act'' = Inr (Some ex_action)"
    using ex_resolve_action[of "[ex_self_dismissal, ex_objection ''o'' ''a'']"]
    by (simp add: row_eval ex_act_def ex_self_dismissal_def)
  have rest: "attesting_key_id ?new = ''a''" "attested_key_id ?new = ''x''"
      "actor_key_id ex_action = ''x''" "signed_by_author ex_dir ?s ?new"
    by (simp_all add: row_eval signed_by_author_def table_directory_def)
  obtain found where found: "objections_against ex_dir ?s ex_action = Some (Inr found)"
      "set found = {r \<in> set ?s. attested_key_id r = actor_key_id ex_action \<and> att_tier r = TIER_FEDERATION \<and>
         of_objection_family r \<and> envelope_str r OBJECTS_TO = Some (action_id ex_action)}"
    using objections_against_rows[OF table_directory_laws ex_tables(3), of ex_members ex_rq ex_action] by blast
  have "ex_objection ''o'' ''a'' \<in> set found"
    unfolding found using ex_lift_facts objection_kinds[OF ex_envelopes(3)] by simp
  moreover have "prior_objection ?new (ex_objection ''o'' ''a'')"
    by (simp add: prior_objection_def row_eval)
  ultimately have prior: "list_ex (prior_objection ?new) found" by (auto simp: list_ex_iff)
  show "admit_objection ex_dir ?s ?new None = Some (?s, Inr (ObjRefused DuplicateObjection))"
    unfolding admit_objection_def Let_def by (simp add: ex_envelopes ex_state act rest found(1) prior)
next
  show "\<exists>f. resolve_reverse_quorum_with chrono_std (\<lambda>n. n div 2 + 1) ex_dir
      [ex_self_dismissal, ex_objection ''o'' ''a'', ex_act] Community ''g'' ex_members (Some ex_rq) (Some [])
      ex_action 5 = Some (Inr f) \<and> ''o'' \<in> set (rf_dismissed_objection_ids f)"
    using dismissal_lifts[OF table_directory_laws ex_tables(2) ex_dismissed _ ex_envelopes(4) ex_state
      ex_envelopes(5) ex_lift_facts] by simp
qed

end
