(* ===== verification/Roster_Plane.thy ===== *)
theory Roster_Plane
  imports Roster_Fold Reverse_Quorum_Doors Two_Path
begin

text \<open>
  The stored roster planes of rooms and families (\<open>src/src/federation/mod.rs\<close>): the instants at which a key bears
  \<open>node\<close>, the preparation of stored rows for the replay (signers, moderator roots, reversals by objection), the
  authorized reads, and the doors that judge an incoming row. The directory is given by its operations;
  signature checks, steward binding, the moderation walk, the growth gate and the guards of dissolved,
  one-voice and trust-root communities are operations of it.
\<close>

section \<open>Identity types\<close>

definition parse_set :: "string \<Rightarrow> string list" where
  "parse_set stored = filter (\<lambda>s. s \<noteq> []) (map trim (split_on (CHR '','') stored))"

definition set_contains :: "string \<Rightarrow> string \<Rightarrow> bool" where
  "set_contains stored member \<longleftrightarrow> member \<in> set (parse_set stored)"

definition IDENTITY_NODE :: string where "IDENTITY_NODE = ''node''"

definition COHORT_SUBKIND_INFRASTRUCTURE :: string where "COHORT_SUBKIND_INFRASTRUCTURE = ''infrastructure''"

section \<open>Rows and the directory\<close>

record occurrence_assertion =
  oa_identity_key_id :: string
  oa_occurrence_key_id :: string
  oa_asserted_at :: instant
  oa_valid_until :: "instant option"
  oa_attesting_key_id :: "string option"

record occurrence_revocation =
  or_occurrence_key_id :: string
  or_effective_at :: instant

record roster_event_signer =
  rs_member_key_id :: string
  rs_effective_at :: instant
  rs_authority_key_id :: "string option"
  rs_cosigner_key_ids :: "string list"

record roster_signers =
  rs_record_authority_key_id :: "string option"
  rs_widening_signers :: "roster_event_signer list"
  rs_revocation_signers :: "roster_event_signer list"

record community =
  community_key_id :: string
  co_members :: "community_member list"
  co_consensus_protocol :: string
  co_policy_blob :: "json option"

record family =
  family_key_id :: string
  fa_members :: "community_member list"
  fa_consensus_protocol :: string
  fa_dissolved_at :: "instant option"

record 's roster_directory = "'s directory" +
  rd_identity_type :: "'s \<Rightarrow> string \<Rightarrow> fed_error + string option"
  rd_history :: "'s \<Rightarrow> string \<Rightarrow> fed_error + occurrence_assertion list"
  rd_occurrence_revocations :: "'s \<Rightarrow> string \<Rightarrow> fed_error + occurrence_revocation list"
  rd_community :: "'s \<Rightarrow> string \<Rightarrow> fed_error + community option"
  rd_family :: "'s \<Rightarrow> string \<Rightarrow> fed_error + family option"
  rd_signers :: "'s \<Rightarrow> cohort \<Rightarrow> string \<Rightarrow> fed_error + roster_signers"
  rd_widenings :: "'s \<Rightarrow> cohort \<Rightarrow> string \<Rightarrow> fed_error + membership_widening list"
  rd_revocations :: "'s \<Rightarrow> cohort \<Rightarrow> string \<Rightarrow> fed_error + membership_revocation list"
  rd_steward_bound :: "'s \<Rightarrow> string \<Rightarrow> fed_error + bool"
  rd_reach_within :: "'s \<Rightarrow> string \<Rightarrow> string \<Rightarrow> instant \<Rightarrow> instant_interval list \<Rightarrow> fed_error + string list"
  rd_reach_at :: "'s \<Rightarrow> string \<Rightarrow> string \<Rightarrow> instant \<Rightarrow> fed_error + string list"
  rd_dissolved_at :: "'s \<Rightarrow> string \<Rightarrow> fed_error + instant option"
  rd_one_voice_countersign :: "'s \<Rightarrow> community \<Rightarrow> string \<Rightarrow> string set \<Rightarrow> instant \<Rightarrow> fed_error + unit"
  rd_is_trust_root_grade :: "community \<Rightarrow> bool"
  rd_trust_root_roster_change ::
    "'s \<Rightarrow> community \<Rightarrow> string set \<Rightarrow> community_member \<Rightarrow> bool \<Rightarrow> instant \<Rightarrow> fed_error + unit"
  rd_growth_accepted :: "'s \<Rightarrow> cohort \<Rightarrow> string \<Rightarrow> string \<Rightarrow> string option \<Rightarrow> instant \<Rightarrow> fed_error + unit"

section \<open>Bearing node\<close>

definition agreed_from_in :: "occurrence_assertion list \<Rightarrow> string \<Rightarrow> string \<Rightarrow> instant option" where
  "agreed_from_in history identity occurrence =
     (let ts = map oa_asserted_at (filter (\<lambda>a. oa_identity_key_id a = identity \<and>
                 oa_occurrence_key_id a = occurrence \<and> oa_attesting_key_id a = Some occurrence) history)
      in if ts = [] then None else Some (Min (set ts)))"

definition has_node :: "'s roster_directory \<Rightarrow> 's \<Rightarrow> string \<Rightarrow> fed_error + bool" where
  "has_node D s k =
     and_then (rd_identity_type D s k) (\<lambda>rec.
       Inr (case rec of None \<Rightarrow> False | Some stored \<Rightarrow> set_contains stored IDENTITY_NODE))"

definition assertion_end :: "instant list \<Rightarrow> occurrence_assertion \<Rightarrow> instant option" where
  "assertion_end revocations a =
     (let later = filter (\<lambda>e. oa_asserted_at a \<le> e) revocations;
          revoked = (if later = [] then None else Some (Min (set later)))
      in case (revoked, oa_valid_until a) of
           (Some x, Some y) \<Rightarrow> Some (min x y)
         | (Some x, None) \<Rightarrow> Some x
         | (None, y) \<Rightarrow> y)"

definition assertion_interval :: "instant list \<Rightarrow> instant \<Rightarrow> occurrence_assertion \<Rightarrow> instant_interval option" where
  "assertion_interval revocations agreed a =
     (let end = assertion_end revocations a; start = max (oa_asserted_at a) agreed in
      case end of
        Some e \<Rightarrow> if e \<le> start then None else Some (start, end)
      | None \<Rightarrow> Some (start, end))"

definition identity_intervals ::
  "'s roster_directory \<Rightarrow> 's \<Rightarrow> string \<Rightarrow> occurrence_assertion list \<Rightarrow> string \<Rightarrow> fed_error + instant_interval list" where
  "identity_intervals D s key history identity =
     and_then (has_node D s identity) (\<lambda>node.
       if \<not> node then Inr []
       else case agreed_from_in history identity key of
              None \<Rightarrow> Inr []
            | Some agreed \<Rightarrow>
                and_then (rd_occurrence_revocations D s identity) (\<lambda>rows.
                  let revocations = map or_effective_at (filter (\<lambda>r. or_occurrence_key_id r = key) rows) in
                  Inr (List.map_filter (assertion_interval revocations agreed)
                    (filter (\<lambda>a. oa_identity_key_id a = identity) history))))"

definition node_bearing_of :: "'s roster_directory \<Rightarrow> 's \<Rightarrow> string \<Rightarrow> fed_error + (bool \<times> instant_interval list)" where
  "node_bearing_of D s key =
     and_then (has_node D s key) (\<lambda>own.
       if own then Inr (True, [])
       else and_then (rd_history D s key) (\<lambda>history.
         let identities = sorted_list_of_set (set (map oa_identity_key_id history) - {key}) in
         and_then (try_map (identity_intervals D s key history) identities) (\<lambda>ivs. Inr (False, concat ivs))))"

definition edges_after :: "instant \<Rightarrow> instant_interval list \<Rightarrow> instant set" where
  "edges_after t ivs = {edge \<in> (\<Union>iv \<in> set ivs. insert (fst iv) (set_option (snd iv))). t < edge}"

definition node_bearing_at_with_next ::
  "'s roster_directory \<Rightarrow> 's \<Rightarrow> string \<Rightarrow> instant \<Rightarrow> fed_error + (bool \<times> instant option)" where
  "node_bearing_at_with_next D s key t =
     and_then (node_bearing_of D s key) (\<lambda>(own, ivs).
       Inr (own \<or> list_ex (in_interval t) ivs,
            if edges_after t ivs = {} then None else Some (Min (edges_after t ivs))))"

definition is_node_bearing_key_at :: "'s roster_directory \<Rightarrow> 's \<Rightarrow> string \<Rightarrow> instant \<Rightarrow> fed_error + bool" where
  "is_node_bearing_key_at D s key t = and_then (node_bearing_at_with_next D s key t) (\<lambda>r. Inr (fst r))"

definition community_subkind :: "community \<Rightarrow> string option" where
  "community_subkind c = Option.bind (Option.bind (co_policy_blob c) (\<lambda>b. json_get b ''cohort_subkind'')) as_str"

definition bearing_entry ::
  "'s roster_directory \<Rightarrow> 's \<Rightarrow> string \<Rightarrow> node_bearing_seats \<Rightarrow> fed_error + node_bearing_seats" where
  "bearing_entry D s k N =
     and_then (node_bearing_of D s k) (\<lambda>(own, ivs).
       Inr (if own then N\<lparr>nb_own := insert k (nb_own N)\<rparr>
            else if ivs \<noteq> [] then N\<lparr>nb_occurrence := btree_insert k ivs (nb_occurrence N)\<rparr> else N))"

definition community_node_bearing_seats ::
  "'s roster_directory \<Rightarrow> 's \<Rightarrow> community \<Rightarrow> fed_error + node_bearing_seats" where
  "community_node_bearing_seats D s c =
     (if community_subkind c \<noteq> Some COHORT_SUBKIND_INFRASTRUCTURE then Inr NO_NODE_BEARING_SEATS
      else and_then (rd_widenings D s Community (community_key_id c)) (\<lambda>ws.
        let keys = sorted_list_of_set (cm_key_id ` set (co_members c) \<union> w_member_key_id ` set ws) in
        fold (\<lambda>k r. and_then r (bearing_entry D s k)) keys (Inr NO_NODE_BEARING_SEATS)))"

definition rules_of_community :: "community \<Rightarrow> node_bearing_seats \<Rightarrow> roster_rules" where
  "rules_of_community c N =
     \<lparr> rr_protocol = co_consensus_protocol c, rr_subkind = community_subkind c, rr_policy_blob = co_policy_blob c,
       rr_node_bearing = N \<rparr>"

definition rules_of_family :: "family \<Rightarrow> roster_rules" where
  "rules_of_family f =
     \<lparr> rr_protocol = fa_consensus_protocol f, rr_subkind = None, rr_policy_blob = None,
       rr_node_bearing = NO_NODE_BEARING_SEATS \<rparr>"

section \<open>Preparing stored rows\<close>

definition founder_candidates :: "community \<Rightarrow> membership_widening list \<Rightarrow> string list" where
  "founder_candidates c widenings =
     sorted_list_of_set
       (cm_key_id ` set (filter (\<lambda>m. cm_role m = Some MEMBER_ROLE_FOUNDER) (co_members c)) \<union>
        w_member_key_id ` set (filter (\<lambda>w. w_role w = Some MEMBER_ROLE_FOUNDER) widenings))"

definition root_reaches ::
  "'s roster_directory \<Rightarrow> 's \<Rightarrow> string \<Rightarrow> (string \<times> instant_interval list) list \<Rightarrow> string set \<Rightarrow> instant \<Rightarrow> string \<Rightarrow>
   fed_error + bool" where
  "root_reaches D s key intervals signers t r0 =
     (if r0 \<in> signers then Inr False
      else and_then (rd_steward_bound D s r0) (\<lambda>bound.
        if \<not> bound then Inr False
        else case map_of intervals r0 of
               None \<Rightarrow> Inr False
             | Some iv \<Rightarrow>
                 if iv = [] then Inr False
                 else and_then (rd_reach_within D s r0 key t iv) (\<lambda>reach.
                   Inr (list_ex (\<lambda>k. k \<in> signers) reach))))"

definition moderator_roots_at ::
  "'s roster_directory \<Rightarrow> 's \<Rightarrow> string \<Rightarrow> string list \<Rightarrow> (string \<times> instant_interval list) list \<Rightarrow> string set \<Rightarrow> instant \<Rightarrow>
   fed_error + string set" where
  "moderator_roots_at D s key roots intervals signers t =
     and_then (try_map (root_reaches D s key intervals signers t) roots) (\<lambda>reached.
       Inr (set (map fst (filter snd (zip roots reached)))))"

definition signer_set :: "roster_event_signer \<Rightarrow> string set" where
  "signer_set e = set_option (rs_authority_key_id e) \<union> set (rs_cosigner_key_ids e)"

definition roster_row_signer_set :: "string \<Rightarrow> string list \<Rightarrow> string set" where
  "roster_row_signer_set primary cosigners = insert primary (set cosigners)"

record stored_roster_event =
  se_is_add :: bool
  se_member :: community_member
  se_effective_at :: instant
  se_row_hash :: string

definition find_signer :: "roster_signers \<Rightarrow> stored_roster_event \<Rightarrow> roster_event_signer option" where
  "find_signer signers ev =
     find (\<lambda>x. rs_member_key_id x = cm_key_id (se_member ev) \<and> rs_effective_at x = se_effective_at ev)
       (if se_is_add ev then rs_widening_signers signers else rs_revocation_signers signers)"

definition signed_event :: "roster_signers \<Rightarrow> stored_roster_event \<Rightarrow> roster_event" where
  "signed_event signers ev =
     \<lparr> ev_effective_at = se_effective_at ev, ev_is_add = se_is_add ev, ev_member = se_member ev,
       ev_signers = (case find_signer signers ev of None \<Rightarrow> {} | Some x \<Rightarrow> signer_set x),
       ev_moderator_roots = {}, ev_reversed = False \<rparr>"

definition with_moderators ::
  "'s roster_directory \<Rightarrow> 's \<Rightarrow> string \<Rightarrow> string list \<Rightarrow> (string \<times> instant_interval list) list \<Rightarrow> roster_event \<Rightarrow>
   fed_error + roster_event" where
  "with_moderators D s key roots intervals ev =
     (if ev_signers ev = {} then Inr ev
      else and_then (moderator_roots_at D s key roots intervals (ev_signers ev) (ev_effective_at ev)) (\<lambda>m.
        Inr (ev\<lparr>ev_moderator_roots := m\<rparr>)))"

definition reverse_candidate ::
  "roster_rules \<Rightarrow> roster_signers \<Rightarrow> stored_roster_event \<Rightarrow> (string \<times> string) option" where
  "reverse_candidate rules signers ev =
     (if starts_with REVERSE_QUORUM_PREFIX (rr_protocol rules)
      then map_option (\<lambda>actor. (actor, se_row_hash ev)) (Option.bind (find_signer signers ev) rs_authority_key_id)
      else None)"

definition roster_reversal_stands :: "bool \<Rightarrow> rq_fold \<Rightarrow> bool" where
  "roster_reversal_stands is_add f \<longleftrightarrow>
     rf_standing f = Reversed \<and> (\<not> is_add \<or> min_count Voters \<le> rf_distinct_objectors f)"

definition duty_step ::
  "'s roster_directory \<Rightarrow> 's \<Rightarrow> string \<Rightarrow> roster_rules \<Rightarrow> instant \<Rightarrow> string \<times> bool \<times> community_member \<Rightarrow>
   fed_error + string list" where
  "duty_step D s key rules now entry =
     (case entry of (k, active, m) \<Rightarrow>
        if active \<and> cm_role m = Some MEMBER_ROLE_FOUNDER \<and> \<not> bearing_at (rr_node_bearing rules) k now
        then and_then (rd_steward_bound D s k) (\<lambda>bound.
          if bound then and_then (rd_reach_at D s k key now) (\<lambda>reach. Inr (k # reach)) else Inr [])
        else Inr [])"

definition roster_duty_holders ::
  "'s roster_directory \<Rightarrow> 's \<Rightarrow> string \<Rightarrow> roster_rules \<Rightarrow> instant \<Rightarrow> string list option \<Rightarrow> rq_policy option \<Rightarrow> roster_state \<Rightarrow>
   fed_error + string list option" where
  "roster_duty_holders D s key rules now moderation_roots policy state0 =
     (if moderation_roots \<noteq> None \<and> Option.bind policy rq_steward \<noteq> None
      then and_then (try_map (duty_step D s key rules now) state0) (\<lambda>kss.
        Inr (Some (sorted_list_of_set (set (concat kss)))))
      else Inr None)"

definition judge_reversal ::
  "chrono \<Rightarrow> (nat \<Rightarrow> nat) \<Rightarrow> 's roster_directory \<Rightarrow> 's \<Rightarrow> cohort \<Rightarrow> string \<Rightarrow> string list \<Rightarrow> rq_policy option \<Rightarrow>
   string list option \<Rightarrow> instant \<Rightarrow> roster_event \<times> (string \<times> string) option \<Rightarrow> (fed_error + roster_event) option" where
  "judge_reversal C sm D s cohort key roster0 policy duty now entry =
     (case entry of
        (ev, None) \<Rightarrow> Some (Inr ev)
      | (ev, Some (actor, row_hash)) \<Rightarrow>
          run_then (resolve_reverse_quorum_with C sm (directory.truncate D) s cohort key roster0 policy duty
              \<lparr> actor_key_id = actor, action_id = row_hash, action_asserted_at = ev_effective_at ev \<rparr> now)
            (\<lambda>f. Some (Inr (ev\<lparr>ev_reversed := roster_reversal_stands (ev_is_add ev) f\<rparr>))))"

definition roster_keys :: "roster_state \<Rightarrow> string list" where
  "roster_keys state = map fst (filter (\<lambda>(k, active, m). active) state)"

definition prepare_roster_events ::
  "chrono \<Rightarrow> (nat \<Rightarrow> nat) \<Rightarrow> instant \<Rightarrow> instant \<Rightarrow> 's roster_directory \<Rightarrow> 's \<Rightarrow> cohort \<Rightarrow> string \<Rightarrow> community_member list \<Rightarrow>
   roster_rules \<Rightarrow> stored_roster_event list \<Rightarrow> roster_signers \<Rightarrow> string list option \<Rightarrow>
   (fed_error + roster_event list) option" where
  "prepare_roster_events C sm min_utc now D s cohort key members rules stored signers moderation_roots =
     (let signed = map (signed_event signers) stored;
          candidates = map (reverse_candidate rules signers) stored
      in run_then
        (Some (case moderation_roots of
                 None \<Rightarrow> Inr signed
               | Some roots \<Rightarrow>
                   try_map (with_moderators D s key roots
                     (root_authority_intervals sm min_utc members rules signed roots)) signed))
        (\<lambda>events.
          if list_all (\<lambda>c. c = None) candidates then Some (Inr events)
          else
            let state0 = authorized_roster_state_at sm members rules events now;
                policy = rq_parse (rr_protocol rules)
            in run_then (Some (roster_duty_holders D s key rules now moderation_roots policy state0)) (\<lambda>duty.
              run_map (judge_reversal C sm D s cohort key (roster_keys state0) policy duty now)
                (zip events candidates))))"

definition stored_events :: "membership_widening list \<Rightarrow> membership_revocation list \<Rightarrow> stored_roster_event list" where
  "stored_events widenings revocations =
     map (\<lambda>w. \<lparr> se_is_add = True, se_member = widening_member w, se_effective_at = w_effective_at w,
                se_row_hash = w_persist_row_hash w \<rparr>) widenings @
     map (\<lambda>r. \<lparr> se_is_add = False, se_member = revoked_member r, se_effective_at = r_effective_at r,
                se_row_hash = r_persist_row_hash r \<rparr>) revocations"

definition community_roster_events where
  "community_roster_events C sm min_utc now D s c N =
     (let key = community_key_id c in
      run_then (Some (rd_signers D s Community key)) (\<lambda>signers.
      run_then (Some (rd_widenings D s Community key)) (\<lambda>widenings.
      run_then (Some (rd_revocations D s Community key)) (\<lambda>revocations.
        prepare_roster_events C sm min_utc now D s Community key (co_members c) (rules_of_community c N)
          (stored_events widenings revocations) signers (Some (founder_candidates c widenings))))))"

definition family_roster_events where
  "family_roster_events C sm min_utc now D s f =
     (let key = family_key_id f in
      run_then (Some (rd_signers D s Family key)) (\<lambda>signers.
      run_then (Some (rd_widenings D s Family key)) (\<lambda>widenings.
      run_then (Some (rd_revocations D s Family key)) (\<lambda>revocations.
        prepare_roster_events C sm min_utc now D s Family key (fa_members f) (rules_of_family f)
          (stored_events widenings revocations) signers None))))"

section \<open>The authorized reads\<close>

definition authorized_family_roster_at where
  "authorized_family_roster_at C sm min_utc now D s f as_of =
     run_then (family_roster_events C sm min_utc now D s f) (\<lambda>events.
       Some (Inr (authorized_roster_at sm (fa_members f) (rules_of_family f) events as_of)))"

definition authorized_community_roster_at where
  "authorized_community_roster_at C sm min_utc now D s c as_of =
     run_then (Some (rd_dissolved_at D s (community_key_id c))) (\<lambda>dissolved.
       if (case dissolved of None \<Rightarrow> False | Some t \<Rightarrow> t \<le> as_of) then Some (Inr [])
       else run_then (Some (community_node_bearing_seats D s c)) (\<lambda>N.
         run_then (community_roster_events C sm min_utc now D s c N) (\<lambda>events.
           Some (Inr (authorized_roster_at sm (co_members c) (rules_of_community c N) events as_of)))))"

definition authorized_community_roster_spans_at where
  "authorized_community_roster_spans_at C sm min_utc now D s c as_of =
     run_then (Some (community_node_bearing_seats D s c)) (\<lambda>N.
       run_then (community_roster_events C sm min_utc now D s c N) (\<lambda>events.
         let rules = rules_of_community c N;
             spans = authorized_roster_spans_at sm (co_members c) rules events as_of
         in Some (Inr (map (\<lambda>m. (m, Option.bind (map_of spans (cm_key_id m)) (\<lambda>start. start)))
              (authorized_roster_at sm (co_members c) rules events as_of)))))"

section \<open>The doors\<close>

definition is_this_row :: "community_member \<Rightarrow> bool \<Rightarrow> instant \<Rightarrow> roster_event \<Rightarrow> bool" where
  "is_this_row incoming is_revocation effective_at e \<longleftrightarrow>
     ev_is_add e = (\<not> is_revocation) \<and> ev_effective_at e = effective_at \<and> ev_key e = cm_key_id incoming"

definition incoming_roots ::
  "(nat \<Rightarrow> nat) \<Rightarrow> instant \<Rightarrow> 's roster_directory \<Rightarrow> 's \<Rightarrow> string \<Rightarrow> community_member list \<Rightarrow> roster_rules \<Rightarrow>
   roster_event list \<Rightarrow> string list option \<Rightarrow> bool \<Rightarrow> string set \<Rightarrow> community_member \<Rightarrow> bool \<Rightarrow> instant \<Rightarrow>
   fed_error + string set" where
  "incoming_roots sm min_utc D s key members rules others moderation_roots held_retry signers incoming
       is_revocation effective_at =
     (case moderation_roots of
        None \<Rightarrow> Inr {}
      | Some roots \<Rightarrow>
          if \<not> is_revocation \<or> held_retry
          then let roots' = (if \<not> is_revocation \<and> cm_role incoming = Some MEMBER_ROLE_FOUNDER
                             then filter (\<lambda>r. r \<noteq> cm_key_id incoming) roots else roots)
               in moderator_roots_at D s key roots' (root_authority_intervals sm min_utc members rules others roots')
                    signers effective_at
          else Inr {})"

definition check_roster_authority_over ::
  "(nat \<Rightarrow> nat) \<Rightarrow> instant \<Rightarrow> 's roster_directory \<Rightarrow> 's \<Rightarrow> cohort \<Rightarrow> string \<Rightarrow> community_member list \<Rightarrow> roster_rules \<Rightarrow>
   roster_event list \<Rightarrow> string list option \<Rightarrow> string \<Rightarrow> string set \<Rightarrow> community_member \<Rightarrow> bool \<Rightarrow> instant \<Rightarrow>
   fed_error + unit" where
  "check_roster_authority_over sm min_utc D s cohort key members rules events moderation_roots primary signers
       incoming is_revocation effective_at =
     (let held_retry = list_ex (is_this_row incoming is_revocation effective_at) events;
          others = filter (\<lambda>e. \<not> is_this_row incoming is_revocation effective_at e) events;
          state = authorized_roster_state_at sm members rules others effective_at
      in and_then (incoming_roots sm min_utc D s key members rules others moderation_roots held_retry signers incoming
           is_revocation effective_at) (\<lambda>roots.
         let e = \<lparr> ev_effective_at = effective_at, ev_is_add = (\<not> is_revocation), ev_member = incoming,
                   ev_signers = signers, ev_moderator_roots = roots, ev_reversed = False \<rparr>
         in case roster_event_standing sm rules state e of
              Inl rule \<Rightarrow> Inl (RosterAuthorityUnauthorized key primary rule)
            | Inr _ \<Rightarrow>
                if \<not> is_revocation \<and> \<not> is_active state (cm_key_id incoming)
                then rd_growth_accepted D s cohort key (cm_key_id incoming) (cm_role incoming) effective_at
                else Inr ()))"

definition check_community_roster_authority where
  "check_community_roster_authority C sm min_utc now D s key primary signers incoming is_revocation effective_at =
     run_then (Some (rd_community D s key)) (\<lambda>held.
       case held of
         None \<Rightarrow> Some (Inr ())
       | Some c \<Rightarrow>
           run_then (Some (rd_dissolved_at D s key)) (\<lambda>dissolved.
           run_then (Some (case dissolved of None \<Rightarrow> Inr () | Some t \<Rightarrow> Inl (GroupDissolved key t))) (\<lambda>_.
           run_then (Some (if is_revocation \<and> cm_key_id incoming \<notin> signers
                           then rd_one_voice_countersign D s c primary signers effective_at else Inr ())) (\<lambda>_.
           run_then (Some (if rd_is_trust_root_grade D c
                           then rd_trust_root_roster_change D s c signers incoming is_revocation effective_at
                           else Inr ())) (\<lambda>_.
           run_then (Some (community_node_bearing_seats D s c)) (\<lambda>N.
           run_then (community_roster_events C sm min_utc now D s c N) (\<lambda>events.
           run_then (Some (rd_widenings D s Community key)) (\<lambda>widenings.
             Some (check_roster_authority_over sm min_utc D s Community key (co_members c) (rules_of_community c N)
               events (Some (founder_candidates c widenings)) primary signers incoming is_revocation
               effective_at)))))))))"

definition check_family_roster_authority where
  "check_family_roster_authority C sm min_utc now D s key primary signers incoming is_revocation effective_at =
     run_then (Some (rd_family D s key)) (\<lambda>held.
       case held of
         None \<Rightarrow> Some (Inr ())
       | Some f \<Rightarrow>
           run_then (Some (case fa_dissolved_at f of None \<Rightarrow> Inr () | Some t \<Rightarrow> Inl (GroupDissolved (family_key_id f) t))) (\<lambda>_.
           run_then (family_roster_events C sm min_utc now D s f) (\<lambda>events.
             Some (check_roster_authority_over sm min_utc D s Family key (fa_members f) (rules_of_family f)
               events None primary signers incoming is_revocation effective_at))))"

section \<open>How long a bearing verdict holds\<close>

lemma interval_between_edges:
  assumes "t \<le> u" "\<forall>edge \<in> edges_after t [iv]. u < edge"
  shows "in_interval u iv \<longleftrightarrow> in_interval t iv"
  using assms by (cases iv; cases "snd iv") (fastforce simp: edges_after_def)+

lemma finite_edges_after: "finite (edges_after t ivs)"
  unfolding edges_after_def
  by (rule finite_subset[of _ "\<Union>iv \<in> set ivs. insert (fst iv) (set_option (snd iv))"]) auto

lemma edges_after_mono: "iv \<in> set ivs \<Longrightarrow> edges_after t [iv] \<subseteq> edges_after t ivs"
  by (auto simp: edges_after_def)

text \<open>A verdict on whether a key bears \<open>node\<close> is safe to keep until the instant reported with it. That instant
  is after the one asked about, and at every instant up to it (at every later one, when none is reported) the
  same rows give the same verdict.\<close>

theorem bearing_verdict_holds:
  assumes "node_bearing_at_with_next D s key t = Inr (verdict, next)" "t \<le> u" "is_none_or next (\<lambda>edge. u < edge)"
  shows "is_node_bearing_key_at D s key u = Inr verdict \<and> is_none_or next (\<lambda>edge. t < edge)"
proof -
  from assms(1) obtain own ivs where of: "node_bearing_of D s key = Inr (own, ivs)"
    and verdict: "verdict = (own \<or> list_ex (in_interval t) ivs)"
    and "next": "next = (if edges_after t ivs = {} then None else Some (Min (edges_after t ivs)))"
    by (auto simp: node_bearing_at_with_next_def and_then_Inr)
  have u: "\<forall>edge \<in> edges_after t ivs. u < edge"
  proof
    fix edge assume edge: "edge \<in> edges_after t ivs"
    then have "u < Min (edges_after t ivs)" using assms(3) by (auto simp: "next" split: if_splits)
    also have "\<dots> \<le> edge" using edge by (rule Min_le[OF finite_edges_after])
    finally show "u < edge" .
  qed
  have "list_ex (in_interval u) ivs \<longleftrightarrow> list_ex (in_interval t) ivs"
  proof -
    have "in_interval u iv \<longleftrightarrow> in_interval t iv" if "iv \<in> set ivs" for iv
      using interval_between_edges[OF assms(2)] u edges_after_mono[OF that] by blast
    then show ?thesis by (auto simp: list_ex_iff)
  qed
  moreover have "is_none_or next (\<lambda>edge. t < edge)"
  proof (cases "edges_after t ivs = {}")
    case False
    from Min_in[OF finite_edges_after False] have "t < Min (edges_after t ivs)" unfolding edges_after_def by blast
    with False show ?thesis by (simp add: "next")
  qed (simp add: "next")
  ultimately show ?thesis
    by (simp add: is_node_bearing_key_at_def node_bearing_at_with_next_def of verdict)
qed

section \<open>The door and the replay\<close>


section \<open>What reverses a roster change\<close>

lemma reversed_objectors:
  assumes "rf_standing (fold_reverse_quorum_over C sm inp) = Reversed"
  obtains p K where "in_policy inp = Some p" "rf_distinct_objectors (fold_reverse_quorum_over C sm inp) = card K"
    "reversal_threshold p (length (in_roster inp)) \<le> card K" "K \<subseteq> set (in_roster inp)"
    "\<forall>k \<in> K. \<exists>ob \<in> set (in_objections inp). attesting_key_id ob = k \<and>
       envelope_str ob ''dimension'' = Some DIMENSION_OBJECTION"
proof -
  obtain p where p: "in_policy inp = Some p"
    using assms by (cases "in_policy inp") (simp_all add: fold_reverse_quorum_over_def Let_def)
  let ?sc = "objection_in_scope (in_action inp) (in_roster inp) (action_asserted_at (in_action inp))
    (snd (rq_window C p (action_asserted_at (in_action inp))))"
  let ?K = "attesting_key_id ` {ob \<in> set (in_objections inp). objection_live ?sc
    (dismissed_names (in_dismissals inp)) (escalate_of C sm inp p) ob}"
  have "rf_distinct_objectors (fold_reverse_quorum_over C sm inp) = card ?K"
    "reversal_threshold p (length (in_roster inp)) \<le> card ?K"
    using assms
    by (simp_all add: fold_reverse_quorum_over_def p Let_def rq_window_def fold_step_objectors fold_acc_empty_def
        split: if_splits)
  then show thesis
    by (rule that[OF p]) (auto simp: objection_live_def objection_in_scope_def)
qed

lemma with_moderators_unreversed:
  "with_moderators D s key roots intervals ev = Inr ev' \<Longrightarrow> ev_reversed ev' = ev_reversed ev"
  by (auto simp: with_moderators_def and_then_Inr split: if_splits)

lemma judge_reversalE:
  assumes laws: "directory_laws (directory.truncate D) ok rows" and s: "ok s"
    and judged: "judge_reversal C sm D s cohort key roster0 policy duty now (ev, cand) = Some (Inr e)"
    and fresh: "\<not> ev_reversed ev"
  obtains (kept) "e = ev"
  | (reversed) p K actor row_hash where "e = ev\<lparr>ev_reversed := True\<rparr>" "cand = Some (actor, row_hash)" "policy = Some p"
      "K \<subseteq> set roster0" "reversal_threshold p (length roster0) \<le> card K" "ev_is_add ev \<Longrightarrow> 2 \<le> card K"
      "\<forall>k \<in> K. \<exists>r \<in> set (rows s). attesting_key_id r = k \<and> attested_key_id r = actor \<and>
         envelope_str r ''dimension'' = Some DIMENSION_OBJECTION \<and> envelope_str r OBJECTS_TO = Some row_hash"
proof (cases "ev_reversed e")
  case False
  with judged fresh show thesis
    by (intro kept) (auto simp: judge_reversal_def run_then_Inr split: option.splits prod.splits)
next
  case True
  with judged fresh obtain actor row_hash f where f: "cand = Some (actor, row_hash)"
      "resolve_reverse_quorum_with C sm (directory.truncate D) s cohort key roster0 policy duty
         \<lparr> actor_key_id = actor, action_id = row_hash, action_asserted_at = ev_effective_at ev \<rparr> now = Some (Inr f)"
      "e = ev\<lparr>ev_reversed := True\<rparr>" "roster_reversal_stands (ev_is_add ev) f"
    by (auto simp: judge_reversal_def run_then_Inr split: option.splits prod.splits)
  let ?action = "\<lparr> actor_key_id = actor, action_id = row_hash, action_asserted_at = ev_effective_at ev \<rparr>"
  obtain found where found: "objections_against (directory.truncate D) s ?action = Some (Inr found)"
      "set found = {r \<in> set (rows s). attested_key_id r = actor \<and> att_tier r = TIER_FEDERATION \<and>
         of_objection_family r \<and> envelope_str r OBJECTS_TO = Some row_hash}"
    using objections_against_rows[OF laws s, of ?action] by auto
  with f(2) obtain dh where dh:
    "f = fold_reverse_quorum_over C sm (rq_inputs_of sm (directory.truncate D) s roster0 policy dh ?action now found)"
      (is "_ = fold_reverse_quorum_over C sm ?inp")
    by (auto simp: resolve_reverse_quorum_with_def split: sum.splits)
  from f(4) have "rf_standing (fold_reverse_quorum_over C sm ?inp) = Reversed"
    by (simp add: roster_reversal_stands_def dh)
  then obtain p K where K: "in_policy ?inp = Some p" "rf_distinct_objectors f = card K"
      "reversal_threshold p (length (in_roster ?inp)) \<le> card K" "K \<subseteq> set (in_roster ?inp)"
      "\<forall>k \<in> K. \<exists>ob \<in> set (in_objections ?inp). attesting_key_id ob = k \<and>
         envelope_str ob ''dimension'' = Some DIMENSION_OBJECTION"
    unfolding dh by (rule reversed_objectors)
  from K(5) have "\<forall>k \<in> K. \<exists>r \<in> set (rows s). attesting_key_id r = k \<and> attested_key_id r = actor \<and>
      envelope_str r ''dimension'' = Some DIMENSION_OBJECTION \<and> envelope_str r OBJECTS_TO = Some row_hash"
    by (fastforce simp: rq_inputs_of_fields found(2))
  then show thesis
    using K(1-4) f(4) by (intro reversed[OF f(3,1)]) (auto simp: rq_inputs_of_fields roster_reversal_stands_def)
qed

definition unreversed :: "roster_event \<Rightarrow> roster_event" where
  "unreversed e = e\<lparr>ev_reversed := False\<rparr>"

definition prepared_from :: "stored_roster_event \<Rightarrow> roster_event \<Rightarrow> bool" where
  "prepared_from st e \<longleftrightarrow> plane_change e = (se_effective_at st, se_is_add st, se_member st) \<and> \<not> ev_reversed e"

lemma signed_event_prepared: "prepared_from st (signed_event signers st)"
  by (simp add: prepared_from_def signed_event_def plane_change_def)

lemma with_moderators_prepared:
  "with_moderators D s key roots intervals ev = Inr ev' \<Longrightarrow> prepared_from st ev \<Longrightarrow> prepared_from st ev'"
  by (auto simp: with_moderators_def prepared_from_def plane_change_def and_then_Inr split: if_splits)

lemma prepare_eventsE:
  assumes "prepare_roster_events C sm min_utc now D s cohort key members rules stored signers moderation_roots =
    Some (Inr evs)"
  obtains events duty where "list_all2 prepared_from stored events"
    "evs = events \<or> list_all2 (\<lambda>x e. judge_reversal C sm D s cohort key
        (roster_keys (authorized_roster_state_at sm members rules events now)) (rq_parse (rr_protocol rules)) duty now x =
        Some (Inr e)) (zip events (map (reverse_candidate rules signers) stored)) evs"
proof -
  let ?signed = "map (signed_event signers) stored" and ?judge = "\<lambda>events duty. judge_reversal C sm D s cohort key
        (roster_keys (authorized_roster_state_at sm members rules events now)) (rq_parse (rr_protocol rules)) duty now"
  have signed: "list_all2 prepared_from stored ?signed"
    by (simp add: list_all2_conv_all_nth signed_event_prepared)
  from assms obtain events where
    m: "(case moderation_roots of None \<Rightarrow> Inr ?signed
         | Some roots \<Rightarrow> try_map (with_moderators D s key roots
             (root_authority_intervals sm min_utc members rules ?signed roots)) ?signed) = Inr events"
    and r: "evs = events \<or> (\<exists>duty. run_map (?judge events duty) (zip events (map (reverse_candidate rules signers) stored)) =
      Some (Inr evs))"
    by (auto simp: prepare_roster_events_def Let_def run_then_Inr split: if_splits)
  have "list_all2 prepared_from stored events"
  proof (cases moderation_roots)
    case None
    with m signed show ?thesis by simp
  next
    case (Some roots)
    with m have len: "length stored = length events" and "\<forall>i < length events. with_moderators D s key roots
        (root_authority_intervals sm min_utc members rules ?signed roots) (signed_event signers (stored ! i)) =
        Inr (events ! i)"
      by (auto simp: try_map_Inr list_all2_conv_all_nth)
    then have "\<forall>i < length events. prepared_from (stored ! i) (events ! i)"
      by (auto intro: with_moderators_prepared[OF _ signed_event_prepared])
    with len show ?thesis by (simp add: list_all2_conv_all_nth)
  qed
  with r show thesis using that by (auto simp: run_map_Inr)
qed

text \<open>C30: A stored roster change is undone only by objections the rows carry. Whenever preparing the events of a
  group marks a change reversed, the group declares a reverse-quorum policy, and at least its reversal threshold
  of distinct members of the roster (the roster with nothing reversed) each have a stored objection that names
  that very row; for an addition, at least two members.\<close>

theorem reversal_needs_objectors:
  assumes laws: "directory_laws (directory.truncate D) ok rows" and s: "ok s"
    and prep: "prepare_roster_events C sm min_utc now D s cohort key members rules stored signers moderation_roots =
      Some (Inr evs)"
    and e: "e \<in> set evs" "ev_reversed e"
    and roster0: "roster0 = roster_keys (authorized_roster_state_at sm members rules (map unreversed evs) now)"
  shows "\<exists>p K st. rq_parse (rr_protocol rules) = Some p \<and> K \<subseteq> set roster0 \<and>
    reversal_threshold p (length roster0) \<le> card K \<and> (ev_is_add e \<longrightarrow> 2 \<le> card K) \<and>
    st \<in> set stored \<and> plane_change e = (se_effective_at st, se_is_add st, se_member st) \<and>
    (\<forall>k \<in> K. \<exists>r \<in> set (rows s). attesting_key_id r = k \<and>
       envelope_str r ''dimension'' = Some DIMENSION_OBJECTION \<and> envelope_str r OBJECTS_TO = Some (se_row_hash st))"
proof -
  obtain events duty where ev: "list_all2 prepared_from stored events"
    and j: "evs = events \<or> list_all2 (\<lambda>x e. judge_reversal C sm D s cohort key
        (roster_keys (authorized_roster_state_at sm members rules events now)) (rq_parse (rr_protocol rules)) duty now x =
        Some (Inr e)) (zip events (map (reverse_candidate rules signers) stored)) evs"
    by (rule prepare_eventsE[OF prep])
  from e obtain i where i: "i < length evs" "evs ! i = e" by (auto simp: in_set_conv_nth)
  have fresh: "prepared_from (stored ! n) (events ! n)" if "n < length stored" for n
    using ev that by (simp add: list_all2_conv_all_nth)
  have "evs \<noteq> events" using e ev by (auto simp: list_all2_conv_all_nth in_set_conv_nth prepared_from_def)
  with j have judged: "length evs = length stored" "\<And>n. n < length stored \<Longrightarrow> judge_reversal C sm D s cohort key
        (roster_keys (authorized_roster_state_at sm members rules events now)) (rq_parse (rr_protocol rules)) duty now
        (events ! n, reverse_candidate rules signers (stored ! n)) = Some (Inr (evs ! n))"
    using ev by (auto simp: list_all2_conv_all_nth)
  have "unreversed (evs ! n) = events ! n" if "n < length stored" for n
    by (rule judge_reversalE[OF laws s judged(2)[OF that]])
      (use fresh[OF that] in \<open>auto simp: prepared_from_def unreversed_def\<close>)
  then have un: "map unreversed evs = events"
    using judged(1) ev by (intro nth_equalityI) (auto simp: list_all2_conv_all_nth)
  from i judged(1) have n: "i < length stored" by simp
  have new: "\<not> ev_reversed (events ! i)" using fresh[OF n] by (simp add: prepared_from_def)
  show ?thesis
  proof (rule judge_reversalE[OF laws s judged(2)[OF n] new])
    assume "evs ! i = events ! i"
    with new e(2) i(2) show ?thesis by simp
  next
    fix p K actor row_hash
    assume k: "evs ! i = (events ! i)\<lparr>ev_reversed := True\<rparr>" "rq_parse (rr_protocol rules) = Some p"
        "reverse_candidate rules signers (stored ! i) = Some (actor, row_hash)"
        "ev_is_add (events ! i) \<Longrightarrow> 2 \<le> card K"
      and K: "K \<subseteq> set (roster_keys (authorized_roster_state_at sm members rules events now))"
        "reversal_threshold p (length (roster_keys (authorized_roster_state_at sm members rules events now))) \<le> card K"
        "\<forall>k \<in> K. \<exists>r \<in> set (rows s). attesting_key_id r = k \<and> attested_key_id r = actor \<and>
           envelope_str r ''dimension'' = Some DIMENSION_OBJECTION \<and> envelope_str r OBJECTS_TO = Some row_hash"
    have "row_hash = se_row_hash (stored ! i)" using k(3) by (auto simp: reverse_candidate_def split: if_splits)
    moreover have "plane_change e = (se_effective_at (stored ! i), se_is_add (stored ! i), se_member (stored ! i))"
      using fresh[OF n] k(1) i(2) by (auto simp: prepared_from_def plane_change_def)
    ultimately show ?thesis
      unfolding roster0 un using k K n i(2)
      by (intro exI[of _ p] exI[of _ K] exI[of _ "stored ! i"]) auto
  qed
qed

section \<open>Examples\<close>

definition ex_reversible :: rq_policy where
  "ex_reversible = ex_rq\<lparr>rq_steward := None\<rparr>"

definition ex_reversible_rules :: roster_rules where
  "ex_reversible_rules = ex_rules (to_protocol_string ex_reversible) None"

definition ex_family :: "community_member list" where
  "ex_family = [ex_member ''a'' ''founder'', ex_member ''b'' ''member'', ex_member ''x'' ''member'']"

definition ex_removal :: stored_roster_event where
  "ex_removal = \<lparr> se_is_add = False, se_member = ex_member ''x'' ''member'', se_effective_at = 0, se_row_hash = ''act'' \<rparr>"

definition ex_removal_signers :: roster_signers where
  "ex_removal_signers =
     \<lparr> rs_record_authority_key_id = Some ''x'', rs_widening_signers = [],
       rs_revocation_signers = [\<lparr> rs_member_key_id = ''x'', rs_effective_at = 0, rs_authority_key_id = Some ''x'',
         rs_cosigner_key_ids = [] \<rparr>] \<rparr>"

definition ex_occurrence :: occurrence_assertion where
  "ex_occurrence =
     \<lparr> oa_identity_key_id = ''n'', oa_occurrence_key_id = ''k'', oa_asserted_at = 10, oa_valid_until = Some 20,
       oa_attesting_key_id = Some ''k'' \<rparr>"

definition table_roster_directory :: "attestation list roster_directory" where
  "table_roster_directory = directory.extend (table_directory ex_members ex_rq)
     (roster_directory.fields (\<lambda>s k. Inr (if k = ''n'' then Some ''agent, node'' else Some ''user'')) (\<lambda>s k. Inr [ex_occurrence])
       (\<lambda>s k. Inr []) (\<lambda>s k. Inr None) (\<lambda>s k. Inr None)
       (\<lambda>s c k. Inr ex_removal_signers) (\<lambda>s c k. Inr []) (\<lambda>s c k. Inr []) (\<lambda>s k. Inr True)
       (\<lambda>s r k t iv. Inr []) (\<lambda>s r k t. Inr []) (\<lambda>s k. Inr None) (\<lambda>s c k S t. Inr ()) (\<lambda>c. False)
       (\<lambda>s c S m b t. Inr ()) (\<lambda>s c k m r t. Inr ()))"

lemma table_roster_truncate: "directory.truncate table_roster_directory = table_directory ex_members ex_rq"
  by (simp add: table_roster_directory_def directory.defs roster_directory.defs)

theorem bearing_verdict_holds_witness:
  "is_node_bearing_key_at table_roster_directory [] ''k'' 15 = Inr True \<and>
   is_node_bearing_key_at table_roster_directory [] ''k'' 25 = Inr False"
proof -
  have parse: "set_contains ''agent, node'' IDENTITY_NODE" "\<not> set_contains ''user'' IDENTITY_NODE" by code_simp+
  have of: "node_bearing_of table_roster_directory [] ''k'' = Inr (False, [(10, Some 20)])"
    by (simp add: node_bearing_of_def has_node_def table_roster_directory_def directory.defs roster_directory.defs parse
        identity_intervals_def agreed_from_in_def assertion_interval_def assertion_end_def ex_occurrence_def
        List.map_filter_def)
  have edges: "edges_after 12 [(10, Some 20)] = {20}" "edges_after 22 [(10, Some 20)] = {}"
    by (auto simp: edges_after_def)
  have at: "node_bearing_at_with_next table_roster_directory [] ''k'' 12 = Inr (True, Some 20)"
      "node_bearing_at_with_next table_roster_directory [] ''k'' 22 = Inr (False, None)"
    by (simp_all add: node_bearing_at_with_next_def of edges)
  show ?thesis using bearing_verdict_holds[OF at(1), of 15] bearing_verdict_holds[OF at(2), of 25] by simp
qed


abbreviation (input) ex_objections :: "attestation list" where
  "ex_objections \<equiv> [ex_objection ''o1'' ''a'', ex_objection ''o2'' ''b'']"

lemma ex_objection_fields [simp]:
  "attestation_id (ex_objection i k) = i" "attesting_key_id (ex_objection i k) = k" "attested_key_id (ex_objection i k) = ''x''"
  "att_tier (ex_objection i k) = TIER_FEDERATION" "asserted_at (ex_objection i k) = 1"
  by (simp_all add: ex_objection_def ex_row_def)

lemma ex_objections_ok: "table_ok ex_objections"
proof -
  have "row_text (ex_objection ''o1'' ''a'')" by code_simp
  moreover have "row_text (ex_objection ''o2'' ''b'')" by code_simp
  ultimately show ?thesis by (simp add: table_ok_def)
qed

lemma ex_reversed_fold:
  "\<exists>f. resolve_reverse_quorum_with chrono_std half (table_directory ex_members ex_rq) ex_objections Family ''g''
     [''a'', ''b''] (Some ex_reversible) None ex_action 5 = Some (Inr f) \<and> rf_standing f = Reversed"
proof -
  let ?D = "table_directory ex_members ex_rq" and ?roster = "[''a'', ''b'']"
  from objections_against_rows[OF table_directory_laws, OF ex_objections_ok, of ex_members ex_rq ex_action]
  obtain found where f: "objections_against ?D ex_objections ex_action = Some (Inr found)"
    and rows: "set found = {r \<in> set ex_objections. attested_key_id r = actor_key_id ex_action \<and> att_tier r = TIER_FEDERATION \<and>
      of_objection_family r \<and> envelope_str r OBJECTS_TO = Some (action_id ex_action)}" by blast
  have found: "set found = set ex_objections"
    unfolding rows using ex_envelopes(2) objection_kinds(3)[OF ex_envelopes(3)] by (auto simp: ex_action_def)
  let ?inp = "rq_inputs_of half ?D ex_objections ?roster (Some ex_reversible) [] ex_action 5 found"
  let ?obs = "filter (\<lambda>r. \<not> is_dismissal r) (filter (\<lambda>r. \<not> is_ballot r) found)"
  have "\<not> is_dismissal r" if "r \<in> set found" for r
    using that objection_kinds(2)[OF ex_envelopes(3)] by (auto simp: found)
  then have "filter is_dismissal (filter (\<lambda>r. \<not> is_ballot r) found) = []" by (simp add: filter_empty_conv)
  then have none: "in_dismissals ?inp = []" by (simp add: rq_inputs_of_def Let_def del: filter_filter)
  have obs: "set ?obs = set ex_objections"
    using objection_kinds(1,2)[OF ex_envelopes(3)] by (auto simp: found)
  have live: "objection_live (objection_in_scope ex_action ?roster 0 (snd (rq_window chrono_std ex_reversible 0)))
      (dismissed_names []) None (ex_objection i k)" if "k \<in> {''a'', ''b''}" for i k
  proof -
    have "1 \<le> snd (rq_window chrono_std ex_reversible 0)" using ex_window by (simp add: rq_window_def ex_reversible_def)
    moreover have "k \<in> set ?roster" using that by auto
    ultimately show ?thesis
      by (simp add: objection_live_def objection_in_scope_def dismissed_names_def ex_action_def List.map_filter_def
          ex_envelopes(2,3))
  qed
  have "rf_standing (fold_reverse_quorum_over chrono_std half ?inp) = Reversed"
  proof -
    have "{''a'', ''b''} \<subseteq> attesting_key_id ` {ob \<in> set ?obs. objection_live
        (objection_in_scope ex_action ?roster 0 (snd (rq_window chrono_std ex_reversible 0))) (dismissed_names []) None ob}"
      unfolding obs using live[of "''a''" "''o1''"] live[of "''b''" "''o2''"]
      by (auto intro: image_eqI[of _ _ "ex_objection ''o1'' ''a''"] image_eqI[of _ _ "ex_objection ''o2'' ''b''"])
    from card_mono[OF _ this] have "2 \<le> card (attesting_key_id ` {ob \<in> set ?obs. objection_live
        (objection_in_scope ex_action ?roster 0 (snd (rq_window chrono_std ex_reversible 0))) (dismissed_names []) None ob})"
      by simp
    moreover have "action_asserted_at ex_action = 0" by (simp add: ex_action_def)
    moreover have "reversal_threshold ex_reversible (Suc (Suc 0)) = 2"
      by (simp add: reversal_threshold_def ex_reversible_def ex_rq_def)
    moreover have "escalate_of chrono_std half ?inp ex_reversible = None"
      by (simp add: escalate_of_def ex_reversible_def)
    moreover note none
    ultimately show ?thesis
      by (simp add: fold_reverse_quorum_over_def rq_inputs_of_fields Let_def fold_step_objectors fold_acc_empty_def
          rq_window_def)
  qed
  moreover have "duty_holders_of ?D ex_objections Family ''g'' (Some ex_reversible) None = Inr []"
    by (simp add: duty_holders_of_def ex_reversible_def)
  ultimately show ?thesis by (simp add: resolve_reverse_quorum_with_def f)
qed


lemma ex_reversible_parse: "rq_parse (rr_protocol ex_reversible_rules) = Some ex_reversible"
proof -
  have "policy_wf ex_reversible" using ex_rq_wf by (simp add: policy_wf_def ex_reversible_def)
  then show ?thesis by (simp add: ex_reversible_rules_def ex_rules_def rq_parse_to_protocol)
qed

definition ex_removed :: roster_event where
  "ex_removed = \<lparr> ev_effective_at = 0, ev_is_add = False, ev_member = ex_member ''x'' ''member'', ev_signers = {''x''},
     ev_moderator_roots = {}, ev_reversed = False \<rparr>"

lemma ex_prepared:
  "prepare_roster_events chrono_std half (- 100) 5 table_roster_directory ex_objections Family ''g'' ex_family
     ex_reversible_rules [ex_removal] ex_removal_signers None = Some (Inr [ex_removed\<lparr>ev_reversed := True\<rparr>])"
proof -
  have keys: "roster_keys (authorized_roster_state_at half ex_family ex_reversible_rules [ex_removed] 5) = [''a'', ''b'']"
    by code_simp
  have signed: "signed_event ex_removal_signers ex_removal = ex_removed"
    by (simp add: signed_event_def ex_removal_signers_def ex_removal_def ex_removed_def find_signer_def ex_member_def signer_set_def)
  have cand: "reverse_candidate ex_reversible_rules ex_removal_signers ex_removal = Some (''x'', ''act'')"
    by code_simp
  have parse: "rq_parse (rr_protocol ex_reversible_rules) = Some ex_reversible" by (rule ex_reversible_parse)
  obtain f where f: "resolve_reverse_quorum_with chrono_std half (table_directory ex_members ex_rq) ex_objections Family ''g''
     [''a'', ''b''] (Some ex_reversible) None ex_action 5 = Some (Inr f)" "rf_standing f = Reversed"
    using ex_reversed_fold by blast
  then have "judge_reversal chrono_std half table_roster_directory ex_objections Family ''g'' [''a'', ''b'']
      (Some ex_reversible) None 5 (ex_removed, Some (''x'', ''act'')) = Some (Inr (ex_removed\<lparr>ev_reversed := True\<rparr>))"
    by (simp add: judge_reversal_def table_roster_truncate ex_removed_def ex_action_def roster_reversal_stands_def)
  with keys show ?thesis
    by (simp add: prepare_roster_events_def Let_def signed cand parse roster_duty_holders_def)
qed

theorem reversal_needs_objectors_witness:
  "\<exists>K. K \<subseteq> {''a'', ''b''} \<and> 2 \<le> card K \<and>
     K \<subseteq> attesting_key_id ` {r \<in> set ex_objections. envelope_str r OBJECTS_TO = Some ''act''}"
proof -
  have laws: "directory_laws (directory.truncate table_roster_directory) table_ok (\<lambda>s. s)"
    unfolding table_roster_truncate by (rule table_directory_laws)
  let ?evs = "[ex_removed\<lparr>ev_reversed := True\<rparr>]"
  have keys: "roster_keys (authorized_roster_state_at half ex_family ex_reversible_rules (map unreversed ?evs) 5) =
      [''a'', ''b'']" by code_simp
  have parse: "rq_parse (rr_protocol ex_reversible_rules) = Some ex_reversible" by (rule ex_reversible_parse)
  have e: "ex_removed\<lparr>ev_reversed := True\<rparr> \<in> set ?evs" "ev_reversed (ex_removed\<lparr>ev_reversed := True\<rparr>)" by simp_all
  from reversal_needs_objectors[OF laws, OF ex_objections_ok, OF ex_prepared, OF e refl]
  obtain p K st where K: "rq_parse (rr_protocol ex_reversible_rules) = Some p"
    "K \<subseteq> set [''a'', ''b'']" "reversal_threshold p (length [''a'', ''b'']) \<le> card K" "st \<in> set [ex_removal]"
    "\<forall>k \<in> K. \<exists>r \<in> set ex_objections. attesting_key_id r = k \<and>
       envelope_str r ''dimension'' = Some DIMENSION_OBJECTION \<and> envelope_str r OBJECTS_TO = Some (se_row_hash st)"
    unfolding keys by blast
  have hash: "se_row_hash st = ''act''" using K(4) by (simp add: ex_removal_def)
  have "K \<subseteq> attesting_key_id ` {r \<in> set ex_objections. envelope_str r OBJECTS_TO = Some ''act''}"
  proof
    fix k assume "k \<in> K"
    with K(5) obtain r where r: "r \<in> set ex_objections" "attesting_key_id r = k"
      "envelope_str r OBJECTS_TO = Some (se_row_hash st)" by metis
    then show "k \<in> attesting_key_id ` {r \<in> set ex_objections. envelope_str r OBJECTS_TO = Some ''act''}"
      unfolding hash by (intro image_eqI[of k _ r] CollectI conjI) simp_all
  qed
  moreover have "p = ex_reversible" using K(1) parse by simp
  then have "2 \<le> card K" using K(3) by (simp add: reversal_threshold_def ex_reversible_def ex_rq_def)
  ultimately show ?thesis using K(2) by auto
qed

end
