(* ===== verification/Canonical_Json.thy ===== *)
theory Canonical_Json
  imports Utf8_Text
begin

text \<open>
  The canonical bytes of signed payloads (\<open>src/src/verify/canonical.rs\<close>): the writer that reproduces Python's
  \<open>json.dumps(sort_keys=True, separators=(",", ":"))\<close>, the form a signature covers, and the version gate in
  front of them. A number keeps the token it was read from (\<open>serde_json\<close> with \<open>arbitrary_precision\<close>), so it is a
  string here; an object is its members, in any order.

  The lemmas show that the writer is a prefix code on the delimited texts, hence that equal bytes mean equal
  values up to the order of members.
\<close>

section \<open>Values\<close>

datatype jvalue =
    VNull
  | VBool bool
  | VNumber string
  | VString string
  | VArray "jvalue list"
  | VObject "(string \<times> jvalue) list"

text \<open>The scalar values of a text, as \<open>str::chars\<close> yields them.\<close>

definition code_point :: "string \<Rightarrow> nat" where
  "code_point s =
     (case map byte s of
        [a] \<Rightarrow> a
      | [a, b] \<Rightarrow> (a - 0xC0) * 64 + (b - 0x80)
      | [a, b, c] \<Rightarrow> (a - 0xE0) * 4096 + (b - 0x80) * 64 + (c - 0x80)
      | [a, b, c, d] \<Rightarrow> (a - 0xF0) * 262144 + (b - 0x80) * 4096 + (c - 0x80) * 64 + (d - 0x80)
      | _ \<Rightarrow> 0)"

function str_chars :: "string \<Rightarrow> nat list" where
  "str_chars s =
     (if s = [] then []
      else case utf8_lead s of
             None \<Rightarrow> []
           | Some n \<Rightarrow> code_point (take n s) # str_chars (drop n s))"
  by pat_completeness auto
termination
proof (relation "measure length", goal_cases)
  case (2 s n)
  then show ?case using utf8_lead_bounds[of s n] by auto
qed simp

declare str_chars.simps [simp del]

section \<open>The writer\<close>

definition hex_digit :: "nat \<Rightarrow> char" where
  "hex_digit d = char_of (if d < 10 then 48 + d else 87 + d)"

definition hex4 :: "nat \<Rightarrow> string" where
  "hex4 n = [hex_digit (n div 4096 mod 16), hex_digit (n div 256 mod 16), hex_digit (n div 16 mod 16), hex_digit (n mod 16)]"

definition escape_u :: "nat \<Rightarrow> string" where
  "escape_u n = [CHR 0x5C, CHR ''u''] @ hex4 n"

definition write_char :: "nat \<Rightarrow> string" where
  "write_char c =
     (if c = 0x22 then [CHR 0x5C, CHR 0x22]
      else if c = 0x5C then [CHR 0x5C, CHR 0x5C]
      else if c = 0x08 then [CHR 0x5C, CHR ''b'']
      else if c = 0x0C then [CHR 0x5C, CHR ''f'']
      else if c = 0x0A then [CHR 0x5C, CHR ''n'']
      else if c = 0x0D then [CHR 0x5C, CHR ''r'']
      else if c = 0x09 then [CHR 0x5C, CHR ''t'']
      else if c < 0x20 then escape_u c
      else if c < 0x7F then [char_of c]
      else if c \<le> 0xFFFF then escape_u c
      else let cp = c - 0x10000 in
        escape_u (0xD800 + cp div 1024) @ escape_u (0xDC00 + cp mod 1024))"

definition write_string :: "string \<Rightarrow> string" where
  "write_string s = [CHR 0x22] @ concat (map write_char (str_chars s)) @ [CHR 0x22]"

definition member_text :: "string \<times> string \<Rightarrow> string" where
  "member_text m = write_string (fst m) @ CHR '':'' # snd m"

definition members_text :: "string list \<Rightarrow> (string \<times> string) list \<Rightarrow> string" where
  "members_text skip ms =
     CHR ''{'' # join '','' (map member_text (sort_key fst (filter (\<lambda>m. fst m \<notin> set skip) ms))) @ [CHR ''}'']"

fun write_value :: "jvalue \<Rightarrow> string" where
  "write_value VNull = ''null''"
| "write_value (VBool b) = (if b then ''true'' else ''false'')"
| "write_value (VNumber n) = n"
| "write_value (VString s) = write_string s"
| "write_value (VArray vs) = CHR ''['' # join '','' (map write_value vs) @ [CHR '']'']"
| "write_value (VObject kvs) = members_text [] (map (\<lambda>(k, v). (k, write_value v)) kvs)"

definition write_object :: "string list \<Rightarrow> (string \<times> jvalue) list \<Rightarrow> string" where
  "write_object skip kvs = members_text skip (map (\<lambda>(k, v). (k, write_value v)) kvs)"

section \<open>Signing forms and the version gate\<close>

definition SIGNATURE_MEMBERS :: "string list" where
  "SIGNATURE_MEMBERS = [''signature'', ''signature_pqc'']"

definition canonicalize_v1_pinned :: "jvalue \<Rightarrow> string" where
  "canonicalize_v1_pinned env =
     (case env of VObject kvs \<Rightarrow> write_object SIGNATURE_MEMBERS kvs | _ \<Rightarrow> write_value env)"

datatype canon_version = V1Python | V2Jcs

text \<open>RFC 8785 is outside the repository: \<open>jcs\<close> is \<open>ciris_verify_core::jcs::canonicalize\<close> and \<open>jcs_members\<close> is
  \<open>serde_jcs::to_vec\<close> of a map of members.\<close>

definition canonicalizer_for :: "(jvalue \<Rightarrow> string + string) \<Rightarrow> canon_version \<Rightarrow> jvalue \<Rightarrow> string + string" where
  "canonicalizer_for jcs version v =
     (case version of V1Python \<Rightarrow> Inr (write_value v) | V2Jcs \<Rightarrow> jcs v)"

definition produce_canon_version :: canon_version where
  "produce_canon_version = V2Jcs"

definition ceg_produce_canonicalize :: "(jvalue \<Rightarrow> string + string) \<Rightarrow> jvalue \<Rightarrow> string + string" where
  "ceg_produce_canonicalize jcs v = canonicalizer_for jcs produce_canon_version v"

definition signing_view :: "(string \<times> jvalue) list \<Rightarrow> (string \<times> jvalue) list" where
  "signing_view kvs = filter (\<lambda>(k, v). k \<notin> set SIGNATURE_MEMBERS) kvs"

definition canonicalize_envelope_for_signing ::
  "(jvalue \<Rightarrow> string + string) \<Rightarrow> ((string \<times> jvalue) list \<Rightarrow> string + string) \<Rightarrow> jvalue \<Rightarrow> string + string" where
  "canonicalize_envelope_for_signing jcs jcs_members env =
     (case env of
        VObject kvs \<Rightarrow>
          (case produce_canon_version of
             V2Jcs \<Rightarrow> jcs_members (signing_view kvs)
           | V1Python \<Rightarrow> Inr (write_object SIGNATURE_MEMBERS kvs))
      | _ \<Rightarrow> ceg_produce_canonicalize jcs env)"

section \<open>Well-formed values\<close>

definition number_char :: "char \<Rightarrow> bool" where
  "number_char c \<longleftrightarrow> c \<in> set ''0123456789+-.eE''"

definition number_token :: "string \<Rightarrow> bool" where
  "number_token n \<longleftrightarrow> n \<noteq> [] \<and> list_all number_char n"

fun jv_ok :: "jvalue \<Rightarrow> bool" where
  "jv_ok (VNumber n) \<longleftrightarrow> number_token n"
| "jv_ok (VString s) \<longleftrightarrow> utf8 s"
| "jv_ok (VArray vs) \<longleftrightarrow> list_all jv_ok vs"
| "jv_ok (VObject kvs) \<longleftrightarrow>
     distinct (map fst kvs) \<and> list_all (\<lambda>(k, v). utf8 k \<and> jv_ok v) kvs"
| "jv_ok _ \<longleftrightarrow> True"

text \<open>The same value with the members of every object in key order.\<close>

fun jv_norm :: "jvalue \<Rightarrow> jvalue" where
  "jv_norm (VArray vs) = VArray (map jv_norm vs)"
| "jv_norm (VObject kvs) = VObject (sort_key fst (map (\<lambda>(k, v). (k, jv_norm v)) kvs))"
| "jv_norm v = v"

section \<open>Scalar values and their escapes\<close>

definition scalar :: "nat \<Rightarrow> bool" where
  "scalar c \<longleftrightarrow> c < 0x110000 \<and> \<not> (0xD800 \<le> c \<and> c \<le> 0xDFFF)"

lemma str_chars_Nil [simp]: "str_chars [] = []"
  by (subst str_chars.simps) simp

definition encode_char :: "nat \<Rightarrow> string" where
  "encode_char c =
     map char_of (if c < 0x80 then [c]
      else if c < 0x800 then [0xC0 + c div 64, 0x80 + c mod 64]
      else if c < 0x10000 then [0xE0 + c div 4096, 0x80 + c div 64 mod 64, 0x80 + c mod 64]
      else [0xF0 + c div 262144, 0x80 + c div 4096 mod 64, 0x80 + c div 64 mod 64, 0x80 + c mod 64])"

lemma utf8_lead_cases:
  assumes "utf8_lead s = Some n"
  obtains (one) a r where "s = a # r" "n = 1" "byte a < 128"
  | (two) a b r where "s = a # b # r" "n = 2" "0xC2 \<le> byte a" "byte a \<le> 0xDF" "is_cont b"
  | (three) a b c r where "s = a # b # c # r" "n = 3" "0xE0 \<le> byte a" "byte a \<le> 0xEF" "second_ok (byte a) b" "is_cont c"
  | (four) a b c d r where "s = a # b # c # d # r" "n = 4" "0xF0 \<le> byte a" "byte a \<le> 0xF4" "second_ok (byte a) b"
      "is_cont c" "is_cont d"
  using assms by (cases s) (auto simp: Let_def split: if_splits list.splits)

lemma shift_split: "b < 64 \<Longrightarrow> (a * 64 + b) div 64 = a" "b < 64 \<Longrightarrow> (a * 64 + b) mod 64 = (b :: nat)"
  by simp_all

lemma code_point_lead:
  assumes "utf8_lead s = Some n"
  shows "scalar (code_point (take n s)) \<and> encode_char (code_point (take n s)) = take n s"
  using assms
proof (cases rule: utf8_lead_cases)
  case (one a r)
  then show ?thesis by (simp add: code_point_def encode_char_def scalar_def)
next
  case (two a b r)
  define x y where "x = byte a - 0xC0" and "y = byte b - 0x80"
  have r: "byte a = 0xC0 + x" "byte b = 0x80 + y" "y < 64" "2 \<le> x" "x < 32"
    using two by (auto simp: x_def y_def is_cont_def)
  have "code_point (take n s) = x * 64 + y" using two(1,2) by (simp add: code_point_def r)
  moreover have "map char_of [0xC0 + x, 0x80 + y] = [a, b]"
    by (simp add: r(1,2)[symmetric])
  ultimately show ?thesis
    using two(1,2) r by (auto simp: encode_char_def scalar_def)
next
  case (three a b c r)
  define x y z where "x = byte a - 0xE0" and "y = byte b - 0x80" and "z = byte c - 0x80"
  have r: "byte a = 0xE0 + x" "byte b = 0x80 + y" "byte c = 0x80 + z" "y < 64" "z < 64" "x < 16"
    "x = 0 \<longrightarrow> 32 \<le> y" "x = 13 \<longrightarrow> y < 32"
    using three by (auto simp: x_def y_def z_def is_cont_def second_ok_def)
  define w where "w = x * 64 + y"
  have w: "w div 64 = x" "w mod 64 = y" "32 \<le> w" "w < 1024" using r by (auto simp: w_def)
  have surrogate: "\<not> (864 \<le> w \<and> w < 896)" using r(4,8) unfolding w_def by presburger
  have cp: "code_point (take n s) = w * 64 + z" using three(1,2) by (simp add: code_point_def r w_def)
  have v: "(w * 64 + z) div 64 = w" "(w * 64 + z) mod 64 = z" "(w * 64 + z) div 4096 = x"
    using r w div_mult2_eq[of "w * 64 + z" 64 64] by simp_all
  have "map char_of [0xE0 + x, 0x80 + y, 0x80 + z] = [a, b, c]"
    by (simp add: r(1,2,3)[symmetric])
  then show ?thesis
    unfolding cp using three(1,2) w surrogate r v by (auto simp: encode_char_def scalar_def)
next
  case (four a b c d r)
  define x y z u where "x = byte a - 0xF0" and "y = byte b - 0x80" and "z = byte c - 0x80" and "u = byte d - 0x80"
  have r: "byte a = 0xF0 + x" "byte b = 0x80 + y" "byte c = 0x80 + z" "byte d = 0x80 + u" "y < 64" "z < 64" "u < 64" "x \<le> 4"
    "x = 0 \<longrightarrow> 16 \<le> y" "x = 4 \<longrightarrow> y < 16"
    using four by (auto simp: x_def y_def z_def u_def is_cont_def second_ok_def)
  define w where "w = x * 64 + y"
  define q where "q = w * 64 + z"
  have w: "w div 64 = x" "w mod 64 = y" "16 \<le> w" "w < 272" using r by (auto simp: w_def)
  have q: "q div 64 = w" "q mod 64 = z" "1024 \<le> q" "q < 17408" using r w by (auto simp: q_def)
  have cp: "code_point (take n s) = q * 64 + u" using four(1,2) by (simp add: code_point_def r w_def q_def algebra_simps)
  have v: "(q * 64 + u) div 64 = q" "(q * 64 + u) mod 64 = u" "(q * 64 + u) div 4096 = w" "(q * 64 + u) div 262144 = x"
    using r w q div_mult2_eq[of "q * 64 + u" 64 64] div_mult2_eq[of "q * 64 + u" 4096 64] by simp_all
  have "map char_of [0xF0 + x, 0x80 + y, 0x80 + z, 0x80 + u] = [a, b, c, d]"
    by (simp add: r(1,2,3,4)[symmetric])
  then show ?thesis
    unfolding cp using four(1,2) w q r v by (auto simp: encode_char_def scalar_def)
qed

lemma utf8_induct [consumes 1, case_names Nil lead]:
  assumes "utf8 s" "P []"
    "\<And>s n. utf8_lead s = Some n \<Longrightarrow> s \<noteq> [] \<Longrightarrow> utf8 (drop n s) \<Longrightarrow> P (drop n s) \<Longrightarrow> P s"
  shows "P s"
  using assms(1)
proof (induction s rule: utf8.induct)
  case (1 s)
  show ?case
  proof (cases "s = []")
    case False
    then obtain n where "utf8_lead s = Some n" "utf8 (drop n s)"
      using "1.prems" by (subst (asm) utf8.simps) (auto split: option.splits)
    then show ?thesis using "1.IH"[OF False] assms(3) False by blast
  qed (simp add: assms(2))
qed

lemma str_chars_lead:
  "utf8_lead s = Some n \<Longrightarrow> s \<noteq> [] \<Longrightarrow> str_chars s = code_point (take n s) # str_chars (drop n s)"
  by (subst str_chars.simps) simp

lemma str_chars_scalars: "utf8 s \<Longrightarrow> list_all scalar (str_chars s) \<and> concat (map encode_char (str_chars s)) = s"
proof (induction s rule: utf8_induct)
  case (lead s n)
  then show ?case using code_point_lead[OF lead(1)] by (simp add: str_chars_lead)
qed simp

definition hex_value :: "char \<Rightarrow> nat" where
  "hex_value c = (if byte c < 58 then byte c - 48 else byte c - 87)"

definition unhex4 :: "string \<Rightarrow> nat" where
  "unhex4 s = hex_value (s ! 0) * 4096 + hex_value (s ! 1) * 256 + hex_value (s ! 2) * 16 + hex_value (s ! 3)"

lemma hex_value_digit: "d < 16 \<Longrightarrow> hex_value (hex_digit d) = d"
  by (simp add: hex_value_def hex_digit_def)

lemma unhex4_hex4:
  assumes "n < 65536"
  shows "unhex4 (hex4 n @ r) = n"
proof -
  define a b where "a = n div 16" and "b = n div 256"
  have ab: "a div 16 = b" "b div 16 = n div 4096" by (simp_all add: a_def b_def div_mult2_eq[symmetric])
  have "n = a * 16 + n mod 16" "a = b * 16 + a mod 16" "b = n div 4096 * 16 + b mod 16"
    using ab div_mult_mod_eq[of n 16] div_mult_mod_eq[of a 16] div_mult_mod_eq[of b 16] by (simp_all add: a_def)
  moreover have "n div 4096 < 16" using assms by (simp add: div_less_iff_less_mult)
  ultimately show ?thesis
    by (simp add: unhex4_def hex4_def hex_value_digit a_def[symmetric] b_def[symmetric])
qed

lemma length_escape_u [simp]: "length (escape_u n) = 6"
  by (simp add: escape_u_def hex4_def)

text \<open>A reader of one escape, the inverse of \<^const>\<open>write_char\<close>.\<close>

definition read_char :: "string \<Rightarrow> nat \<times> string" where
  "read_char t =
     (if hd t \<noteq> CHR 0x5C then (byte (hd t), tl t)
      else let e = t ! 1 in
        if e = CHR 0x22 then (0x22, drop 2 t)
        else if e = CHR 0x5C then (0x5C, drop 2 t)
        else if e = CHR ''b'' then (0x08, drop 2 t)
        else if e = CHR ''f'' then (0x0C, drop 2 t)
        else if e = CHR ''n'' then (0x0A, drop 2 t)
        else if e = CHR ''r'' then (0x0D, drop 2 t)
        else if e = CHR ''t'' then (0x09, drop 2 t)
        else let n = unhex4 (drop 2 t) in
          if 0xD800 \<le> n \<and> n \<le> 0xDFFF
          then (0x10000 + (n - 0xD800) * 1024 + (unhex4 (drop 8 t) - 0xDC00), drop 12 t)
          else (n, drop 6 t))"

lemma read_escape_u:
  assumes "n < 65536" "\<not> (0xD800 \<le> n \<and> n \<le> 0xDFFF)"
  shows "read_char (escape_u n @ r) = (n, r)"
  using assms unhex4_hex4[OF assms(1), of r] by (auto simp: read_char_def escape_u_def Let_def) (simp_all add: hex4_def)

lemma read_escape_pair:
  assumes "hi < 1024" "lo < 1024"
  shows "read_char (escape_u (0xD800 + hi) @ escape_u (0xDC00 + lo) @ r) = (0x10000 + hi * 1024 + lo, r)"
proof -
  let ?t = "escape_u (0xD800 + hi) @ escape_u (0xDC00 + lo) @ r"
  have h: "unhex4 (drop 2 ?t) = 0xD800 + hi" "unhex4 (drop 8 ?t) = 0xDC00 + lo"
    using assms unhex4_hex4[of "0xD800 + hi"] unhex4_hex4[of "0xDC00 + lo"]
    by (simp_all add: escape_u_def hex4_def)
  have e: "hd ?t = CHR 0x5C" "?t ! 1 = CHR ''u''" "drop 12 ?t = r" by (simp_all add: escape_u_def hex4_def)
  show ?thesis unfolding read_char_def e h Let_def using assms by simp
qed

lemma ascii_char_of_eq: "c < 128 \<Longrightarrow> char_of c = x \<longleftrightarrow> (c :: nat) = byte x"
  by (auto simp: of_char_of)

lemma write_char_cases:
  obtains (named) e where "write_char c = [CHR 0x5C, e]" "(e, c) \<in> set [(CHR 0x22, 0x22), (CHR 0x5C, 0x5C), (CHR ''b'', 8),
      (CHR ''f'', 12), (CHR ''n'', 10), (CHR ''r'', 13), (CHR ''t'', 9)]"
  | (hex) "write_char c = escape_u c" "c \<le> 0xFFFF"
  | (plain) "write_char c = [char_of c]" "c < 0x7F" "0x20 \<le> c" "c \<noteq> 0x22" "c \<noteq> 0x5C"
  | (pair) "write_char c = escape_u (0xD800 + (c - 0x10000) div 1024) @ escape_u (0xDC00 + (c - 0x10000) mod 1024)"
      "0x10000 \<le> c"
proof -
  show thesis
  proof (cases "c \<in> {0x22, 0x5C, 8, 12, 10, 13, 9}")
    case True
    then show thesis by (elim insertE) (auto simp: write_char_def intro: named)
  next
    case False
    then show thesis
      using hex plain pair by (cases "c < 0x20"; cases "c < 0x7F"; cases "c \<le> 0xFFFF") (auto simp: write_char_def Let_def)
  qed
qed

lemma read_write_char:
  assumes "scalar c"
  shows "read_char (write_char c @ r) = (c, r)"
proof (cases rule: write_char_cases[of c])
  case (named e)
  then show ?thesis by (auto simp: read_char_def)
next
  case hex
  then show ?thesis using read_escape_u[of c r] assms by (simp add: scalar_def)
next
  case plain
  then have "char_of c \<noteq> CHR 0x5C" by (simp add: ascii_char_of_eq)
  with plain show ?thesis by (simp add: read_char_def)
next
  case pair
  have "(c - 0x10000) div 1024 < 1024" "(c - 0x10000) mod 1024 < 1024" using assms by (auto simp: scalar_def)
  from read_escape_pair[OF this, of r] show ?thesis
    using pair div_mult_mod_eq[of "c - 0x10000" 1024] by simp
qed

lemma write_char_head: "write_char c \<noteq> [] \<and> hd (write_char c) \<noteq> CHR 0x22"
  by (cases rule: write_char_cases[of c]) (simp_all add: escape_u_def ascii_char_of_eq)

lemma write_chars_cancel:
  assumes "list_all scalar cs" "list_all scalar ds"
    "concat (map write_char cs) @ CHR 0x22 # r = concat (map write_char ds) @ CHR 0x22 # t"
  shows "cs = ds \<and> r = t"
  using assms
proof (induction cs arbitrary: ds)
  case Nil
  show ?case
  proof (cases ds)
    case (Cons d ds')
    then show ?thesis using Nil.prems(3) write_char_head[of d] by (cases "write_char d") auto
  qed (use Nil in simp)
next
  case (Cons c cs)
  show ?case
  proof (cases ds)
    case Nil
    then show ?thesis using Cons.prems(3) write_char_head[of c] by (cases "write_char c") auto
  next
    case (Cons d ds')
    with Cons.prems have "write_char c @ concat (map write_char cs) @ CHR 0x22 # r =
        write_char d @ concat (map write_char ds') @ CHR 0x22 # t" by simp
    then have "read_char (write_char c @ concat (map write_char cs) @ CHR 0x22 # r) =
        read_char (write_char d @ concat (map write_char ds') @ CHR 0x22 # t)" by (rule arg_cong)
    moreover have "scalar c" "scalar d" using Cons.prems(1,2) Cons by simp_all
    ultimately have "c = d" "concat (map write_char cs) @ CHR 0x22 # r = concat (map write_char ds') @ CHR 0x22 # t"
      by (simp_all only: read_write_char prod.inject)
    with Cons.IH[of ds'] Cons.prems(1,2) Cons show ?thesis by simp
  qed
qed

lemma write_string_cancel:
  assumes "utf8 s" "utf8 t" "write_string s @ r = write_string t @ q"
  shows "s = t \<and> r = q"
proof -
  have "str_chars s = str_chars t \<and> r = q"
    using write_chars_cancel[of "str_chars s" "str_chars t" r q] assms str_chars_scalars
    by (auto simp: write_string_def)
  then show ?thesis using str_chars_scalars assms(1,2) by metis
qed

section \<open>The writer is a prefix code\<close>

definition delimited :: "string \<Rightarrow> bool" where
  "delimited r \<longleftrightarrow> r = [] \<or> hd r \<in> {CHR '','', CHR '']'', CHR ''}''}"

lemma delimited_simps [simp]:
  "delimited []" "delimited (CHR '','' # r)" "delimited (CHR '']'' # r)" "delimited (CHR ''}'' # r)"
  by (simp_all add: delimited_def)

lemma number_delimited: "number_token n \<Longrightarrow> delimited r \<Longrightarrow> takeWhile number_char (n @ r) = n \<and> dropWhile number_char (n @ r) = r"
proof -
  assume "number_token n" and r: "delimited r"
  then have n: "\<forall>c \<in> set n. number_char c" by (simp add: number_token_def list_all_iff)
  have "r = [] \<or> \<not> number_char (hd r)" using r by (auto simp: delimited_def number_char_def)
  then have "takeWhile number_char r = []" "dropWhile number_char r = r" by (cases r; simp)+
  with n show ?thesis by (simp add: takeWhile_append2 dropWhile_append2)
qed

text \<open>A separated list is determined by its elements, when the elements are.\<close>

lemma join_cancel:
  assumes elem: "\<And>x y r q. x \<in> set xs \<Longrightarrow> y \<in> set ys \<Longrightarrow> delimited r \<Longrightarrow> delimited q \<Longrightarrow>
      t x @ r = t y @ q \<Longrightarrow> f x = f y \<and> r = q"
    and head: "\<And>x. x \<in> set xs \<union> set ys \<Longrightarrow> t x \<noteq> [] \<and> hd (t x) \<noteq> e"
    and e: "e = CHR '']'' \<or> e = CHR ''}''"
    and eq: "join '','' (map t xs) @ e # r = join '','' (map t ys) @ e # q"
  shows "map f xs = map f ys \<and> r = q"
  using assms
proof (induction xs arbitrary: ys)
  case Nil
  then show ?case
  proof (cases ys)
    case (Cons y ys')
    then obtain rest where "join '','' (map t ys) = t y @ rest" by (cases ys') auto
    then show ?thesis using Nil.prems(2)[of y] Nil.prems(4) Cons by (cases "t y") auto
  qed simp
next
  case (Cons x xs)
  have dl: "delimited (e # z)" for z using e by auto
  obtain rest where rest: "join '','' (map t (x # xs)) @ e # r = t x @ rest" "delimited rest"
    "rest = (if xs = [] then e # r else CHR '','' # join '','' (map t xs) @ e # r)"
    using dl by (cases xs) auto
  show ?case
  proof (cases ys)
    case Nil
    then show ?thesis using Cons.prems(2)[of x] Cons.prems(4) rest by (cases "t x") auto
  next
    case (Cons y ys')
    obtain rest' where rest': "join '','' (map t (y # ys')) @ e # q = t y @ rest'" "delimited rest'"
      "rest' = (if ys' = [] then e # q else CHR '','' # join '','' (map t ys') @ e # q)"
      using dl by (cases ys') auto
    have fx: "f x = f y" and rr: "rest = rest'"
      using Cons.prems(1)[of x y rest rest'] Cons.prems(4) Cons rest rest' by auto
    from rr rest(3) rest'(3) e have "join '','' (map t xs) @ e # r = join '','' (map t ys') @ e # q"
      by (auto split: if_splits)
    then have "map f xs = map f ys' \<and> r = q"
      using Cons.prems(1,2,3) Cons by (intro Cons.IH) auto
    then show ?thesis using fx Cons by simp
  qed
qed

lemma number_tokenE:
  assumes "number_token n"
  obtains c cs where "n = c # cs" "number_char c"
  using assms by (cases n) (auto simp: number_token_def)

lemma number_char_other:
  "number_char c \<Longrightarrow> c \<noteq> CHR '']''" "number_char c \<Longrightarrow> c \<noteq> CHR ''}''" "number_char c \<Longrightarrow> c \<noteq> CHR '',''"
  "number_char c \<Longrightarrow> c \<noteq> CHR ''n''" "number_char c \<Longrightarrow> c \<noteq> CHR ''t''" "number_char c \<Longrightarrow> c \<noteq> CHR ''f''"
  "number_char c \<Longrightarrow> c \<noteq> CHR 0x22" "number_char c \<Longrightarrow> c \<noteq> CHR ''[''" "number_char c \<Longrightarrow> c \<noteq> CHR ''{''"
  by (auto simp: number_char_def)

lemma write_value_head:
  assumes "jv_ok v"
  shows "write_value v \<noteq> [] \<and> hd (write_value v) \<notin> {CHR '']'', CHR ''}'', CHR '',''}"
proof (cases v)
  case (VNumber n)
  then show ?thesis using assms by (auto elim!: number_tokenE dest: number_char_other)
qed (simp_all add: write_string_def members_text_def)

lemma sort_members:
  "sort_key fst (map (\<lambda>(k, v). (k, g v)) kvs) = map (\<lambda>(k, v). (k, g v)) (sort_key fst kvs)"
proof -
  have "insort_key fst (k, g v) (map (\<lambda>(k, v). (k, g v)) l) = map (\<lambda>(k, v). (k, g v)) (insort_key fst (k, v) l)"
    for k :: "'a :: linorder" and v l by (induction l) auto
  then show ?thesis by (induction kvs) auto
qed

lemma write_object_members:
  "write_value (VObject kvs) =
     CHR ''{'' # join '','' (map (\<lambda>(k, v). write_string k @ CHR '':'' # write_value v) (sort_key fst kvs)) @ [CHR ''}'']"
  by (simp add: members_text_def sort_members) (simp add: member_text_def case_prod_unfold comp_def)

text \<open>The first character of a text tells the constructor of its value.\<close>

fun jv_kind :: "jvalue \<Rightarrow> nat" where
  "jv_kind VNull = 0"
| "jv_kind (VBool b) = (if b then 1 else 2)"
| "jv_kind (VNumber n) = 3"
| "jv_kind (VString s) = 4"
| "jv_kind (VArray vs) = 5"
| "jv_kind (VObject kvs) = 6"

definition char_kind :: "char \<Rightarrow> nat" where
  "char_kind c = (if c = CHR ''n'' then 0 else if c = CHR ''t'' then 1 else if c = CHR ''f'' then 2
     else if c = CHR 0x22 then 4 else if c = CHR ''['' then 5 else if c = CHR ''{'' then 6 else 3)"

lemma write_value_kind: "jv_ok v \<Longrightarrow> char_kind (hd (write_value v @ r)) = jv_kind v"
proof (cases v)
  case (VNumber n)
  then show "jv_ok v \<Longrightarrow> ?thesis" by (auto simp: char_kind_def elim!: number_tokenE dest: number_char_other)
qed (simp_all add: char_kind_def write_string_def members_text_def)

lemma same_kind:
  assumes "jv_ok v" "jv_ok w" "write_value v @ r = write_value w @ q"
  shows "jv_kind v = jv_kind w"
  using write_value_kind[OF assms(1), of r] write_value_kind[OF assms(2), of q] assms(3) by simp

lemma kind_cases:
  "jv_kind w = jv_kind VNull \<Longrightarrow> w = VNull"
  "jv_kind w = jv_kind (VBool b) \<Longrightarrow> w = VBool b"
  "jv_kind w = jv_kind (VNumber n) \<Longrightarrow> \<exists>m. w = VNumber m"
  "jv_kind w = jv_kind (VString s) \<Longrightarrow> \<exists>t. w = VString t"
  "jv_kind w = jv_kind (VArray vs) \<Longrightarrow> \<exists>ws. w = VArray ws"
  "jv_kind w = jv_kind (VObject kvs) \<Longrightarrow> \<exists>lws. w = VObject lws"
  by (cases w; simp split: if_splits)+

lemma write_value_cancel:
  "jv_ok v \<Longrightarrow> jv_ok w \<Longrightarrow> delimited r \<Longrightarrow> delimited q \<Longrightarrow> write_value v @ r = write_value w @ q \<Longrightarrow>
     jv_norm v = jv_norm w \<and> r = q"
proof (induction v arbitrary: w r q)
  case VNull
  from kind_cases(1)[OF same_kind[OF VNull(1,2,5), symmetric]] VNull(5) show ?case by simp
next
  case (VBool b)
  from kind_cases(2)[OF same_kind[OF VBool(1,2,5), symmetric]] VBool(5) show ?case by simp
next
  case (VNumber n)
  from kind_cases(3)[OF same_kind[OF VNumber(1,2,5), symmetric]] obtain m where w: "w = VNumber m" by blast
  have nm: "number_token n" "number_token m" and eq: "n @ r = m @ q" using VNumber(1,2,5) by (simp_all add: w)
  from number_delimited[OF nm(1) VNumber(3)] number_delimited[OF nm(2) VNumber(4)] show ?case
    unfolding w eq by (metis)
next
  case (VString s)
  from kind_cases(4)[OF same_kind[OF VString(1,2,5), symmetric]] obtain t where w: "w = VString t" by blast
  show ?case using VString write_string_cancel[of s t r q] by (simp add: w)
next
  case (VArray vs)
  from kind_cases(5)[OF same_kind[OF VArray.prems(1,2,5), symmetric]] obtain ws where w: "w = VArray ws" by blast
  have ok: "\<forall>x \<in> set vs \<union> set ws. jv_ok x" using VArray.prems(1,2) by (auto simp: w list_all_iff)
  have "map jv_norm vs = map jv_norm ws \<and> r = q"
  proof (rule join_cancel)
    show "jv_norm x = jv_norm y \<and> r = q" if "x \<in> set vs" "y \<in> set ws" "delimited r" "delimited q"
      "write_value x @ r = write_value y @ q" for x y r q
    proof -
      have "jv_ok x" "jv_ok y" using that(1,2) ok by simp_all
      from VArray.IH[OF that(1) this that(3,4,5)] show ?thesis .
    qed
    show "join '','' (map write_value vs) @ CHR '']'' # r = join '','' (map write_value ws) @ CHR '']'' # q"
      using VArray.prems(5) by (simp add: w)
    show "write_value x \<noteq> [] \<and> hd (write_value x) \<noteq> CHR '']''" if "x \<in> set vs \<union> set ws" for x
      using write_value_head ok that by blast
  qed simp
  then show ?case by (simp add: w)
next
  case (VObject kvs)
  from kind_cases(6)[OF same_kind[OF VObject.prems(1,2,5), symmetric]] obtain lws where w: "w = VObject lws" by blast
  let ?t = "\<lambda>(k, v). write_string k @ CHR '':'' # write_value v" and ?f = "\<lambda>(k, v). (k, jv_norm v)"
  have ok: "\<forall>x \<in> set kvs \<union> set lws. utf8 (fst x) \<and> jv_ok (snd x)"
    using VObject.prems(1,2) by (auto simp: w list_all_iff)
  have "map ?f (sort_key fst kvs) = map ?f (sort_key fst lws) \<and> r = q"
  proof (rule join_cancel)
    show "?f x = ?f y \<and> r = q" if "x \<in> set (sort_key fst kvs)" "y \<in> set (sort_key fst lws)" "delimited r" "delimited q"
      "?t x @ r = ?t y @ q" for x y r q
    proof -
      obtain k a l b where xy: "x = (k, a)" "y = (l, b)" by fastforce
      have "(k, a) \<in> set kvs" "(l, b) \<in> set lws" using that(1,2) by (simp_all add: xy)
      then have o: "utf8 k" "jv_ok a" "utf8 l" "jv_ok b" using ok by (metis UnI1 UnI2 fst_conv snd_conv)+
      have "write_string k @ CHR '':'' # write_value a @ r = write_string l @ CHR '':'' # write_value b @ q"
        using that(5) by (simp add: xy)
      from write_string_cancel[OF o(1,3) this] have kl: "k = l" "write_value a @ r = write_value b @ q" by simp_all
      have "(k, a) \<in> set kvs" "a \<in> Basic_BNFs.snds (k, a)" using that(1) by (simp_all add: xy)
      from VObject.IH[OF this o(2,4) that(3,4) kl(2)] kl(1) show ?thesis by (simp add: xy)
    qed
    show "join '','' (map ?t (sort_key fst kvs)) @ CHR ''}'' # r = join '','' (map ?t (sort_key fst lws)) @ CHR ''}'' # q"
      using VObject.prems(5) by (simp only: w write_object_members append_Cons append_assoc append_Nil list.inject)
    show "?t x \<noteq> [] \<and> hd (?t x) \<noteq> CHR ''}''" for x by (simp add: write_string_def split: prod.splits)
  qed simp
  then show ?case by (simp only: w jv_norm.simps sort_members)
qed

lemma write_value_norm: "jv_ok v \<Longrightarrow> write_value (jv_norm v) = write_value v"
proof (induction v)
  case (VArray vs)
  then have "map (write_value \<circ> jv_norm) vs = map write_value vs" by (auto simp: list_all_iff)
  then show ?case by (simp only: jv_norm.simps write_value.simps map_map)
next
  case (VObject kvs)
  have same: "write_value (jv_norm v) = write_value v" if "(k, v) \<in> set kvs" for k v
    using VObject.IH[OF that, of v] VObject.prems that by (auto simp: list_all_iff)
  have two: "map (\<lambda>(k, v). (k, write_value v)) (map (\<lambda>(k, v). (k, jv_norm v)) xs) =
      map (\<lambda>(k, v). (k, write_value (jv_norm v))) xs" for xs :: "(string \<times> jvalue) list" by auto
  have "sort_key fst (map (\<lambda>(k, v). (k, write_value v)) (sort_key fst (map (\<lambda>(k, v). (k, jv_norm v)) kvs))) =
      map (\<lambda>(k, v). (k, write_value (jv_norm v))) (sort_key fst kvs)"
    by (simp only: sort_members two sort_key_id_if_sorted sorted_sort_key)
  also have "\<dots> = map (\<lambda>(k, v). (k, write_value v)) (sort_key fst kvs)"
    using same by (intro map_cong) auto
  finally show ?case by (simp add: members_text_def sort_members)
qed simp_all

lemma write_value_inject:
  assumes "jv_ok v" "jv_ok w"
  shows "write_value v = write_value w \<longleftrightarrow> jv_norm v = jv_norm w"
  using write_value_cancel[OF assms, of "[]" "[]"] write_value_norm[OF assms(1)] write_value_norm[OF assms(2)]
  by (metis append_Nil2 delimited_simps(1))

text \<open>The members a signing form covers, as the value a clone with the members removed would have.\<close>

fun strip_signature :: "jvalue \<Rightarrow> jvalue" where
  "strip_signature (VObject kvs) = VObject (signing_view kvs)"
| "strip_signature v = v"

lemma pinned_is_stripped: "canonicalize_v1_pinned env = write_value (strip_signature env)"
proof (cases env)
  case (VObject kvs)
  have "filter (\<lambda>m. fst m \<notin> S) (map (\<lambda>(k, v). (k, write_value v)) kvs) =
      map (\<lambda>(k, v). (k, write_value v)) (filter (\<lambda>(k, v). k \<notin> S) kvs)" for S
    by (induction kvs) auto
  then show ?thesis
    by (simp add: VObject canonicalize_v1_pinned_def write_object_def members_text_def signing_view_def)
qed (simp_all add: canonicalize_v1_pinned_def)

lemma strip_signature_ok: "jv_ok v \<Longrightarrow> jv_ok (strip_signature v)"
  by (cases v) (auto simp: signing_view_def list_all_iff distinct_map_filter)

text \<open>C31: The bytes a stored signature covers determine the envelope. Two well-formed envelopes have the same pinned
  signing bytes exactly when they agree, up to the order of members, on everything but the two top-level
  signature members: no change of a covered value, key, number token or string goes unsigned.\<close>

theorem signing_bytes_cover:
  assumes "jv_ok a" "jv_ok b"
  shows "canonicalize_v1_pinned a = canonicalize_v1_pinned b \<longleftrightarrow>
    jv_norm (strip_signature a) = jv_norm (strip_signature b)"
  unfolding pinned_is_stripped using assms by (intro write_value_inject strip_signature_ok)

lemma hex_digit_printable: "d < 16 \<Longrightarrow> 0x20 \<le> byte (hex_digit d) \<and> byte (hex_digit d) < 0x7F"
  by (simp add: hex_digit_def)

lemma escape_u_printable: "x \<in> set (escape_u n) \<Longrightarrow> 0x20 \<le> byte x \<and> byte x < 0x7F"
proof -
  assume "x \<in> set (escape_u n)"
  then have "x = CHR 0x5C \<or> x = CHR ''u'' \<or> (\<exists>m. x = hex_digit (m mod 16))"
    unfolding escape_u_def hex4_def by simp blast
  then show ?thesis using hex_digit_printable[OF mod_less_divisor] by auto
qed

lemma write_char_printable:
  assumes "x \<in> set (write_char c)"
  shows "0x20 \<le> byte x \<and> byte x < 0x7F"
proof (cases rule: write_char_cases[of c])
  case (named e)
  then show ?thesis using assms by auto
next
  case hex
  then show ?thesis using assms escape_u_printable by simp
next
  case plain
  then show ?thesis using assms by simp
next
  case pair
  then have "x \<in> set (escape_u (0xD800 + (c - 0x10000) div 1024)) \<or> x \<in> set (escape_u (0xDC00 + (c - 0x10000) mod 1024))"
    using assms by simp
  then show ?thesis using escape_u_printable by blast
qed

lemma set_join: "set (join sep ts) \<subseteq> (\<Union>t \<in> set ts. set t) \<union> set sep"
  by (induction sep ts rule: join.induct) auto

lemma write_string_printable: "x \<in> set (write_string s) \<Longrightarrow> 0x20 \<le> byte x \<and> byte x < 0x7F"
  by (auto simp: write_string_def dest: write_char_printable)

text \<open>Canonical bytes are printable ASCII. Whatever text a well-formed value carries, every byte written is in
  the range from space to tilde, so the bytes are the same under every encoding of the wire.\<close>

theorem canonical_bytes_ascii:
  assumes "jv_ok v" "x \<in> set (write_value v)"
  shows "0x20 \<le> byte x \<and> byte x < 0x7F"
  using assms
proof (induction v)
  case (VNumber n)
  then have "number_char x" by (simp add: number_token_def list_all_iff)
  then show ?case by (auto simp: number_char_def)
next
  case (VArray vs)
  then consider "x \<in> {CHR ''['', CHR '']'', CHR '',''}" | v where "v \<in> set vs" "x \<in> set (write_value v)"
    using set_join[of "'',''" "map write_value vs"] by auto
  then show ?case
  proof cases
    case 2
    then show ?thesis using VArray.IH[OF 2(1)] VArray.prems(1) by (simp add: list_all_iff)
  qed auto
next
  case (VObject kvs)
  let ?t = "\<lambda>(k, v). write_string k @ CHR '':'' # write_value v"
  have "x \<in> set (join '','' (map ?t (sort_key fst kvs))) \<or> x = CHR ''{'' \<or> x = CHR ''}''"
    using VObject.prems(2) unfolding write_object_members by auto
  then consider "x \<in> {CHR ''{'', CHR ''}'', CHR '','', CHR '':''}" | k v where "(k, v) \<in> set kvs" "x \<in> set (write_string k)"
    | k v where "(k, v) \<in> set kvs" "x \<in> set (write_value v)"
    using set_join[of "'',''" "map ?t (sort_key fst kvs)"] by auto
  then show ?case
  proof cases
    case 2
    then show ?thesis by (intro write_string_printable)
  next
    case 3
    have "v \<in> Basic_BNFs.snds (k, v)" "jv_ok v" using VObject.prems(1) 3(1) by (auto simp: list_all_iff)
    from VObject.IH[OF 3(1) this 3(2)] show ?thesis .
  qed auto
next
  case (VString s)
  then show ?case by (simp add: write_string_printable)
qed (auto split: if_splits)

section \<open>Examples\<close>

definition ex_envelope :: "string \<Rightarrow> string \<Rightarrow> jvalue" where
  "ex_envelope n sig = VObject [(''signature'', VString sig), (''b'', VNumber n), (''a'', VString [CHR 0xC3, CHR 0xA9])]"

lemma ex_envelope_ok: "number_token n \<Longrightarrow> utf8 sig \<Longrightarrow> jv_ok (ex_envelope n sig)"
proof -
  have "utf8 ''signature''" "utf8 ''b''" "utf8 ''a''" "utf8 [CHR 0xC3, CHR 0xA9]" by code_simp+
  then show "number_token n \<Longrightarrow> utf8 sig \<Longrightarrow> jv_ok (ex_envelope n sig)" by (simp add: ex_envelope_def)
qed

theorem signing_bytes_cover_witness:
  "canonicalize_v1_pinned (ex_envelope ''1'' ''x'') = canonicalize_v1_pinned (ex_envelope ''1'' ''y'') \<and>
   canonicalize_v1_pinned (ex_envelope ''1'' ''x'') \<noteq> canonicalize_v1_pinned (ex_envelope ''1.0'' ''x'')"
proof -
  have t: "number_token ''1''" "number_token ''1.0''" "utf8 ''x''" "utf8 ''y''" by code_simp+
  have "jv_norm (strip_signature (ex_envelope ''1'' ''x'')) = jv_norm (strip_signature (ex_envelope ''1'' ''y''))"
    "jv_norm (strip_signature (ex_envelope ''1'' ''x'')) \<noteq> jv_norm (strip_signature (ex_envelope ''1.0'' ''x''))"
    by code_simp+
  moreover have "jv_ok (ex_envelope ''1'' ''x'')" "jv_ok (ex_envelope ''1'' ''y'')" "jv_ok (ex_envelope ''1.0'' ''x'')"
    using t by (simp_all only: ex_envelope_ok)
  ultimately show ?thesis by (simp only: signing_bytes_cover simp_thms)
qed

theorem canonical_bytes_ascii_witness: "0x20 \<le> byte (CHR ''.'') \<and> byte (CHR ''.'') < 0x7F"
proof (rule canonical_bytes_ascii)
  show "jv_ok (VArray [VNumber ''1.0'', VBool True])" by code_simp
  show "CHR ''.'' \<in> set (write_value (VArray [VNumber ''1.0'', VBool True]))" by code_simp
qed

end
