(* ===== verification/Hybrid_Verify.thy ===== *)
theory Hybrid_Verify
  imports Persist_Prelude
begin

text \<open>
  Hybrid signature verification (\<open>src/src/verify/hybrid.rs\<close>): the pairing of the two halves, the decoding and the
  length checks, and the policy for rows whose ML-DSA-65 half is still missing. Base64 and the two signature
  schemes are external crates: they are the fields of \<open>crypto\<close>.
\<close>

section \<open>Policies, outcomes and errors\<close>

type_synonym age_nanos = nat

datatype hybrid_policy = Strict | SoftFreshness age_nanos | Ed25519Fallback

datatype verify_outcome =
    HybridVerified
  | Ed25519VerifiedHybridPending "age_nanos option"
  | Ed25519VerifiedFallback

text \<open>The source error of a failed decoding is not kept.\<close>

datatype verify_error =
    HybridPendingRejected
  | SoftFreshnessExpired "age_nanos option" age_nanos
  | PqcFieldsMustBeBoth
  | Base64Error string
  | InvalidLength string nat nat
  | CryptoError string

fun verify_error_kind :: "verify_error \<Rightarrow> string" where
  "verify_error_kind HybridPendingRejected = ''verify_hybrid_pending_rejected''"
| "verify_error_kind (SoftFreshnessExpired _ _) = ''verify_hybrid_soft_freshness_expired''"
| "verify_error_kind PqcFieldsMustBeBoth = ''verify_hybrid_pqc_fields_mismatch''"
| "verify_error_kind (Base64Error _) = ''verify_hybrid_base64''"
| "verify_error_kind (InvalidLength _ _ _) = ''verify_hybrid_invalid_length''"
| "verify_error_kind (CryptoError _) = ''verify_hybrid_crypto''"

text \<open>\<open>cr_b64_decode\<close> is the standard Base64 engine; \<open>cr_ed25519_strict\<close> takes the public key, the message and the
  signature; \<open>cr_hybrid\<close> takes the message, the Ed25519 signature and key, and the ML-DSA-65 signature and key.\<close>

record crypto =
  cr_b64_decode :: "string \<Rightarrow> string option"
  cr_ed25519_strict :: "string \<Rightarrow> string \<Rightarrow> string \<Rightarrow> string + bool"
  cr_hybrid :: "string \<Rightarrow> string \<Rightarrow> string \<Rightarrow> string \<Rightarrow> string \<Rightarrow> string + unit"

section \<open>Verification\<close>

definition ED25519_SIG_LEN :: nat where "ED25519_SIG_LEN = 64"
definition ED25519_PUBKEY_LEN :: nat where "ED25519_PUBKEY_LEN = 32"
definition ML_DSA_65_SIG_LEN :: nat where "ML_DSA_65_SIG_LEN = 3309"
definition ML_DSA_65_PUBKEY_LEN :: nat where "ML_DSA_65_PUBKEY_LEN = 1952"

definition decode_b64_fixed :: "crypto \<Rightarrow> string \<Rightarrow> string \<Rightarrow> nat \<Rightarrow> verify_error + string" where
  "decode_b64_fixed C b64 field expected =
     (case cr_b64_decode C b64 of
        None \<Rightarrow> Inl (Base64Error field)
      | Some bytes \<Rightarrow>
          if length bytes \<noteq> expected then Inl (InvalidLength field (length bytes) expected) else Inr bytes)"

definition apply_policy :: "hybrid_policy \<Rightarrow> age_nanos option \<Rightarrow> verify_error + verify_outcome" where
  "apply_policy policy row_age =
     (case policy of
        Strict \<Rightarrow> Inl HybridPendingRejected
      | Ed25519Fallback \<Rightarrow> Inr Ed25519VerifiedFallback
      | SoftFreshness window \<Rightarrow>
          (case row_age of
             Some age \<Rightarrow> if age < window then Inr (Ed25519VerifiedHybridPending (Some age))
                         else Inl (SoftFreshnessExpired row_age window)
           | None \<Rightarrow> Inl (SoftFreshnessExpired row_age window)))"

definition verify_ed25519_only_with_policy ::
  "crypto \<Rightarrow> string \<Rightarrow> string \<Rightarrow> string \<Rightarrow> hybrid_policy \<Rightarrow> age_nanos option \<Rightarrow> verify_error + verify_outcome" where
  "verify_ed25519_only_with_policy C msg sig pubkey policy row_age =
     (case cr_ed25519_strict C pubkey msg sig of
        Inl e \<Rightarrow> Inl (CryptoError (''ed25519: '' @ e))
      | Inr ok \<Rightarrow>
          if \<not> ok then Inl (CryptoError ''ed25519 signature mismatch'') else apply_policy policy row_age)"

definition verify_hybrid ::
  "crypto \<Rightarrow> string \<Rightarrow> string \<Rightarrow> string option \<Rightarrow> string \<Rightarrow> string option \<Rightarrow> hybrid_policy \<Rightarrow> age_nanos option \<Rightarrow>
     verify_error + verify_outcome" where
  "verify_hybrid C msg ed_sig_b64 pqc_sig_b64 ed_pk_b64 pqc_pk_b64 policy row_age =
     and_then
       (case (pqc_sig_b64, pqc_pk_b64) of
          (Some s, Some pk) \<Rightarrow> Inr (Some (s, pk))
        | (None, None) \<Rightarrow> Inr None
        | _ \<Rightarrow> Inl PqcFieldsMustBeBoth)
       (\<lambda>pqc_pair.
     and_then (decode_b64_fixed C ed_sig_b64 ''ed25519_sig'' ED25519_SIG_LEN) (\<lambda>ed_sig.
     and_then (decode_b64_fixed C ed_pk_b64 ''ed25519_pubkey'' ED25519_PUBKEY_LEN) (\<lambda>ed_pk.
       (case pqc_pair of
          Some (s, pk) \<Rightarrow>
            and_then (decode_b64_fixed C s ''ml_dsa_65_sig'' ML_DSA_65_SIG_LEN) (\<lambda>pqc_sig.
            and_then (decode_b64_fixed C pk ''ml_dsa_65_pubkey'' ML_DSA_65_PUBKEY_LEN) (\<lambda>pqc_pk.
              (case cr_hybrid C msg ed_sig ed_pk pqc_sig pqc_pk of
                 Inl e \<Rightarrow> Inl (CryptoError e)
               | Inr _ \<Rightarrow> Inr HybridVerified)))
        | None \<Rightarrow> verify_ed25519_only_with_policy C msg ed_sig ed_pk policy row_age))))"

text \<open>\<open>lookup\<close> is the directory's \<open>lookup_public_key\<close>, with the two key columns of the row.\<close>

definition verify_hybrid_via_directory ::
  "crypto \<Rightarrow> (string \<Rightarrow> string + (string \<times> string option) option) \<Rightarrow> string \<Rightarrow> string \<Rightarrow> string \<Rightarrow> string option \<Rightarrow>
     hybrid_policy \<Rightarrow> age_nanos option \<Rightarrow> verify_error + verify_outcome" where
  "verify_hybrid_via_directory C lookup msg key_id ed_sig_b64 pqc_sig_b64 policy row_age =
     (case lookup key_id of
        Inl e \<Rightarrow> Inl (CryptoError (''federation directory lookup: '' @ e))
      | Inr None \<Rightarrow> Inl (CryptoError ''verify_unknown_key'')
      | Inr (Some (ed_pk, pqc_pk)) \<Rightarrow> verify_hybrid C msg ed_sig_b64 pqc_sig_b64 ed_pk pqc_pk policy row_age)"

section \<open>What an acceptance rests on\<close>

definition decodes :: "crypto \<Rightarrow> nat \<Rightarrow> string \<Rightarrow> string \<Rightarrow> bool" where
  "decodes C n b64 bytes \<longleftrightarrow> cr_b64_decode C b64 = Some bytes \<and> length bytes = n"

lemma decode_b64_fixed_Inr: "decode_b64_fixed C b field n = Inr x \<longleftrightarrow> decodes C n b x"
  by (auto simp: decode_b64_fixed_def decodes_def split: option.splits)

lemma apply_policy_Inr:
  "apply_policy p age = Inr out \<longleftrightarrow>
     (p = Ed25519Fallback \<and> out = Ed25519VerifiedFallback) \<or>
     (\<exists>w a. p = SoftFreshness w \<and> age = Some a \<and> a < w \<and> out = Ed25519VerifiedHybridPending (Some a))"
  by (auto simp: apply_policy_def split: hybrid_policy.splits option.splits)

lemma crypto_result_Inr:
  "(case r of Inl e \<Rightarrow> Inl (g e) | Inr (_ :: unit) \<Rightarrow> Inr y) = Inr x \<longleftrightarrow> r = Inr () \<and> x = y"
  by (cases r) auto

lemma ed25519_only_Inr:
  "verify_ed25519_only_with_policy C msg sig pk policy age = Inr out \<longleftrightarrow>
     cr_ed25519_strict C pk msg sig = Inr True \<and> apply_policy policy age = Inr out"
  by (cases "cr_ed25519_strict C pk msg sig") (auto simp: verify_ed25519_only_with_policy_def)

lemmas accepted_simps = and_then_Inr decode_b64_fixed_Inr crypto_result_Inr ed25519_only_Inr

lemma verify_hybrid_pair:
  "verify_hybrid C msg es (Some s) ep (Some p) policy age = Inr out \<longleftrightarrow>
     out = HybridVerified \<and> (\<exists>a b c d. decodes C ED25519_SIG_LEN es a \<and> decodes C ED25519_PUBKEY_LEN ep b \<and>
       decodes C ML_DSA_65_SIG_LEN s c \<and> decodes C ML_DSA_65_PUBKEY_LEN p d \<and> cr_hybrid C msg a b c d = Inr ())"
  unfolding verify_hybrid_def by (simp add: accepted_simps) blast

lemma verify_hybrid_single:
  "verify_hybrid C msg es None ep None policy age = Inr out \<longleftrightarrow>
     (\<exists>a b. decodes C ED25519_SIG_LEN es a \<and> decodes C ED25519_PUBKEY_LEN ep b \<and>
        cr_ed25519_strict C b msg a = Inr True) \<and> apply_policy policy age = Inr out"
  unfolding verify_hybrid_def by (simp add: accepted_simps) blast

lemma verify_hybrid_mixed:
  "verify_hybrid C msg es (Some s) ep None policy age = Inl PqcFieldsMustBeBoth"
  "verify_hybrid C msg es None ep (Some p) policy age = Inl PqcFieldsMustBeBoth"
  by (simp_all add: verify_hybrid_def)

text \<open>An acceptance names what was checked. Verification accepts with both halves exactly when both are given,
  decode to the lengths of the two schemes and the hybrid verifier accepts them, whatever the policy; and it
  accepts one half exactly when neither ML-DSA-65 field is given, the strict Ed25519 check passed, and the policy
  is the fallback or the row is younger than the freshness window. Under the strict policy a row with one half is
  never accepted.\<close>

theorem verify_hybrid_accepts_iff:
  "verify_hybrid C msg es ps ep pp policy age = Inr out \<longleftrightarrow>
     (case out of
        HybridVerified \<Rightarrow>
          \<exists>s p a b c d. ps = Some s \<and> pp = Some p \<and>
            decodes C ED25519_SIG_LEN es a \<and> decodes C ED25519_PUBKEY_LEN ep b \<and>
            decodes C ML_DSA_65_SIG_LEN s c \<and> decodes C ML_DSA_65_PUBKEY_LEN p d \<and> cr_hybrid C msg a b c d = Inr ()
      | _ \<Rightarrow>
          ps = None \<and> pp = None \<and>
          (\<exists>a b. decodes C ED25519_SIG_LEN es a \<and> decodes C ED25519_PUBKEY_LEN ep b \<and>
             cr_ed25519_strict C b msg a = Inr True) \<and>
          (case policy of
             Strict \<Rightarrow> False
           | Ed25519Fallback \<Rightarrow> out = Ed25519VerifiedFallback
           | SoftFreshness w \<Rightarrow> \<exists>t. age = Some t \<and> t < w \<and> out = Ed25519VerifiedHybridPending (Some t)))"
proof (cases ps)
  case None
  show ?thesis
  proof (cases pp)
    case pp: None
    show ?thesis
      by (cases out; cases policy) (auto simp: None pp verify_hybrid_single apply_policy_Inr)
  qed (simp add: None verify_hybrid_mixed split: verify_outcome.split)
next
  case ps: (Some s)
  show ?thesis
  proof (cases pp)
    case (Some p)
    show ?thesis by (cases out) (simp_all add: ps Some verify_hybrid_pair)
  qed (simp add: ps verify_hybrid_mixed split: verify_outcome.split)
qed

end
