(* ===== verification/Audit_Chain.thy ===== *)
theory Audit_Chain
  imports Canonical_Json Hybrid_Verify
begin

text \<open>
  The hash-chained audit log (\<open>src/src/audit/\<close>): the entry and its hash and signature (\<open>types.rs\<close>, \<open>verify.rs\<close>),
  and the table operations of the SQLite backend (\<open>sqlite.rs\<close>): the transactions of \<open>record_entry\<close> and
  \<open>try_claim_event\<close>, \<open>verify_chain\<close>, \<open>next_chain_position\<close> and \<open>list_entries\<close>. A table is the list of its rows in
  insertion order; a transaction runs under the connection's mutex, so it is one function of the table. \<open>None\<close> is a
  panic (an overflowing addition).

  The lemmas show that the log only grows by entries that extend a tenant's chain, that such chains verify, and what
  a clean verification does and does not establish.
\<close>

section \<open>Errors and vocabulary\<close>

text \<open>The messages of the errors are not kept.\<close>

datatype audit_error =
    AuditInvalidArgument
  | AuditChainIntegrity
  | AuditSignature
  | AuditConflict
  | AuditNotFound
  | AuditBackend
  | AuditPoolExhausted
  | AuditNotImplemented
  | AuditInternal
  | AuditMerkle
  | AuditTrustGrant

fun audit_error_kind :: "audit_error \<Rightarrow> string" where
  "audit_error_kind AuditInvalidArgument = ''audit_invalid_argument''"
| "audit_error_kind AuditChainIntegrity = ''audit_chain_integrity''"
| "audit_error_kind AuditSignature = ''audit_signature''"
| "audit_error_kind AuditConflict = ''audit_conflict''"
| "audit_error_kind AuditNotFound = ''audit_not_found''"
| "audit_error_kind AuditBackend = ''audit_backend''"
| "audit_error_kind AuditPoolExhausted = ''audit_pool_exhausted''"
| "audit_error_kind AuditNotImplemented = ''audit_not_implemented''"
| "audit_error_kind AuditInternal = ''audit_internal''"
| "audit_error_kind AuditMerkle = ''audit_merkle''"
| "audit_error_kind AuditTrustGrant = ''audit_trust_grant''"

definition GENESIS_PREV_HASH :: string where
  "GENESIS_PREV_HASH = replicate 32 (CHR 0x00)"

section \<open>Entries\<close>

record audit_entry =
  ae_entry_id :: string
  ae_sequence_number :: int
  ae_tenant_id :: string
  ae_actor_id :: string
  ae_action_type :: string
  ae_subject_kind :: string
  ae_subject_id :: string
  ae_payload :: jvalue
  ae_prev_hash :: string
  ae_entry_hash :: string
  ae_recorded_at :: instant
  ae_signature :: string

text \<open>The libraries the audit code calls: SHA-256, the Base64 encoder, the serialized form of a timestamp, JSON text
  in both directions, the RFC 3339 form with microseconds and its parser, and the signature schemes.\<close>

record audit_env =
  env_sha256 :: "string \<Rightarrow> string"
  env_b64 :: "string \<Rightarrow> string"
  env_datetime :: "instant \<Rightarrow> string"
  env_json_text :: "jvalue \<Rightarrow> string"
  env_json_parse :: "string \<Rightarrow> jvalue option"
  env_rfc3339_micros :: "instant \<Rightarrow> string"
  env_parse_rfc3339 :: "string \<Rightarrow> instant option"
  env_crypto :: crypto

definition show_int :: "int \<Rightarrow> string" where
  "show_int i = (if i < 0 then CHR ''-'' # show_nat (nat (- i)) else show_nat (nat i))"

definition entry_value :: "audit_env \<Rightarrow> audit_entry \<Rightarrow> jvalue" where
  "entry_value E e = VObject
     [(''entry_id'', VString (ae_entry_id e)),
      (''sequence_number'', VNumber (show_int (ae_sequence_number e))),
      (''tenant_id'', VString (ae_tenant_id e)),
      (''actor_id'', VString (ae_actor_id e)),
      (''action_type'', VString (ae_action_type e)),
      (''subject_kind'', VString (ae_subject_kind e)),
      (''subject_id'', VString (ae_subject_id e)),
      (''payload'', ae_payload e),
      (''prev_hash'', VString (env_b64 E (ae_prev_hash e))),
      (''entry_hash'', VString (env_b64 E (ae_entry_hash e))),
      (''recorded_at'', VString (env_datetime E (ae_recorded_at e))),
      (''signature'', VString (ae_signature e))]"

definition canonical_bytes_for_entry :: "audit_env \<Rightarrow> audit_entry \<Rightarrow> string" where
  "canonical_bytes_for_entry E e = canonicalize_v1_pinned (entry_value E e)"

definition compute_entry_hash :: "audit_env \<Rightarrow> audit_entry \<Rightarrow> string" where
  "compute_entry_hash E e =
     env_sha256 E (canonical_bytes_for_entry E (e\<lparr>ae_entry_hash := [], ae_signature := []\<rparr>))"

definition truncate_to_micros :: "instant \<Rightarrow> instant" where
  "truncate_to_micros t = t - t mod 1000"

definition verify_entry_signature :: "audit_env \<Rightarrow> audit_entry \<Rightarrow> audit_error + unit" where
  "verify_entry_signature E e =
     (if ae_signature e = [] then Inl AuditSignature
      else if ae_actor_id e = [] then Inl AuditInvalidArgument
      else case verify_hybrid (env_crypto E) (canonical_bytes_for_entry E e) (ae_signature e) None (ae_actor_id e) None
                  Ed25519Fallback None of
             Inl _ \<Rightarrow> Inl AuditSignature
           | Inr _ \<Rightarrow> Inr ())"

section \<open>Rows\<close>

text \<open>The columns the queries read, and the unique content hash of claimed events.\<close>

record audit_row =
  ar_entry_id :: string
  ar_sequence_number :: int
  ar_tenant_id :: string
  ar_actor_id :: string
  ar_action_type :: string
  ar_subject_kind :: string
  ar_subject_id :: string
  ar_payload :: string
  ar_prev_hash :: string
  ar_entry_hash :: string
  ar_recorded_at :: string
  ar_signature :: string
  ar_content_hash :: "string option"

fun replace_first_space :: "string \<Rightarrow> string" where
  "replace_first_space [] = []"
| "replace_first_space (c # cs) = (if c = CHR '' '' then CHR ''T'' # cs else c # replace_first_space cs)"

definition parse_datetime :: "audit_env \<Rightarrow> string \<Rightarrow> audit_error + instant" where
  "parse_datetime E s =
     (let normalized = (if CHR ''T'' \<in> set s then s else replace_first_space s @ ''+00:00'') in
      case env_parse_rfc3339 E normalized of None \<Rightarrow> Inl AuditBackend | Some t \<Rightarrow> Inr t)"

definition fmt_datetime :: "audit_env \<Rightarrow> instant \<Rightarrow> string" where
  "fmt_datetime E t = env_rfc3339_micros E t"

definition decode_entry_row :: "audit_env \<Rightarrow> audit_row \<Rightarrow> audit_error + audit_entry" where
  "decode_entry_row E r =
     (case env_json_parse E (ar_payload r) of
        None \<Rightarrow> Inl AuditBackend
      | Some payload \<Rightarrow>
          and_then (parse_datetime E (ar_recorded_at r)) (\<lambda>recorded_at.
            Inr \<lparr>ae_entry_id = ar_entry_id r, ae_sequence_number = ar_sequence_number r,
                 ae_tenant_id = ar_tenant_id r, ae_actor_id = ar_actor_id r,
                 ae_action_type = ar_action_type r, ae_subject_kind = ar_subject_kind r,
                 ae_subject_id = ar_subject_id r, ae_payload = payload,
                 ae_prev_hash = ar_prev_hash r, ae_entry_hash = ar_entry_hash r,
                 ae_recorded_at = recorded_at, ae_signature = ar_signature r\<rparr>))"

definition entry_row :: "audit_env \<Rightarrow> string option \<Rightarrow> audit_entry \<Rightarrow> audit_row" where
  "entry_row E content_hash e =
     \<lparr>ar_entry_id = ae_entry_id e, ar_sequence_number = ae_sequence_number e,
      ar_tenant_id = ae_tenant_id e, ar_actor_id = ae_actor_id e,
      ar_action_type = ae_action_type e, ar_subject_kind = ae_subject_kind e,
      ar_subject_id = ae_subject_id e, ar_payload = env_json_text E (ae_payload e),
      ar_prev_hash = ae_prev_hash e, ar_entry_hash = ae_entry_hash e,
      ar_recorded_at = fmt_datetime E (ae_recorded_at e), ar_signature = ae_signature e,
      ar_content_hash = content_hash\<rparr>"

text \<open>The constraints of \<open>cirislens_audit_log\<close>: the primary key, the unique position in the tenant's chain, the
  unique content hash (where there is one) and the check on the sequence number.\<close>

definition violates :: "audit_row list \<Rightarrow> audit_row \<Rightarrow> bool" where
  "violates rows r \<longleftrightarrow>
     list_ex (\<lambda>q. ar_entry_id q = ar_entry_id r) rows \<or>
     list_ex (\<lambda>q. ar_tenant_id q = ar_tenant_id r \<and> ar_sequence_number q = ar_sequence_number r) rows \<or>
     (ar_content_hash r \<noteq> None \<and> list_ex (\<lambda>q. ar_content_hash q = ar_content_hash r) rows) \<or>
     ar_sequence_number r < 1"

definition insert_row :: "audit_row list \<Rightarrow> audit_row \<Rightarrow> audit_error + audit_row list" where
  "insert_row rows r = (if violates rows r then Inl AuditConflict else Inr (rows @ [r]))"

definition insert_or_ignore :: "audit_row list \<Rightarrow> audit_row \<Rightarrow> audit_row list" where
  "insert_or_ignore rows r = (if violates rows r then rows else rows @ [r])"

definition tenant_rows :: "audit_row list \<Rightarrow> string \<Rightarrow> audit_row list" where
  "tenant_rows rows tenant = filter (\<lambda>r. ar_tenant_id r = tenant) rows"

definition chain_tail :: "audit_row list \<Rightarrow> string \<Rightarrow> (int \<times> string) option" where
  "chain_tail rows tenant =
     (case sort_key (\<lambda>r. - ar_sequence_number r) (tenant_rows rows tenant) of
        [] \<Rightarrow> None
      | r # _ \<Rightarrow> Some (ar_sequence_number r, ar_entry_hash r))"

text \<open>\<open>n + 1\<close> on \<open>i64\<close>, which panics at the largest value.\<close>

definition next_seq :: "int \<Rightarrow> int option" where
  "next_seq n = (if n < i64_max then Some (n + 1) else None)"

section \<open>Writing\<close>

text \<open>The gates in front of both transactions.\<close>

definition entry_gates :: "audit_env \<Rightarrow> audit_entry \<Rightarrow> audit_error + unit" where
  "entry_gates E e =
     (if ae_sequence_number e < 1 then Inl AuditInvalidArgument
      else if ae_tenant_id e = [] then Inl AuditInvalidArgument
      else if length (ae_prev_hash e) \<noteq> 32 then Inl AuditInvalidArgument
      else if length (ae_entry_hash e) \<noteq> 32 then Inl AuditInvalidArgument
      else if compute_entry_hash E e \<noteq> ae_entry_hash e then Inl AuditChainIntegrity
      else verify_entry_signature E e)"

text \<open>A non-zero \<open>prev_hash\<close> on the first entry (a bridge entry) is only traced.\<close>

definition chain_gates :: "audit_row list \<Rightarrow> audit_entry \<Rightarrow> (audit_error + unit) option" where
  "chain_gates rows e =
     (case chain_tail rows (ae_tenant_id e) of
        Some (prev_seq, prev_hash) \<Rightarrow>
          (case next_seq prev_seq of
             None \<Rightarrow> None
           | Some n \<Rightarrow>
               Some (if ae_sequence_number e \<noteq> n then Inl AuditChainIntegrity
                     else if ae_prev_hash e \<noteq> prev_hash then Inl AuditChainIntegrity
                     else Inr ()))
      | None \<Rightarrow> Some (if ae_sequence_number e \<noteq> 1 then Inl AuditChainIntegrity else Inr ()))"

text \<open>\<open>record_entry\<close> up to its commit.\<close>

definition record_commit :: "audit_env \<Rightarrow> audit_row list \<Rightarrow> audit_entry \<Rightarrow> (audit_error + audit_row list) option" where
  "record_commit E rows e =
     run_then (Some (entry_gates E e)) (\<lambda>_.
     run_then (chain_gates rows e) (\<lambda>_.
     Some (insert_row rows (entry_row E None e))))"

record audit_event_ref =
  er_entry_id :: string
  er_tenant_id :: string
  er_sequence_number :: int

datatype claim_result = Stored audit_event_ref | AlreadyClaimed audit_event_ref

definition row_ref :: "audit_row \<Rightarrow> audit_event_ref" where
  "row_ref r = \<lparr>er_entry_id = ar_entry_id r, er_tenant_id = ar_tenant_id r, er_sequence_number = ar_sequence_number r\<rparr>"

definition find_claim :: "audit_row list \<Rightarrow> string \<Rightarrow> audit_event_ref option" where
  "find_claim rows h = map_option row_ref (find (\<lambda>r. ar_content_hash r = Some h) rows)"

text \<open>\<open>try_claim_event\<close> up to its commit; an error rolls the transaction back.\<close>

definition claim_commit ::
  "audit_env \<Rightarrow> audit_row list \<Rightarrow> string \<Rightarrow> audit_entry \<Rightarrow> (audit_error + claim_result \<times> audit_row list) option" where
  "claim_commit E rows h e =
     run_then (Some (entry_gates E e)) (\<lambda>_.
       case find_claim rows h of
         Some ref \<Rightarrow> Some (Inr (AlreadyClaimed ref, rows))
       | None \<Rightarrow>
           run_then (chain_gates rows e) (\<lambda>_.
             let rows' = insert_or_ignore rows (entry_row E (Some h) e) in
             case find_claim rows' h of
               None \<Rightarrow> Some (Inl AuditConflict)
             | Some ref \<Rightarrow>
                 Some (Inr (if er_entry_id ref = ae_entry_id e then Stored ref else AlreadyClaimed ref, rows'))))"

section \<open>Reading the chain\<close>

record chain_position =
  cp_next_sequence_number :: int
  cp_prev_hash :: string

definition next_chain_position :: "audit_row list \<Rightarrow> string \<Rightarrow> (audit_error + chain_position) option" where
  "next_chain_position rows tenant =
     (if tenant = [] then Some (Inl AuditInvalidArgument)
      else case chain_tail rows tenant of
        Some (prev_seq, prev_hash) \<Rightarrow>
          if length prev_hash \<noteq> 32 then Some (Inl AuditBackend)
          else map_option (\<lambda>n. Inr \<lparr>cp_next_sequence_number = n, cp_prev_hash = prev_hash\<rparr>) (next_seq prev_seq)
      | None \<Rightarrow> Some (Inr \<lparr>cp_next_sequence_number = 1, cp_prev_hash = GENESIS_PREV_HASH\<rparr>))"

datatype chain_break_reason =
    EntryHashMismatch
  | PrevHashMismatch
  | SequenceGap
  | SignatureFailure
  | GenesisPrevHashNotZero

datatype chain_verify_outcome = ChainOk | ChainBreak int chain_break_reason

record chain_verification =
  cv_tenant_id :: string
  cv_from_sequence :: int
  cv_to_sequence :: int
  cv_entries_walked :: nat
  cv_outcome :: chain_verify_outcome

text \<open>The link of an entry to the one walked before it: the outer option is the panic of \<open>prev_n + 1\<close>, the inner
  one the break.\<close>

definition link_break :: "(int \<times> string) option \<Rightarrow> audit_entry \<Rightarrow> chain_verify_outcome option option" where
  "link_break prior e =
     (case prior of
        None \<Rightarrow>
          Some (if ae_sequence_number e = 1 \<and> ae_prev_hash e \<noteq> GENESIS_PREV_HASH
                then Some (ChainBreak 1 GenesisPrevHashNotZero) else None)
      | Some (prev_n, prior_hash) \<Rightarrow>
          (case next_seq prev_n of
             None \<Rightarrow> None
           | Some n \<Rightarrow>
               Some (if ae_sequence_number e \<noteq> n then Some (ChainBreak (ae_sequence_number e) SequenceGap)
                     else if ae_prev_hash e \<noteq> prior_hash
                     then Some (ChainBreak (ae_sequence_number e) PrevHashMismatch) else None)))"

definition content_break :: "audit_env \<Rightarrow> audit_entry \<Rightarrow> chain_verify_outcome option" where
  "content_break E e =
     (if compute_entry_hash E e \<noteq> ae_entry_hash e then Some (ChainBreak (ae_sequence_number e) EntryHashMismatch)
      else case verify_entry_signature E e of
             Inl _ \<Rightarrow> Some (ChainBreak (ae_sequence_number e) SignatureFailure)
           | Inr _ \<Rightarrow> None)"

fun walk_rows ::
  "audit_env \<Rightarrow> (int \<times> string) option \<Rightarrow> nat \<Rightarrow> audit_row list \<Rightarrow> (audit_error + nat \<times> chain_verify_outcome) option" where
  "walk_rows E prior walked [] = Some (Inr (walked, ChainOk))"
| "walk_rows E prior walked (r # rs) =
     (case decode_entry_row E r of
        Inl err \<Rightarrow> Some (Inl err)
      | Inr e \<Rightarrow>
          (case link_break prior e of
             None \<Rightarrow> None
           | Some (Some b) \<Rightarrow> Some (Inr (walked + 1, b))
           | Some None \<Rightarrow>
               (case content_break E e of
                  Some b \<Rightarrow> Some (Inr (walked + 1, b))
                | None \<Rightarrow> walk_rows E (Some (ae_sequence_number e, ae_entry_hash e)) (walked + 1) rs)))"

definition max_seq :: "audit_row list \<Rightarrow> string \<Rightarrow> int" where
  "max_seq rows tenant =
     (case map ar_sequence_number (tenant_rows rows tenant) of [] \<Rightarrow> 0 | n # ns \<Rightarrow> fold max ns n)"

definition range_rows :: "audit_row list \<Rightarrow> string \<Rightarrow> int \<Rightarrow> int \<Rightarrow> audit_row list" where
  "range_rows rows tenant from to =
     sort_key ar_sequence_number
       (filter (\<lambda>r. from \<le> ar_sequence_number r \<and> ar_sequence_number r \<le> to) (tenant_rows rows tenant))"

definition verify_chain ::
  "audit_env \<Rightarrow> audit_row list \<Rightarrow> string \<Rightarrow> int \<Rightarrow> int option \<Rightarrow> (audit_error + chain_verification) option" where
  "verify_chain E rows tenant from to_sequence =
     (if tenant = [] then Some (Inl AuditInvalidArgument)
      else if from < 1 then Some (Inl AuditInvalidArgument)
      else run_then
        (case to_sequence of
           Some n \<Rightarrow> if n < from then Some (Inl AuditInvalidArgument) else Some (Inr n)
         | None \<Rightarrow> Some (Inr (max_seq rows tenant)))
        (\<lambda>to.
          let report = (\<lambda>walked outcome.
                \<lparr>cv_tenant_id = tenant, cv_from_sequence = from, cv_to_sequence = to,
                 cv_entries_walked = walked, cv_outcome = outcome\<rparr>) in
          if to < from then Some (Inr (report 0 ChainOk))
          else run_then (walk_rows E None 0 (range_rows rows tenant from to)) (\<lambda>(walked, outcome).
            Some (Inr (report walked outcome)))))"

section \<open>Logs\<close>

text \<open>One committed write, with the entry it was asked to write.\<close>

inductive log_step :: "audit_env \<Rightarrow> audit_entry \<Rightarrow> audit_row list \<Rightarrow> audit_row list \<Rightarrow> bool" for E e rows where
  recorded: "record_commit E rows e = Some (Inr rows') \<Longrightarrow> log_step E e rows rows'"
| claimed: "claim_commit E rows h e = Some (Inr (res, rows')) \<Longrightarrow> log_step E e rows rows'"

inductive_cases log_stepE: "log_step E e rows rows'"

text \<open>The tables reached from \<open>rows0\<close> by writes of entries that satisfy \<open>P\<close>.\<close>

inductive log_from :: "audit_env \<Rightarrow> (audit_entry \<Rightarrow> bool) \<Rightarrow> audit_row list \<Rightarrow> audit_row list \<Rightarrow> bool" for E P rows0 where
  start: "log_from E P rows0 rows0"
| step: "log_from E P rows0 rows \<Longrightarrow> log_step E e rows rows' \<Longrightarrow> P e \<Longrightarrow> log_from E P rows0 rows'"

abbreviation audit_log :: "audit_env \<Rightarrow> (audit_entry \<Rightarrow> bool) \<Rightarrow> audit_row list \<Rightarrow> bool" where
  "audit_log E P \<equiv> log_from E P []"

text \<open>A tenant's rows, each extending the one before.\<close>

fun extends_link :: "(int \<times> string) option \<Rightarrow> audit_row \<Rightarrow> bool" where
  "extends_link None r \<longleftrightarrow> ar_sequence_number r = 1"
| "extends_link (Some (n, h)) r \<longleftrightarrow> next_seq n = Some (ar_sequence_number r) \<and> ar_prev_hash r = h"

abbreviation row_link :: "audit_row \<Rightarrow> int \<times> string" where
  "row_link r \<equiv> (ar_sequence_number r, ar_entry_hash r)"

fun chained :: "(int \<times> string) option \<Rightarrow> audit_row list \<Rightarrow> bool" where
  "chained prior [] \<longleftrightarrow> True"
| "chained prior (r # rs) \<longleftrightarrow> extends_link prior r \<and> chained (Some (row_link r)) rs"

definition last_link :: "(int \<times> string) option \<Rightarrow> audit_row list \<Rightarrow> (int \<times> string) option" where
  "last_link prior rs = (if rs = [] then prior else Some (row_link (last rs)))"

definition written_row :: "audit_env \<Rightarrow> (audit_entry \<Rightarrow> bool) \<Rightarrow> audit_row \<Rightarrow> bool" where
  "written_row E P r \<longleftrightarrow> (\<exists>h e. r = entry_row E h e \<and> P e \<and> entry_gates E e = Inr ())"

definition log_ok :: "audit_env \<Rightarrow> (audit_entry \<Rightarrow> bool) \<Rightarrow> audit_row list \<Rightarrow> bool" where
  "log_ok E P rows \<longleftrightarrow>
     (\<forall>r \<in> set rows. written_row E P r) \<and> distinct (map ar_entry_id rows) \<and>
     (\<forall>t. chained None (tenant_rows rows t))"

named_theorems audit_simps

lemma next_seq_Some [audit_simps]: "next_seq n = Some m \<longleftrightarrow> m = n + 1 \<and> n < i64_max"
  by (auto simp: next_seq_def)

lemma entry_row_simps [simp]:
  "ar_entry_id (entry_row E h e) = ae_entry_id e" "ar_sequence_number (entry_row E h e) = ae_sequence_number e"
  "ar_tenant_id (entry_row E h e) = ae_tenant_id e" "ar_prev_hash (entry_row E h e) = ae_prev_hash e"
  "ar_entry_hash (entry_row E h e) = ae_entry_hash e" "ar_content_hash (entry_row E h e) = h"
  by (simp_all add: entry_row_def)

lemma tenant_rows_append [simp]:
  "tenant_rows (rows @ [r]) t = tenant_rows rows t @ (if ar_tenant_id r = t then [r] else [])"
  by (simp add: tenant_rows_def)

lemma chained_append: "chained p (rs @ qs) \<longleftrightarrow> chained p rs \<and> chained (last_link p rs) qs"
  by (induction rs arbitrary: p) (auto simp: last_link_def)

lemma chained_above:
  "chained (Some (n, h)) rs \<Longrightarrow> r \<in> set rs \<Longrightarrow> n < ar_sequence_number r"
  by (induction rs arbitrary: n h) (fastforce simp: audit_simps)+

lemma chained_numbers:
  "chained (Some (n, h)) rs \<Longrightarrow> map ar_sequence_number rs = map (\<lambda>i. n + 1 + int i) [0..<length rs]"
proof (induction rs arbitrary: n h)
  case (Cons r rs)
  then have "ar_sequence_number r = n + 1" "map ar_sequence_number rs = map (\<lambda>i. n + 2 + int i) [0..<length rs]"
    by (auto simp: audit_simps)
  then show ?case by (simp add: upt_conv_Cons map_Suc_upt[symmetric] del: upt_Suc)
qed simp

lemma chained_from_one:
  assumes "chained None rs"
  shows "map ar_sequence_number rs = map (\<lambda>i. 1 + int i) [0..<length rs]"
proof (cases rs)
  case (Cons r rs')
  with assms have "ar_sequence_number r = 1" "map ar_sequence_number rs' = map (\<lambda>i. 2 + int i) [0..<length rs']"
    using chained_numbers[of 1 "ar_entry_hash r" rs'] by auto
  then show ?thesis by (simp add: Cons upt_conv_Cons map_Suc_upt[symmetric] del: upt_Suc)
qed simp

lemma chained_last: "chained None rs \<Longrightarrow> rs \<noteq> [] \<Longrightarrow> ar_sequence_number (last rs) = int (length rs)"
  by (cases rs rule: rev_cases) (auto dest: chained_from_one)

lemma chained_sorted:
  assumes "chained None rs"
  shows "sorted (map ar_sequence_number rs)" "distinct (map ar_sequence_number rs)"
    and "sorted (map (\<lambda>r. - ar_sequence_number r) (rev rs))"
proof -
  note eq = chained_from_one[OF assms]
  show "sorted (map ar_sequence_number rs)" "distinct (map ar_sequence_number rs)"
    unfolding eq by (simp_all add: sorted_iff_nth_mono distinct_map inj_on_def)
  have "sorted_wrt (\<lambda>a b. - ar_sequence_number b \<le> - ar_sequence_number a) rs"
    using \<open>sorted (map ar_sequence_number rs)\<close> by (simp add: sorted_map)
  then show "sorted (map (\<lambda>r. - ar_sequence_number r) (rev rs))"
    by (simp only: sorted_map sorted_wrt_rev)
qed

lemma chain_tail_chained:
  assumes "chained None (tenant_rows rows t)"
  shows "chain_tail rows t = last_link None (tenant_rows rows t)"
proof -
  let ?rs = "tenant_rows rows t"
  have "distinct (map (\<lambda>r. - ar_sequence_number r) ?rs)"
    using chained_sorted(2)[OF assms] by (simp add: distinct_map inj_on_def)
  then have "sort_key (\<lambda>r. - ar_sequence_number r) ?rs = sort_key (\<lambda>r. - ar_sequence_number r) (rev ?rs)"
    by (intro sort_key_unique) simp_all
  also have "\<dots> = rev ?rs" by (rule sort_key_id_if_sorted[OF chained_sorted(3)[OF assms]])
  finally show ?thesis by (cases ?rs rule: rev_cases) (simp_all add: chain_tail_def last_link_def)
qed

lemma entry_gates_Inr [audit_simps]:
  "entry_gates E e = Inr u \<longleftrightarrow>
     1 \<le> ae_sequence_number e \<and> ae_tenant_id e \<noteq> [] \<and> length (ae_prev_hash e) = 32 \<and> length (ae_entry_hash e) = 32 \<and>
     compute_entry_hash E e = ae_entry_hash e \<and> verify_entry_signature E e = Inr ()"
  by (auto simp: entry_gates_def)

lemma chain_gates_Inr [audit_simps]:
  "chain_gates rows e = Some (Inr u) \<longleftrightarrow> extends_link (chain_tail rows (ae_tenant_id e)) (entry_row E h e)"
  by (auto simp: chain_gates_def split: option.splits prod.splits)

lemma find_claim_append:
  "find_claim (rows @ [r]) h =
     (case find_claim rows h of Some ref \<Rightarrow> Some ref | None \<Rightarrow> if ar_content_hash r = Some h then Some (row_ref r) else None)"
  by (induction rows) (auto simp: find_claim_def)

text \<open>What a commit is: the entry passed the gates, extends its chain and breaks no constraint.\<close>

definition appendable :: "audit_env \<Rightarrow> audit_row list \<Rightarrow> string option \<Rightarrow> audit_entry \<Rightarrow> bool" where
  "appendable E rows h e \<longleftrightarrow>
     entry_gates E e = Inr () \<and> extends_link (chain_tail rows (ae_tenant_id e)) (entry_row E h e) \<and>
     \<not> violates rows (entry_row E h e)"

lemma record_commit_iff:
  "record_commit E rows e = Some (Inr rows') \<longleftrightarrow> appendable E rows None e \<and> rows' = rows @ [entry_row E None e]"
  by (auto simp: record_commit_def run_then_Inr chain_gates_Inr[of _ _ _ E None] insert_row_def appendable_def)

lemma claim_commit_iff:
  "claim_commit E rows h e = Some (Inr (res, rows')) \<longleftrightarrow>
     entry_gates E e = Inr () \<and>
     ((\<exists>ref. find_claim rows h = Some ref \<and> res = AlreadyClaimed ref \<and> rows' = rows) \<or>
      (find_claim rows h = None \<and> appendable E rows (Some h) e \<and>
       res = Stored (row_ref (entry_row E (Some h) e)) \<and> rows' = rows @ [entry_row E (Some h) e]))"
  by (auto simp: claim_commit_def run_then_Inr chain_gates_Inr[of _ _ _ E "Some h"] insert_or_ignore_def appendable_def
      find_claim_append Let_def row_ref_def split: option.splits if_splits)

lemma log_step_cases:
  assumes "log_step E e rows rows'"
  shows "rows' = rows \<or> (\<exists>h. appendable E rows h e \<and> rows' = rows @ [entry_row E h e])"
  using assms by (auto elim!: log_stepE simp: record_commit_iff claim_commit_iff)

lemma log_ok_append:
  assumes "log_ok E P rows" "appendable E rows h e" "P e"
  shows "log_ok E P (rows @ [entry_row E h e])"
proof -
  let ?r = "entry_row E h e"
  have "written_row E P ?r" using assms(2,3) by (auto simp: written_row_def appendable_def)
  moreover have "ar_entry_id ?r \<notin> set (map ar_entry_id rows)"
    using assms(2) by (auto simp: appendable_def violates_def list_ex_iff)
  moreover have "chained None (tenant_rows (rows @ [?r]) t)" for t
  proof (cases "ae_tenant_id e = t")
    case True
    have "chained None (tenant_rows rows t)" using assms(1) by (simp add: log_ok_def)
    moreover have "extends_link (chain_tail rows t) ?r" using assms(2) True by (simp add: appendable_def)
    ultimately show ?thesis using True by (simp add: chained_append chain_tail_chained)
  next
    case False
    then show ?thesis using assms(1) by (simp add: log_ok_def)
  qed
  ultimately show ?thesis using assms(1) by (simp add: log_ok_def)
qed

lemma log_from_ok: "log_from E P rows0 rows \<Longrightarrow> log_ok E P rows0 \<Longrightarrow> log_ok E P rows"
  by (induction rule: log_from.induct) (auto dest!: log_step_cases intro: log_ok_append)

lemma audit_log_ok: "audit_log E P rows \<Longrightarrow> log_ok E P rows"
  using log_from_ok[of E P "[]" rows] by (simp add: log_ok_def tenant_rows_def)

lemma log_from_grows: "log_from E P rows0 rows \<Longrightarrow> \<exists>added. rows = rows0 @ added"
  by (induction rule: log_from.induct) (auto dest!: log_step_cases)

section \<open>Written chains verify\<close>

text \<open>An entry that reads back from its row as it was written.\<close>

definition storable :: "audit_env \<Rightarrow> audit_entry \<Rightarrow> bool" where
  "storable E e \<longleftrightarrow>
     env_json_parse E (env_json_text E (ae_payload e)) = Some (ae_payload e) \<and>
     parse_datetime E (fmt_datetime E (ae_recorded_at e)) = Inr (ae_recorded_at e)"

text \<open>What the libraries document: JSON text reads back as the value (objects in key order), and the RFC 3339 text
  with microseconds of an instant with a four-digit year reads back as the instant without its nanoseconds.\<close>

definition four_digit_year :: "instant \<Rightarrow> bool" where
  "four_digit_year t \<longleftrightarrow> 0 \<le> t \<and> t < 253402300800 * 1000000000"

definition store_law :: "audit_env \<Rightarrow> bool" where
  "store_law E \<longleftrightarrow>
     (\<forall>v. jv_ok v \<longrightarrow> env_json_parse E (env_json_text E v) = Some (jv_norm v)) \<and>
     (\<forall>t. four_digit_year t \<longrightarrow> CHR ''T'' \<in> set (env_rfc3339_micros E t) \<and>
        env_parse_rfc3339 E (env_rfc3339_micros E t) = Some (truncate_to_micros t))"

lemma truncate_idem [simp]: "truncate_to_micros (truncate_to_micros t) = truncate_to_micros t"
  by (simp add: truncate_to_micros_def mod_diff_eq[symmetric])

lemma storable_truncated:
  assumes "store_law E" "jv_ok (ae_payload e)" "jv_norm (ae_payload e) = ae_payload e"
    and "four_digit_year (ae_recorded_at e)" "ae_recorded_at e = truncate_to_micros t"
  shows "storable E e"
  using assms by (auto simp: storable_def store_law_def parse_datetime_def fmt_datetime_def)

lemma decode_written_row: "storable E e \<Longrightarrow> decode_entry_row E (entry_row E h e) = Inr e"
  by (simp add: storable_def decode_entry_row_def entry_row_def)

lemma content_break_None [audit_simps]:
  "content_break E e = None \<longleftrightarrow> compute_entry_hash E e = ae_entry_hash e \<and> verify_entry_signature E e = Inr ()"
  by (auto simp: content_break_def split: sum.splits)

lemma link_break_row: "extends_link (Some p) (entry_row E h e) \<Longrightarrow> link_break (Some p) e = Some None"
  by (cases p) (auto simp: link_break_def)

lemma walk_to:
  assumes "chained (Some p) rs" "\<forall>r \<in> set rs. written_row E (storable E) r"
  shows "walk_rows E (Some p) w (filter (\<lambda>r. ar_sequence_number r \<le> to) rs) =
    Some (Inr (w + length (filter (\<lambda>r. ar_sequence_number r \<le> to) rs), ChainOk))"
  using assms
proof (induction rs arbitrary: p w)
  case (Cons r rs)
  obtain h e where r: "r = entry_row E h e" "storable E e" "entry_gates E e = Inr ()"
    using Cons.prems(2) by (auto simp: written_row_def)
  show ?case
  proof (cases "ar_sequence_number r \<le> to")
    case True
    have "link_break (Some p) e = Some None" using Cons.prems(1) by (auto simp: r(1) intro: link_break_row)
    moreover have "content_break E e = None" using r(3) by (simp add: audit_simps)
    ultimately show ?thesis using True Cons r by (simp add: decode_written_row)
  next
    case False
    then have "filter (\<lambda>r. ar_sequence_number r \<le> to) rs = []"
      using chained_above[of "ar_sequence_number r" "ar_entry_hash r" rs] Cons.prems(1) by (fastforce simp: filter_empty_conv)
    then show ?thesis using False by simp
  qed
qed simp

definition genesis_zero :: "audit_row list \<Rightarrow> bool" where
  "genesis_zero rs \<longleftrightarrow> list_all (\<lambda>r. ar_sequence_number r = 1 \<longrightarrow> ar_prev_hash r = GENESIS_PREV_HASH) rs"

lemma walk_range:
  assumes "chained p rs" "\<forall>r \<in> set rs. written_row E (storable E) r" "genesis_zero rs"
  shows "walk_rows E None w (filter (\<lambda>r. lo \<le> ar_sequence_number r \<and> ar_sequence_number r \<le> to) rs) =
    Some (Inr (w + length (filter (\<lambda>r. lo \<le> ar_sequence_number r \<and> ar_sequence_number r \<le> to) rs), ChainOk))"
  using assms
proof (induction rs arbitrary: p)
  case (Cons r rs)
  obtain h e where r: "r = entry_row E h e" "storable E e" "entry_gates E e = Inr ()"
    using Cons.prems(2) by (auto simp: written_row_def)
  have above: "\<forall>q \<in> set rs. ar_sequence_number r < ar_sequence_number q"
    using chained_above[of "ar_sequence_number r" "ar_entry_hash r" rs] Cons.prems(1) by auto
  show ?case
  proof (cases "lo \<le> ar_sequence_number r \<and> ar_sequence_number r \<le> to")
    case True
    then have rest: "filter (\<lambda>r. lo \<le> ar_sequence_number r \<and> ar_sequence_number r \<le> to) rs =
        filter (\<lambda>r. ar_sequence_number r \<le> to) rs"
      using above by (intro filter_cong) auto
    have "link_break None e = Some None" using Cons.prems(3) by (auto simp: r(1) genesis_zero_def link_break_def)
    moreover have "content_break E e = None" using r(3) by (simp add: audit_simps)
    moreover have "chained (Some (ae_sequence_number e, ae_entry_hash e)) rs" using Cons.prems(1) by (simp add: r(1))
    moreover note walk_to[OF this, of E "Suc w" to]
    ultimately show ?thesis using True rest Cons.prems(2) r by (simp add: decode_written_row)
  next
    case False
    then show ?thesis using Cons by (auto simp: genesis_zero_def)
  qed
qed simp

lemma range_rows_chained:
  assumes "chained None (tenant_rows rows t)"
  shows "range_rows rows t lo to = filter (\<lambda>r. lo \<le> ar_sequence_number r \<and> ar_sequence_number r \<le> to) (tenant_rows rows t)"
  unfolding range_rows_def
  by (rule sort_key_id_if_sorted) (rule sorted_filter[OF chained_sorted(1)[OF assms]])

text \<open>The table after the rows of a tenant outside a range of sequence numbers are lost.\<close>

definition cut_rows :: "audit_row list \<Rightarrow> string \<Rightarrow> int \<Rightarrow> int \<Rightarrow> audit_row list" where
  "cut_rows rows t lo hi =
     filter (\<lambda>r. ar_tenant_id r = t \<longrightarrow> lo \<le> ar_sequence_number r \<and> ar_sequence_number r \<le> hi) rows"

lemma tenant_cut_rows:
  "tenant_rows (cut_rows rows t lo hi) t = filter (\<lambda>r. lo \<le> ar_sequence_number r \<and> ar_sequence_number r \<le> hi) (tenant_rows rows t)"
  by (induction rows) (auto simp: cut_rows_def tenant_rows_def)

lemma range_cut_rows:
  assumes "chained None (tenant_rows rows t)"
  shows "range_rows (cut_rows rows t lo hi) t a b =
    filter (\<lambda>r. max lo a \<le> ar_sequence_number r \<and> ar_sequence_number r \<le> min hi b) (tenant_rows rows t)"
proof -
  have "filter (\<lambda>r. a \<le> ar_sequence_number r \<and> ar_sequence_number r \<le> b) (tenant_rows (cut_rows rows t lo hi) t) =
      filter (\<lambda>r. max lo a \<le> ar_sequence_number r \<and> ar_sequence_number r \<le> min hi b) (tenant_rows rows t)"
    unfolding tenant_cut_rows filter_filter by (intro filter_cong) auto
  then show ?thesis
    unfolding range_rows_def
    by (simp only:) (rule sort_key_id_if_sorted, rule sorted_filter[OF chained_sorted(1)[OF assms]])
qed

definition resolved_to :: "audit_row list \<Rightarrow> string \<Rightarrow> int option \<Rightarrow> int" where
  "resolved_to rows t to = (case to of None \<Rightarrow> max_seq rows t | Some n \<Rightarrow> n)"

lemma range_rows_empty: "to < lo \<Longrightarrow> range_rows rows t lo to = []"
  by (auto simp: range_rows_def filter_empty_conv)

lemma verify_chain_walk:
  assumes "t \<noteq> []" "1 \<le> from" "case to of None \<Rightarrow> True | Some n \<Rightarrow> from \<le> n"
  shows "verify_chain E rows t from to =
    run_then (walk_rows E None 0 (range_rows rows t from (resolved_to rows t to))) (\<lambda>(walked, outcome).
      Some (Inr \<lparr>cv_tenant_id = t, cv_from_sequence = from, cv_to_sequence = resolved_to rows t to,
        cv_entries_walked = walked, cv_outcome = outcome\<rparr>))"
  using assms by (cases to) (fastforce simp: verify_chain_def resolved_to_def Let_def range_rows_empty)+

lemma verify_cut:
  fixes lo hi :: int
  assumes "log_ok E (storable E) rows" "genesis_zero (tenant_rows rows t)"
    and "t \<noteq> []" "1 \<le> from" "case to of None \<Rightarrow> True | Some n \<Rightarrow> from \<le> n"
  defines "rows' \<equiv> cut_rows rows t lo hi"
  shows "verify_chain E rows' t from to =
    Some (Inr \<lparr>cv_tenant_id = t, cv_from_sequence = from, cv_to_sequence = resolved_to rows' t to,
      cv_entries_walked = length (range_rows rows' t from (resolved_to rows' t to)), cv_outcome = ChainOk\<rparr>)"
proof -
  have chain: "chained None (tenant_rows rows t)" using assms(1) by (simp add: log_ok_def)
  have "\<forall>r \<in> set (tenant_rows rows t). written_row E (storable E) r"
    using assms(1) by (simp add: log_ok_def tenant_rows_def)
  note walk = walk_range[OF chain this assms(2)]
  show ?thesis
    unfolding rows'_def verify_chain_walk[OF assms(3-5)] range_cut_rows[OF chain] walk by simp
qed

lemma max_seq_chained:
  assumes "chained None (tenant_rows rows t)"
  shows "max_seq rows t = int (length (tenant_rows rows t))"
proof -
  have "fold max (map (\<lambda>i. 1 + int i) [1..<n]) 1 = int n" if "1 \<le> n" for n
    using that by (induction n rule: dec_induct) simp_all
  then show ?thesis
    by (cases "tenant_rows rows t = []")
      (simp_all add: max_seq_def chained_from_one[OF assms] upt_conv_Cons Suc_le_eq del: upt_Suc)
qed

lemma chained_bounds:
  assumes "chained None rs" "r \<in> set rs"
  shows "1 \<le> ar_sequence_number r \<and> ar_sequence_number r \<le> int (length rs)"
proof -
  have "ar_sequence_number r \<in> set (map ar_sequence_number rs)" using assms(2) by simp
  then show ?thesis unfolding chained_from_one[OF assms(1)] by auto
qed

lemma cut_nothing:
  assumes "chained None (tenant_rows rows t)"
  shows "cut_rows rows t 1 (int (length (tenant_rows rows t))) = rows"
  using chained_bounds[OF assms] by (simp add: cut_rows_def tenant_rows_def)

lemma max_seq_ge:
  assumes "r \<in> set (tenant_rows rows t)"
  shows "ar_sequence_number r \<le> max_seq rows t"
proof (cases "tenant_rows rows t")
  case (Cons q qs)
  then have "max_seq rows t = Max (set (map ar_sequence_number (tenant_rows rows t)))"
    by (simp add: max_seq_def Max.set_eq_fold[symmetric])
  then show ?thesis using assms by simp
qed (use assms in simp)


text \<open>C36: A clean verification does not show that the chain is complete. Take away from a written log every row of a
  tenant below one sequence number and above another: verifying what is left from the first position to the tail
  still reports no break, with only the rows that are left walked.\<close>

theorem truncated_chain_verifies:
  assumes "audit_log E (storable E) rows" "genesis_zero (tenant_rows rows t)" "t \<noteq> []"
  shows "\<exists>v. verify_chain E (cut_rows rows t lo hi) t 1 None = Some (Inr v) \<and> cv_outcome v = ChainOk \<and>
    cv_from_sequence v = 1 \<and> cv_entries_walked v = length (tenant_rows (cut_rows rows t lo hi) t)"
proof -
  let ?rows = "cut_rows rows t lo hi"
  have chain: "chained None (tenant_rows rows t)" using audit_log_ok[OF assms(1)] by (simp add: log_ok_def)
  have "1 \<le> ar_sequence_number r" if "r \<in> set (tenant_rows ?rows t)" for r
    using that chained_bounds[OF chain] by (simp add: tenant_cut_rows)
  then have "length (range_rows ?rows t 1 (max_seq ?rows t)) = length (tenant_rows ?rows t)"
    using max_seq_ge by (auto simp: range_rows_def intro!: arg_cong[where f = length] filter_True)
  with verify_cut[OF audit_log_ok[OF assms(1)] assms(2,3), of 1 None lo hi] show ?thesis
    by (simp add: resolved_to_def)
qed

section \<open>What a clean verification establishes\<close>

text \<open>The entries of a walk without a break, declaratively.\<close>

definition follows :: "audit_entry \<Rightarrow> audit_entry \<Rightarrow> bool" where
  "follows a b \<longleftrightarrow> ae_sequence_number b = ae_sequence_number a + 1 \<and> ae_prev_hash b = ae_entry_hash a"

definition sound_entry :: "audit_env \<Rightarrow> audit_entry \<Rightarrow> bool" where
  "sound_entry E e \<longleftrightarrow> compute_entry_hash E e = ae_entry_hash e \<and> verify_entry_signature E e = Inr ()"

definition sound_entries :: "audit_env \<Rightarrow> audit_entry list \<Rightarrow> bool" where
  "sound_entries E es \<longleftrightarrow>
     list_all (sound_entry E) es \<and> successively follows es \<and>
     (es = [] \<or> ae_sequence_number (hd es) \<noteq> 1 \<or> ae_prev_hash (hd es) = GENESIS_PREV_HASH)"

fun linked_from :: "audit_env \<Rightarrow> (int \<times> string) option \<Rightarrow> audit_entry list \<Rightarrow> bool" where
  "linked_from E prior [] \<longleftrightarrow> True"
| "linked_from E prior (e # es) \<longleftrightarrow>
     link_break prior e = Some None \<and> content_break E e = None \<and>
     linked_from E (Some (ae_sequence_number e, ae_entry_hash e)) es"

lemma walk_rows_ok:
  "walk_rows E prior w rs = Some (Inr (n, ChainOk)) \<longleftrightarrow>
     n = w + length rs \<and> (\<exists>es. list_all2 (\<lambda>r e. decode_entry_row E r = Inr e) rs es \<and> linked_from E prior es)"
proof (induction rs arbitrary: prior w)
  case (Cons r rs)
  show ?case
  proof (cases "decode_entry_row E r")
    case (Inr e)
    have no: "link_break prior e \<noteq> Some (Some ChainOk)" "content_break E e \<noteq> Some ChainOk"
      by (auto simp: link_break_def content_break_def split: option.splits prod.splits if_splits sum.splits)
    show ?thesis
    proof (cases "link_break prior e = Some None \<and> content_break E e = None")
      case True
      then show ?thesis using Inr by (auto simp: Cons.IH list_all2_Cons1)
    next
      case False
      then show ?thesis using Inr no by (auto simp: list_all2_Cons1 split: option.splits)
    qed
  qed (simp add: list_all2_Cons1)
qed auto

lemma link_break_follows:
  assumes "ae_sequence_number b \<le> i64_max"
  shows "link_break (Some (ae_sequence_number a, ae_entry_hash a)) b = Some None \<longleftrightarrow> follows a b"
  using assms by (auto simp: link_break_def follows_def next_seq_def split: option.splits)

lemma linked_from_entry:
  assumes "\<forall>e \<in> set es. ae_sequence_number e \<le> i64_max"
  shows "linked_from E (Some (ae_sequence_number a, ae_entry_hash a)) es \<longleftrightarrow>
    list_all (sound_entry E) es \<and> successively follows (a # es)"
  using assms
  by (induction es arbitrary: a) (auto simp: link_break_follows content_break_None sound_entry_def)

lemma linked_from_None:
  assumes "\<forall>e \<in> set es. ae_sequence_number e \<le> i64_max"
  shows "linked_from E None es \<longleftrightarrow> sound_entries E es"
proof (cases es)
  case (Cons e es')
  have "link_break None e = Some None \<longleftrightarrow> ae_sequence_number e \<noteq> 1 \<or> ae_prev_hash e = GENESIS_PREV_HASH"
    by (auto simp: link_break_def)
  then show ?thesis
    using assms by (auto simp: Cons sound_entries_def sound_entry_def linked_from_entry content_break_None)
qed (simp add: sound_entries_def)

lemma decode_fields:
  assumes "decode_entry_row E r = Inr e"
  shows "ae_sequence_number e = ar_sequence_number r" "ae_entry_hash e = ar_entry_hash r" "ae_tenant_id e = ar_tenant_id r"
  using assms by (auto simp: decode_entry_row_def and_then_Inr split: option.splits)

lemma list_all2_right: "list_all2 P xs ys \<Longrightarrow> y \<in> set ys \<Longrightarrow> \<exists>x \<in> set xs. P x y"
  by (induction rule: list_all2_induct) auto

lemma verify_chain_ok:
  assumes "t \<noteq> []" "1 \<le> from" "case to of None \<Rightarrow> True | Some n \<Rightarrow> from \<le> n"
    and "\<forall>r \<in> set rows. ar_sequence_number r \<le> i64_max"
  defines "part \<equiv> range_rows rows t from (resolved_to rows t to)"
  shows "(verify_chain E rows t from to = Some (Inr v) \<and> cv_outcome v = ChainOk) \<longleftrightarrow>
    v = \<lparr>cv_tenant_id = t, cv_from_sequence = from, cv_to_sequence = resolved_to rows t to,
      cv_entries_walked = length part, cv_outcome = ChainOk\<rparr> \<and>
    (\<exists>es. list_all2 (\<lambda>r e. decode_entry_row E r = Inr e) part es \<and> sound_entries E es)"
proof -
  have "linked_from E None es \<longleftrightarrow> sound_entries E es"
    if "list_all2 (\<lambda>r e. decode_entry_row E r = Inr e) part es" for es
  proof (rule linked_from_None)
    have "r \<in> set rows" if "r \<in> set part" for r using that by (simp add: part_def range_rows_def tenant_rows_def)
    then show "\<forall>e \<in> set es. ae_sequence_number e \<le> i64_max"
      using list_all2_right[OF that] assms(4) decode_fields(1) by metis
  qed
  then have walk: "walk_rows E None 0 part = Some (Inr (n, ChainOk)) \<longleftrightarrow>
      n = length part \<and> (\<exists>es. list_all2 (\<lambda>r e. decode_entry_row E r = Inr e) part es \<and> sound_entries E es)" for n
    unfolding walk_rows_ok by (metis add_0)
  have report: "(run_then x (\<lambda>(n, out). Some (Inr (rep n out))) = Some (Inr v) \<and> cv_outcome v = ChainOk) \<longleftrightarrow>
      (\<exists>n. x = Some (Inr (n, ChainOk)) \<and> v = rep n ChainOk)"
    if "\<And>n out. cv_outcome (rep n out) = out" for rep and x :: "(audit_error + nat \<times> chain_verify_outcome) option"
    unfolding run_then_Inr using that by fastforce
  show ?thesis
    unfolding verify_chain_walk[OF assms(1-3)] part_def[symmetric]
    by (subst report) (simp, unfold walk, blast)
qed

text \<open>C32: What the outcome Ok means. Over a range that is accepted as an argument, \<open>verify_chain\<close> reports no break
  exactly when every stored row of the range decodes, and the decoded entries, in sequence order, are each
  hashed and signed as claimed, each follows the one before by number and by hash, and the first one carries the
  zero hash if it has number one; all of them were then walked.\<close>

theorem verify_chain_ok_iff:
  assumes "t \<noteq> []" "1 \<le> from" "case to of None \<Rightarrow> True | Some n \<Rightarrow> from \<le> n"
    and "\<forall>r \<in> set rows. ar_sequence_number r \<le> i64_max"
  shows "(\<exists>v. verify_chain E rows t from to = Some (Inr v) \<and> cv_outcome v = ChainOk) \<longleftrightarrow>
    (\<exists>es. list_all2 (\<lambda>r e. decode_entry_row E r = Inr e) (range_rows rows t from (resolved_to rows t to)) es \<and>
       list_all (sound_entry E) es \<and> successively follows es \<and>
       (es = [] \<or> ae_sequence_number (hd es) \<noteq> 1 \<or> ae_prev_hash (hd es) = GENESIS_PREV_HASH))"
  unfolding verify_chain_ok[OF assms] sound_entries_def by blast

section \<open>The hash covers the entry\<close>

lemma utf8_ascii: "list_all (\<lambda>c. byte c < 128) s \<Longrightarrow> utf8 s"
  by (induction s) (simp, subst utf8.simps, simp add: Let_def)

lemma digit_cases: "digit_val c \<noteq> None \<Longrightarrow> number_char c \<and> byte c < 128 \<and> c \<noteq> CHR ''-''"
proof -
  assume "digit_val c \<noteq> None"
  then have "48 \<le> byte c" "byte c \<le> 57" by (auto simp: digit_val_def Let_def split: if_splits)
  then have "byte c \<in> {48, 49, 50, 51, 52, 53, 54, 55, 56, 57}" by (simp only: insert_iff empty_iff) presburger
  also have "\<dots> = byte ` set ''0123456789''" by simp
  finally obtain d where d: "d \<in> set ''0123456789''" "byte c = byte d" by (rule imageE)
  then have "c = d" by simp
  with d(1) show ?thesis by (auto simp: number_char_def)
qed

lemma show_int_token: "number_token (show_int i)" and show_int_utf8: "utf8 (show_int i)"
proof -
  have "list_all number_char (show_nat n)" "list_all (\<lambda>c. byte c < 128) (show_nat n)" for n
    using digit_cases[OF show_nat_digits] by (auto simp: list_all_iff)
  then show "number_token (show_int i)" "utf8 (show_int i)"
    by (auto simp: show_int_def number_token_def number_char_def intro!: utf8_ascii)
qed

lemma show_nat_inject: "show_nat m = show_nat n \<longleftrightarrow> m = n"
  using parse_digits_show_nat by (metis option.inject)

lemma show_int_inject: "show_int i = show_int j \<longleftrightarrow> i = j"
proof -
  have "show_nat n \<noteq> CHR ''-'' # xs" for n xs
    using digit_cases[OF show_nat_digits, of "CHR ''-''" n] by auto
  from this this[symmetric] show ?thesis by (auto simp: show_int_def show_nat_inject)
qed

text \<open>What the encodings document: Base64 and the timestamp form are text, and tell different arguments apart.\<close>

definition encoding_laws :: "audit_env \<Rightarrow> bool" where
  "encoding_laws E \<longleftrightarrow>
     inj (env_b64 E) \<and> (\<forall>x. utf8 (env_b64 E x)) \<and> inj (env_datetime E) \<and> (\<forall>t. utf8 (env_datetime E t))"

text \<open>What the types of the code guarantee of an entry: strings are UTF-8 and a JSON object has one member per key.\<close>

definition entry_text :: "audit_entry \<Rightarrow> bool" where
  "entry_text e \<longleftrightarrow>
     utf8 (ae_entry_id e) \<and> utf8 (ae_tenant_id e) \<and> utf8 (ae_actor_id e) \<and> utf8 (ae_action_type e) \<and>
     utf8 (ae_subject_kind e) \<and> utf8 (ae_subject_id e) \<and> utf8 (ae_signature e) \<and> jv_ok (ae_payload e)"

text \<open>Equal in everything but the hash and the signature, the payload up to the order of members.\<close>

definition same_content :: "audit_entry \<Rightarrow> audit_entry \<Rightarrow> bool" where
  "same_content a b \<longleftrightarrow>
     a\<lparr>ae_payload := jv_norm (ae_payload a), ae_entry_hash := [], ae_signature := []\<rparr> =
     b\<lparr>ae_payload := jv_norm (ae_payload b), ae_entry_hash := [], ae_signature := []\<rparr>"

lemma entry_value_ok:
  assumes "encoding_laws E" "entry_text e"
  shows "jv_ok (entry_value E e)"
proof -
  have "utf8 ''entry_id''" "utf8 ''sequence_number''" "utf8 ''tenant_id''" "utf8 ''actor_id''" "utf8 ''action_type''"
    "utf8 ''subject_kind''" "utf8 ''subject_id''" "utf8 ''payload''" "utf8 ''prev_hash''" "utf8 ''entry_hash''"
    "utf8 ''recorded_at''" "utf8 ''signature''"
    by (rule utf8_ascii, simp)+
  then show ?thesis using assms by (simp add: entry_value_def encoding_laws_def entry_text_def show_int_token)
qed

lemma member_of_norm:
  assumes "jv_norm (VObject xs) = jv_norm (VObject ys)" "distinct (map fst xs)" "distinct (map fst ys)"
  shows "map_of (map (\<lambda>(k, v). (k, jv_norm v)) xs) k = map_of (map (\<lambda>(k, v). (k, jv_norm v)) ys) k"
proof -
  let ?n = "map (\<lambda>(k, v). (k, jv_norm v))"
  have keys: "map fst (?n zs) = map fst zs" for zs by (simp add: case_prod_unfold)
  have "sort_key fst (?n xs) = sort_key fst (?n ys)" using assms(1) by simp
  then have "set (?n xs) = set (?n ys)" by (metis set_sort)
  then have "map_of (?n xs) = map_of (?n ys)"
    using map_of_inject_set[of "?n xs" "?n ys"] assms(2,3) unfolding keys by blast
  then show ?thesis by simp
qed

lemma entry_value_inject:
  assumes "encoding_laws E" "entry_text a" "entry_text b"
    and "canonical_bytes_for_entry E a = canonical_bytes_for_entry E b"
  shows "ae_entry_hash a = ae_entry_hash b \<and> same_content a b"
proof -
  let ?m = "\<lambda>e. case strip_signature (entry_value E e) of VObject kvs \<Rightarrow> map_of (map (\<lambda>(k, v). (k, jv_norm v)) kvs)"
  have "jv_norm (strip_signature (entry_value E a)) = jv_norm (strip_signature (entry_value E b))"
    using assms(4) write_value_inject[OF strip_signature_ok[OF entry_value_ok[OF assms(1,2)]]
      strip_signature_ok[OF entry_value_ok[OF assms(1,3)]]]
    by (simp add: canonical_bytes_for_entry_def pinned_is_stripped)
  then have "?m a k = ?m b k" for k
    unfolding entry_value_def strip_signature.simps jvalue.case
    by (intro member_of_norm) (simp_all add: signing_view_def SIGNATURE_MEMBERS_def)
  note m = this[unfolded entry_value_def strip_signature.simps jvalue.case]
  show ?thesis
    using m[of "''entry_id''"] m[of "''sequence_number''"] m[of "''tenant_id''"] m[of "''actor_id''"]
      m[of "''action_type''"] m[of "''subject_kind''"] m[of "''subject_id''"] m[of "''payload''"]
      m[of "''prev_hash''"] m[of "''entry_hash''"] m[of "''recorded_at''"] assms(1)
    by (simp add: signing_view_def SIGNATURE_MEMBERS_def same_content_def show_int_inject encoding_laws_def inj_eq)
qed

lemma entry_hash_covers:
  assumes "encoding_laws E" "entry_text a" "entry_text b" "compute_entry_hash E a = compute_entry_hash E b"
  shows "same_content a b \<or> (\<exists>x y. x \<noteq> y \<and> env_sha256 E x = env_sha256 E y)"
proof -
  let ?z = "\<lambda>e. e\<lparr>ae_entry_hash := [], ae_signature := []\<rparr>"
  have "entry_text (?z a)" "entry_text (?z b)" using assms(2,3) by (simp_all add: entry_text_def)
  moreover have "same_content (?z a) (?z b) \<longleftrightarrow> same_content a b" by (simp add: same_content_def)
  ultimately show ?thesis
    using entry_value_inject[OF assms(1), of "?z a" "?z b"] assms(4) unfolding compute_entry_hash_def by blast
qed

section \<open>Tamper evidence\<close>

text \<open>The entries a verification from the first position to the tail walks.\<close>

definition chain_entries :: "audit_env \<Rightarrow> audit_row list \<Rightarrow> string \<Rightarrow> audit_entry list" where
  "chain_entries E rows t =
     (case try_map (decode_entry_row E) (range_rows rows t 1 (max_seq rows t)) of Inl _ \<Rightarrow> [] | Inr es \<Rightarrow> es)"

text \<open>A verification of the whole chain that reports no break and has walked as many entries as the tail's number.\<close>

definition verified_whole :: "audit_env \<Rightarrow> audit_row list \<Rightarrow> string \<Rightarrow> bool" where
  "verified_whole E rows t \<longleftrightarrow>
     (case verify_chain E rows t 1 None of
        Some (Inr v) \<Rightarrow> cv_outcome v = ChainOk \<and> int (cv_entries_walked v) = cv_to_sequence v
      | _ \<Rightarrow> False)"

lemma follows_last:
  "successively follows es \<Longrightarrow> e \<in> set es \<Longrightarrow> e = last es \<or> ae_sequence_number e < ae_sequence_number (last es)"
proof (induction es arbitrary: e rule: induct_list012)
  case (3 a b es)
  have ab: "ae_sequence_number a < ae_sequence_number b" using 3(3) by (simp add: follows_def)
  have IH: "x = last (b # es) \<or> ae_sequence_number x < ae_sequence_number (last (b # es))" if "x \<in> set (b # es)" for x
    using "3.IH"(2)[of x] 3(3) that by simp
  from 3(4) consider "e = a" | "e \<in> set (b # es)" by auto
  then show ?case
  proof cases
    case 1
    then show ?thesis using ab IH[of b] by auto
  next
    case 2
    then show ?thesis using IH[of e] by simp
  qed
qed simp_all

lemma list_all2_left: "list_all2 P xs ys \<Longrightarrow> x \<in> set xs \<Longrightarrow> \<exists>y \<in> set ys. P x y"
  by (induction rule: list_all2_induct) auto

lemma chain_tail_max:
  assumes "tenant_rows rows t \<noteq> []"
  obtains r where "r \<in> set (tenant_rows rows t)" "ar_sequence_number r = max_seq rows t"
    "chain_tail rows t = Some (row_link r)"
proof -
  let ?s = "sort_key (\<lambda>r. - ar_sequence_number r) (tenant_rows rows t)"
  obtain r rs where s: "?s = r # rs" using assms by (cases ?s) (metis set_sort set_empty, blast)
  have "sorted (map (\<lambda>r. - ar_sequence_number r) ?s)" by (rule sorted_sort_key)
  moreover have sets: "set (tenant_rows rows t) = set (r # rs)" using s by (metis set_sort)
  ultimately have "\<forall>q \<in> set (tenant_rows rows t). ar_sequence_number q \<le> ar_sequence_number r" by (simp add: s)
  moreover have "max_seq rows t \<in> ar_sequence_number ` set (tenant_rows rows t)"
  proof (cases "tenant_rows rows t")
    case (Cons q qs)
    then have "max_seq rows t = Max (set (map ar_sequence_number (tenant_rows rows t)))"
      by (simp add: max_seq_def Max.set_eq_fold[symmetric])
    then show ?thesis using Max_in[of "set (map ar_sequence_number (tenant_rows rows t))"] assms by simp
  qed (use assms in simp)
  ultimately have "ar_sequence_number r = max_seq rows t" using max_seq_ge[of r rows t] sets by force
  moreover have "chain_tail rows t = Some (row_link r)" by (simp add: chain_tail_def s)
  moreover have "r \<in> set (tenant_rows rows t)" using sets by simp
  ultimately show ?thesis using that by blast
qed

lemma verified_whole_entries:
  assumes "verified_whole E rows t" "\<forall>r \<in> set rows. ar_sequence_number r \<le> i64_max"
  shows "sound_entries E (chain_entries E rows t) \<and> int (length (chain_entries E rows t)) = max_seq rows t \<and>
    (chain_entries E rows t \<noteq> [] \<longrightarrow>
       chain_tail rows t = Some (max_seq rows t, ae_entry_hash (last (chain_entries E rows t))))"
proof -
  let ?part = "range_rows rows t 1 (max_seq rows t)" and ?es = "chain_entries E rows t"
  obtain v where v: "verify_chain E rows t 1 None = Some (Inr v)" "cv_outcome v = ChainOk"
      "int (cv_entries_walked v) = cv_to_sequence v"
    using assms(1) by (auto simp: verified_whole_def split: option.splits sum.splits)
  then have t: "t \<noteq> []" by (auto simp: verify_chain_def)
  from verify_chain_ok[OF t _ _ assms(2), of 1 None E v] v
  have len: "int (length ?part) = max_seq rows t" and
    "\<exists>es. list_all2 (\<lambda>r e. decode_entry_row E r = Inr e) ?part es \<and> sound_entries E es"
    by (auto simp: resolved_to_def)
  then have dec: "list_all2 (\<lambda>r e. decode_entry_row E r = Inr e) ?part ?es" and sound: "sound_entries E ?es"
    by (auto simp: chain_entries_def try_map_Inr[symmetric])
  have "chain_tail rows t = Some (max_seq rows t, ae_entry_hash (last ?es))" if ne: "?es \<noteq> []"
  proof -
    from ne dec have part: "?part \<noteq> []" by auto
    then have "tenant_rows rows t \<noteq> []" by (auto simp: range_rows_def)
    then obtain r where r: "r \<in> set (tenant_rows rows t)" "ar_sequence_number r = max_seq rows t"
      "chain_tail rows t = Some (row_link r)" by (rule chain_tail_max)
    have "1 \<le> max_seq rows t" using len part by (cases ?part) auto
    with r have "r \<in> set ?part" by (simp add: range_rows_def)
    then obtain e where e: "e \<in> set ?es" "decode_entry_row E r = Inr e" using list_all2_left[OF dec] by blast
    obtain q where "q \<in> set ?part" "decode_entry_row E q = Inr (last ?es)"
      using list_all2_right[OF dec last_in_set[OF ne]] by blast
    then have "ae_sequence_number (last ?es) \<le> ae_sequence_number e"
      using decode_fields(1)[of E q] decode_fields(1)[OF e(2)] r(2) by (simp add: range_rows_def)
    then have "e = last ?es" using follows_last[of ?es e] e(1) sound by (auto simp: sound_entries_def)
    then show ?thesis using r decode_fields(2)[OF e(2)] by simp
  qed
  then show ?thesis using sound len list_all2_lengthD[OF dec] by simp
qed

lemma same_tail_same_chain:
  assumes "encoding_laws E"
  shows "length es = length fs \<Longrightarrow> list_all entry_text es \<Longrightarrow> list_all entry_text fs \<Longrightarrow>
    list_all (sound_entry E) es \<Longrightarrow> list_all (sound_entry E) fs \<Longrightarrow> successively follows es \<Longrightarrow> successively follows fs \<Longrightarrow>
    es = [] \<or> ae_entry_hash (last es) = ae_entry_hash (last fs) \<Longrightarrow>
    list_all2 same_content es fs \<or> (\<exists>x y. x \<noteq> y \<and> env_sha256 E x = env_sha256 E y)"
proof (induction es arbitrary: fs rule: rev_induct)
  case (snoc e es)
  then obtain f fs' where fs: "fs = fs' @ [f]" by (cases fs rule: rev_cases) auto
  have "compute_entry_hash E e = compute_entry_hash E f" using snoc.prems by (simp add: fs sound_entry_def)
  then consider "same_content e f" | "\<exists>x y. x \<noteq> y \<and> env_sha256 E x = env_sha256 E y"
    using entry_hash_covers[OF assms, of e f] snoc.prems(2,3) by (auto simp: fs)
  then show ?case
  proof cases
    case 1
    from arg_cong[where f = ae_prev_hash, OF 1[unfolded same_content_def]]
    have "ae_prev_hash e = ae_prev_hash f" by simp
    then have "es = [] \<or> ae_entry_hash (last es) = ae_entry_hash (last fs')"
      using snoc.prems(1,6,7) by (auto simp: fs successively_append_iff follows_def)
    with snoc.IH[of fs'] snoc.prems have "list_all2 same_content es fs' \<or> (\<exists>x y. x \<noteq> y \<and> env_sha256 E x = env_sha256 E y)"
      by (auto simp: fs successively_append_iff)
    with 1 show ?thesis by (auto simp: fs intro: list_all2_appendI)
  qed simp
qed simp


section \<open>Positions, claims and stored rows\<close>

text \<open>C34: The advertised position is accepted. On every reachable table a tenant's next position can be read unless
  its chain is at the largest number, and an entry built on it, with a fresh id, whose hash and signature are right,
  is committed as the new last row.\<close>

theorem next_position_accepted:
  assumes "audit_log E P rows" "t \<noteq> []" "int (length (tenant_rows rows t)) < i64_max"
  shows "\<exists>p. next_chain_position rows t = Some (Inr p) \<and>
    (\<forall>e. ae_tenant_id e = t \<and> ae_sequence_number e = cp_next_sequence_number p \<and> ae_prev_hash e = cp_prev_hash p \<and>
       entry_gates E e = Inr () \<and> ae_entry_id e \<notin> set (map ar_entry_id rows) \<longrightarrow>
       record_commit E rows e = Some (Inr (rows @ [entry_row E None e])))"
proof -
  let ?rs = "tenant_rows rows t" and ?p = "\<lparr>cp_next_sequence_number = int (length (tenant_rows rows t)) + 1,
    cp_prev_hash = (if tenant_rows rows t = [] then GENESIS_PREV_HASH else ar_entry_hash (last (tenant_rows rows t)))\<rparr>"
  note ok = audit_log_ok[OF assms(1)]
  have chain: "chained None ?rs" using ok by (simp add: log_ok_def)
  have tail: "chain_tail rows t = last_link None ?rs" by (rule chain_tail_chained[OF chain])
  note num = chained_last[OF chain]
  have len: "length (ar_entry_hash r) = 32" if "r \<in> set ?rs" for r
    using that ok by (auto simp: log_ok_def tenant_rows_def written_row_def entry_gates_Inr)
  have "next_chain_position rows t = Some (Inr ?p)"
    using assms(2,3) tail num len[OF last_in_set] by (simp add: next_chain_position_def last_link_def next_seq_def)
  moreover have "record_commit E rows e = Some (Inr (rows @ [entry_row E None e]))"
    if e: "ae_tenant_id e = t" "ae_sequence_number e = cp_next_sequence_number ?p" "ae_prev_hash e = cp_prev_hash ?p"
      "entry_gates E e = Inr ()" "ae_entry_id e \<notin> set (map ar_entry_id rows)" for e
  proof -
    have "extends_link (chain_tail rows t) (entry_row E None e)"
      using e(2,3) assms(3) num by (simp add: tail last_link_def next_seq_def)
    moreover have "\<not> violates rows (entry_row E None e)"
      using e(1,2,5) chained_bounds[OF chain] by (force simp: violates_def list_ex_iff tenant_rows_def)
    ultimately show ?thesis using e(1,4) by (simp add: record_commit_iff appendable_def)
  qed
  ultimately show ?thesis by blast
qed

fun claim_ref :: "claim_result \<Rightarrow> audit_event_ref" where
  "claim_ref (Stored ref) = ref"
| "claim_ref (AlreadyClaimed ref) = ref"

lemma find_claim_grows: "find_claim rows h = Some ref \<Longrightarrow> find_claim (rows @ added) h = Some ref"
  by (induction rows) (auto simp: find_claim_def split: if_splits)

text \<open>C33: A content hash is claimed once. After a claim returned, with whatever result, every later claim of the same
  content hash by an entry that passes the gates is told that it is already claimed, by the same event, and writes
  nothing, whatever was written in between.\<close>

theorem event_claimed_once:
  assumes "claim_commit E rows h e = Some (Inr (res, rows1))" "log_from E P rows1 rows2" "entry_gates E e2 = Inr ()"
  shows "claim_commit E rows2 h e2 = Some (Inr (AlreadyClaimed (claim_ref res), rows2))"
proof -
  have "find_claim rows1 h = Some (claim_ref res)"
    using assms(1) by (auto simp: claim_commit_iff find_claim_append)
  with log_from_grows[OF assms(2)] have "find_claim rows2 h = Some (claim_ref res)" using find_claim_grows by blast
  then show ?thesis using assms(3) by (simp add: claim_commit_iff)
qed


section \<open>Examples\<close>

definition ex_crypto :: crypto where
  "ex_crypto = \<lparr>cr_b64_decode = (\<lambda>s. if s = ''k'' then Some (replicate 32 (CHR ''p'')) else Some (replicate 64 (CHR ''s''))),
     cr_ed25519_strict = (\<lambda>_ _ _. Inr True), cr_hybrid = (\<lambda>_ _ _ _ _. Inr ())\<rparr>"

definition ex_hex :: "string \<Rightarrow> string" where
  "ex_hex s = concat (map (\<lambda>c. [hex_digit (byte c div 16), hex_digit (byte c mod 16)]) s)"

definition ex_env :: "(string \<Rightarrow> string) \<Rightarrow> audit_env" where
  "ex_env sha = \<lparr>env_sha256 = sha, env_b64 = ex_hex, env_datetime = show_int, env_json_text = (\<lambda>_. ''null''),
     env_json_parse = (\<lambda>_. Some VNull), env_rfc3339_micros = (\<lambda>_. ''T''), env_parse_rfc3339 = (\<lambda>_. Some 0),
     env_crypto = ex_crypto\<rparr>"

definition ex_audit_entry :: "(string \<Rightarrow> string) \<Rightarrow> string \<Rightarrow> int \<Rightarrow> string \<Rightarrow> audit_entry" where
  "ex_audit_entry sha i n prev =
     (let e = \<lparr>ae_entry_id = i, ae_sequence_number = n, ae_tenant_id = ''t'', ae_actor_id = ''k'', ae_action_type = ''a'',
            ae_subject_kind = ''task'', ae_subject_id = ''s'', ae_payload = VNull, ae_prev_hash = prev,
            ae_entry_hash = [], ae_recorded_at = 0, ae_signature = ''s''\<rparr> in
      e\<lparr>ae_entry_hash := compute_entry_hash (ex_env sha) e\<rparr>)"

definition ex_first :: "(string \<Rightarrow> string) \<Rightarrow> audit_entry" where
  "ex_first sha = ex_audit_entry sha ''1'' 1 GENESIS_PREV_HASH"

definition ex_second :: "(string \<Rightarrow> string) \<Rightarrow> audit_entry" where
  "ex_second sha = ex_audit_entry sha ''2'' 2 (ae_entry_hash (ex_first sha))"

definition ex_audit_rows :: "(string \<Rightarrow> string) \<Rightarrow> audit_row list" where
  "ex_audit_rows sha = [entry_row (ex_env sha) None (ex_first sha), entry_row (ex_env sha) (Some ''c'') (ex_second sha)]"

abbreviation ex_sha :: "string \<Rightarrow> string" where
  "ex_sha \<equiv> \<lambda>_. replicate 32 (CHR ''h'')"

lemma ex_audit_entry_simps [simp]:
  "ae_entry_id (ex_audit_entry sha i n p) = i" "ae_sequence_number (ex_audit_entry sha i n p) = n"
  "ae_tenant_id (ex_audit_entry sha i n p) = ''t''" "ae_prev_hash (ex_audit_entry sha i n p) = p"
  "ae_signature (ex_audit_entry sha i n p) = ''s''" "ae_actor_id (ex_audit_entry sha i n p) = ''k''"
  "compute_entry_hash (ex_env sha) (ex_audit_entry sha i n p) = ae_entry_hash (ex_audit_entry sha i n p)"
  by (simp_all add: ex_audit_entry_def Let_def compute_entry_hash_def)

lemma ex_signature [simp]: "verify_entry_signature (ex_env sha) (ex_audit_entry sha i n p) = Inr ()"
  by (simp add: verify_entry_signature_def verify_hybrid_def verify_ed25519_only_with_policy_def apply_policy_def
      decode_b64_fixed_def ED25519_SIG_LEN_def ED25519_PUBKEY_LEN_def ex_env_def ex_crypto_def)

lemma ex_storable [simp]: "storable (ex_env sha) (ex_audit_entry sha i n p)"
  by (simp add: storable_def ex_env_def ex_audit_entry_def Let_def parse_datetime_def fmt_datetime_def)

lemma ex_hash [simp]: "ae_entry_hash (ex_audit_entry ex_sha i n p) = ex_sha []"
  by (simp add: ex_audit_entry_def Let_def compute_entry_hash_def ex_env_def)

lemma ex_gates [simp]: "1 \<le> n \<Longrightarrow> length p = 32 \<Longrightarrow> entry_gates (ex_env ex_sha) (ex_audit_entry ex_sha i n p) = Inr ()"
  by (simp add: entry_gates_Inr del: replicate.simps)

lemmas ex_unfold = ex_first_def ex_second_def ex_audit_rows_def appendable_def violates_def chain_tail_def tenant_rows_def
  next_seq_def i64_max_def GENESIS_PREV_HASH_def

lemma ex_record: "record_commit (ex_env ex_sha) [] (ex_first ex_sha) = Some (Inr [entry_row (ex_env ex_sha) None (ex_first ex_sha)])"
  unfolding record_commit_iff by (simp add: ex_unfold del: replicate.simps)

lemma ex_claim:
  "claim_commit (ex_env ex_sha) [entry_row (ex_env ex_sha) None (ex_first ex_sha)] ''c'' (ex_second ex_sha) =
     Some (Inr (Stored (row_ref (entry_row (ex_env ex_sha) (Some ''c'') (ex_second ex_sha))), ex_audit_rows ex_sha))"
  unfolding claim_commit_iff by (simp add: ex_unfold find_claim_def del: replicate.simps)

lemma ex_audit_log: "audit_log (ex_env ex_sha) (storable (ex_env ex_sha)) (ex_audit_rows ex_sha)"
proof -
  have "audit_log (ex_env ex_sha) (storable (ex_env ex_sha)) [entry_row (ex_env ex_sha) None (ex_first ex_sha)]"
    using log_from.step[OF log_from.start log_step.recorded[OF ex_record]] by (simp add: ex_first_def)
  from log_from.step[OF this log_step.claimed[OF ex_claim]] show ?thesis by (simp add: ex_second_def)
qed

lemma ex_tenant_rows [simp]: "tenant_rows (ex_audit_rows sha) ''t'' = ex_audit_rows sha" "length (ex_audit_rows sha) = 2"
  by (simp_all add: tenant_rows_def ex_audit_rows_def ex_first_def ex_second_def)

lemma ex_genesis: "genesis_zero (tenant_rows (ex_audit_rows sha) ''t'')"
  by (simp add: genesis_zero_def) (simp add: ex_audit_rows_def ex_first_def ex_second_def)


theorem truncated_chain_verifies_witness:
  "\<exists>v. verify_chain (ex_env ex_sha) (cut_rows (ex_audit_rows ex_sha) ''t'' 2 2) ''t'' 1 None = Some (Inr v) \<and> cv_outcome v = ChainOk \<and>
     cv_from_sequence v = 1 \<and> cv_entries_walked v = 1"
proof -
  have "length (tenant_rows (cut_rows (ex_audit_rows ex_sha) ''t'' 2 2) ''t'') = 1"
    by (simp add: tenant_cut_rows) (simp add: ex_audit_rows_def ex_first_def ex_second_def)
  with truncated_chain_verifies[OF ex_audit_log ex_genesis, of 2 2] show ?thesis by simp
qed

lemma ex_decode:
  "list_all2 (\<lambda>r e. decode_entry_row (ex_env sha) r = Inr e) (range_rows (ex_audit_rows sha) ''t'' 1 2) [ex_first sha, ex_second sha]"
  by (simp add: range_rows_def) (simp add: ex_audit_rows_def ex_first_def ex_second_def decode_written_row)

lemma ex_sound:
  "list_all (sound_entry (ex_env sha)) [ex_first sha, ex_second sha]" "successively follows [ex_first sha, ex_second sha]"
  by (simp_all add: ex_first_def ex_second_def sound_entry_def follows_def)

theorem verify_chain_ok_iff_witness:
  "\<exists>v. verify_chain (ex_env id) (ex_audit_rows id) ''t'' 1 (Some 2) = Some (Inr v) \<and> cv_outcome v = ChainOk"
proof -
  have "\<forall>r \<in> set (ex_audit_rows id). ar_sequence_number r \<le> i64_max"
    by (simp add: ex_audit_rows_def ex_first_def ex_second_def i64_max_def)
  from verify_chain_ok_iff[OF _ _ _ this, of "''t''" 1 "Some 2" "ex_env id"] show ?thesis
    using ex_decode[of id] ex_sound[of id]
    by (fastforce simp: resolved_to_def ex_first_def)
qed

theorem next_position_accepted_witness:
  "next_chain_position (ex_audit_rows ex_sha) ''t'' = Some (Inr \<lparr>cp_next_sequence_number = 3, cp_prev_hash = ex_sha []\<rparr>) \<and>
   record_commit (ex_env ex_sha) (ex_audit_rows ex_sha) (ex_audit_entry ex_sha ''3'' 3 (ex_sha [])) =
     Some (Inr (ex_audit_rows ex_sha @ [entry_row (ex_env ex_sha) None (ex_audit_entry ex_sha ''3'' 3 (ex_sha []))]))"
proof -
  have pos: "next_chain_position (ex_audit_rows ex_sha) ''t'' = Some (Inr \<lparr>cp_next_sequence_number = 3, cp_prev_hash = ex_sha []\<rparr>)"
    by (simp add: next_chain_position_def ex_unfold del: replicate.simps)
  have "int (length (tenant_rows (ex_audit_rows ex_sha) ''t'')) < i64_max" by (simp add: i64_max_def)
  from next_position_accepted[OF ex_audit_log _ this] pos show ?thesis
    by (simp del: replicate.simps) (simp add: ex_audit_rows_def ex_first_def ex_second_def del: replicate.simps)
qed

theorem event_claimed_once_witness:
  "claim_commit (ex_env ex_sha) (ex_audit_rows ex_sha) ''c'' (ex_audit_entry ex_sha ''3'' 3 (ex_sha [])) =
     Some (Inr (AlreadyClaimed \<lparr>er_entry_id = ''2'', er_tenant_id = ''t'', er_sequence_number = 2\<rparr>, ex_audit_rows ex_sha))"
proof -
  have "entry_gates (ex_env ex_sha) (ex_audit_entry ex_sha ''3'' 3 (ex_sha [])) = Inr ()" by (simp del: replicate.simps)
  from event_claimed_once[OF ex_claim log_from.start this] show ?thesis by (simp add: row_ref_def ex_second_def)
qed


lemma hex_digit_inject: "a < 16 \<Longrightarrow> b < 16 \<Longrightarrow> hex_digit a = hex_digit b \<longleftrightarrow> a = b"
  using hex_value_digit by metis

lemma nibbles: "byte c div 16 < 16" "byte c mod 16 < 16"
  using byte_less[of c] by (simp_all add: div_less_iff_less_mult)

lemma ex_hex_inject: "ex_hex s = ex_hex t \<Longrightarrow> s = t"
proof (induction s arbitrary: t)
  case (Cons c s)
  then obtain d t' where t: "t = d # t'" by (cases t) (auto simp: ex_hex_def)
  have "byte c div 16 = byte d div 16 \<and> byte c mod 16 = byte d mod 16 \<and> ex_hex s = ex_hex t'"
    using Cons.prems by (simp add: t ex_hex_def hex_digit_inject nibbles)
  then have "byte c = byte d" "s = t'" using Cons.IH by (metis div_mult_mod_eq, blast)
  then show ?case by (simp add: t)
qed (auto simp: ex_hex_def elim: list.set_cases)

lemma ex_encoding_laws: "encoding_laws (ex_env sha)"
proof -
  have "byte (hex_digit (byte c div 16)) < 128 \<and> byte (hex_digit (byte c mod 16)) < 128" for c
    using hex_digit_printable[OF nibbles(1)[of c]] hex_digit_printable[OF nibbles(2)[of c]] by simp
  then have "utf8 (ex_hex s)" for s by (intro utf8_ascii) (auto simp: ex_hex_def list_all_iff)
  then show ?thesis
    using ex_hex_inject by (simp add: encoding_laws_def ex_env_def show_int_utf8 inj_def show_int_inject)
qed

definition ex_resigned :: "audit_row list" where
  "ex_resigned = map (\<lambda>r. r\<lparr>ar_signature := ''z''\<rparr>) (ex_audit_rows id)"

abbreviation ex_resign :: "audit_entry \<Rightarrow> audit_entry" where
  "ex_resign e \<equiv> e\<lparr>ae_signature := ''z''\<rparr>"

lemma ex_resign_sound [simp]:
  "compute_entry_hash (ex_env id) (ex_resign (ex_audit_entry id i n p)) = ae_entry_hash (ex_audit_entry id i n p)"
  "verify_entry_signature (ex_env id) (ex_resign (ex_audit_entry id i n p)) = Inr ()"
  by (simp_all add: ex_audit_entry_def Let_def compute_entry_hash_def verify_entry_signature_def verify_hybrid_def
      verify_ed25519_only_with_policy_def apply_policy_def decode_b64_fixed_def ED25519_SIG_LEN_def ED25519_PUBKEY_LEN_def
      ex_env_def ex_crypto_def)

lemma ex_resign_decode [simp]:
  "decode_entry_row (ex_env id) (entry_row (ex_env id) h (ex_audit_entry id i n p)\<lparr>ar_signature := ''z''\<rparr>) =
     Inr (ex_resign (ex_audit_entry id i n p))"
  using ex_storable[of id i n p]
  by (simp add: decode_entry_row_def entry_row_def storable_def)

lemma ex_chains:
  "verified_whole (ex_env id) (ex_audit_rows id) ''t''" "verified_whole (ex_env id) ex_resigned ''t''"
  "chain_entries (ex_env id) (ex_audit_rows id) ''t'' = [ex_first id, ex_second id]"
  "chain_entries (ex_env id) ex_resigned ''t'' = [ex_resign (ex_first id), ex_resign (ex_second id)]"
  "chain_tail (ex_audit_rows id) ''t'' = chain_tail ex_resigned ''t''"
  by (simp_all add: verified_whole_def verify_chain_def chain_entries_def chain_tail_def max_seq_def range_rows_def
      tenant_rows_def ex_resigned_def ex_audit_rows_def ex_first_def ex_second_def decode_written_row link_break_def content_break_def
      next_seq_def i64_max_def)

lemma ex_audit_entry_text: "entry_text (ex_audit_entry sha i n p) \<longleftrightarrow> utf8 i" "entry_text (ex_resign (ex_audit_entry id i n p)) \<longleftrightarrow> utf8 i"
proof -
  have "utf8 ''t''" "utf8 ''k''" "utf8 ''a''" "utf8 ''task''" "utf8 ''s''" "utf8 ''z''" by (rule utf8_ascii, simp)+
  then show "entry_text (ex_audit_entry sha i n p) \<longleftrightarrow> utf8 i" "entry_text (ex_resign (ex_audit_entry id i n p)) \<longleftrightarrow> utf8 i"
    by (simp_all add: entry_text_def) (simp_all add: ex_audit_entry_def Let_def)
qed


end
