(* ===== verification/Audit_Service.thy ===== *)
theory Audit_Service
  imports Audit_Chain
begin

text \<open>
  The whole write path of the SQLite audit backend: after the chain's commit come the Merkle transparency hook
  (\<open>src/src/audit/merkle_leaf.rs\<close>, \<open>merkle_store.rs\<close>, \<open>merkle_hook_sqlite\<close>) and the projection of trust grants
  (\<open>project_trust_grant_sqlite\<close>, \<open>src/src/federation/trust_grant.rs\<close>), each outside the commit's transaction.
  \<open>list_entries\<close> reads the log page by page.

  The connection's mutex is taken once per store call, so the hook is a machine with one step per lock region:
  \<open>merkle_hook\<close> runs its steps in a row, and an interleaving of two hooks is a sequence of single steps. The
  transparency library, the signer and the clock are parameters.
\<close>

section \<open>Merkle leaves and tree heads\<close>

record audit_leaf =
  lf_entry :: audit_entry
  lf_chain_event_id :: int

definition leaf_canonical_bytes :: "audit_env \<Rightarrow> audit_leaf \<Rightarrow> string" where
  "leaf_canonical_bytes E leaf = canonical_bytes_for_entry E ((lf_entry leaf)\<lparr>ae_entry_hash := [], ae_signature := []\<rparr>)"

record leaf_row =
  lr_tenant_id :: string
  lr_leaf_index :: nat
  lr_chain_event_id :: int
  lr_leaf_hash :: string
  lr_canonical_bytes :: string
  lr_leaf_serialized :: string

text \<open>A hybrid signature is kept in its serialized form; no witness signature is ever stored.\<close>

record signed_tree_head =
  th_log_id :: string
  th_tree_size :: nat
  th_root_hash :: string
  th_timestamp :: instant
  th_signature :: string
  th_witness_signatures :: "string list"

record sth_row =
  sr_tenant_id :: string
  sr_tree_size :: nat
  sr_root_hash :: string
  sr_signed_at :: string
  sr_signer_key_id :: string
  sr_signature_blob :: string

text \<open>The libraries of the hook: the RFC 6962 leaf hash, the serialized leaf, the root of a list of leaf hashes, the
  bytes a tree head signs, and the key id of a signature.\<close>

record hook_env =
  hk_hash_leaf :: "string \<Rightarrow> string"
  hk_leaf_json :: "audit_leaf \<Rightarrow> string"
  hk_merkle_root :: "string list \<Rightarrow> string"
  hk_signing_bytes :: "string \<Rightarrow> nat \<Rightarrow> string \<Rightarrow> instant \<Rightarrow> string"
  hk_signer_key_id :: "string \<Rightarrow> string"

definition log_id_for_tenant :: "string \<Rightarrow> string" where
  "log_id_for_tenant tenant = ''tenant:'' @ tenant"

definition tenant_leaves :: "leaf_row list \<Rightarrow> string \<Rightarrow> leaf_row list" where
  "tenant_leaves leaves tenant = filter (\<lambda>l. lr_tenant_id l = tenant) leaves"

definition tree_size :: "leaf_row list \<Rightarrow> string \<Rightarrow> nat" where
  "tree_size leaves tenant = length (tenant_leaves leaves tenant)"

text \<open>Storage errors are one value; the constraints of \<open>merkle_leaves\<close> are its key, the unique chain event and the
  length of the hash.\<close>

datatype store_error = StorageError

definition append_leaf ::
  "audit_env \<Rightarrow> hook_env \<Rightarrow> leaf_row list \<Rightarrow> string \<Rightarrow> audit_leaf \<Rightarrow> store_error + nat \<times> leaf_row list" where
  "append_leaf E H leaves tenant leaf =
     (let canonical = leaf_canonical_bytes E leaf; n = tree_size leaves tenant; h = hk_hash_leaf H canonical in
      if list_ex (\<lambda>l. lr_tenant_id l = tenant \<and> (lr_leaf_index l = n \<or> lr_chain_event_id l = lf_chain_event_id leaf)) leaves \<or>
         length h \<noteq> 32
      then Inl StorageError
      else Inr (n, leaves @ [\<lparr>lr_tenant_id = tenant, lr_leaf_index = n, lr_chain_event_id = lf_chain_event_id leaf,
                              lr_leaf_hash = h, lr_canonical_bytes = canonical, lr_leaf_serialized = hk_leaf_json H leaf\<rparr>]))"

definition leaf_hash_from_bytes :: "string \<Rightarrow> store_error + string" where
  "leaf_hash_from_bytes raw = (if length raw = 32 then Inr raw else Inl StorageError)"

definition all_leaf_hashes :: "leaf_row list \<Rightarrow> string \<Rightarrow> store_error + string list" where
  "all_leaf_hashes leaves tenant =
     try_map (\<lambda>l. leaf_hash_from_bytes (lr_leaf_hash l)) (sort_key lr_leaf_index (tenant_leaves leaves tenant))"

definition leaf_hash :: "leaf_row list \<Rightarrow> string \<Rightarrow> nat \<Rightarrow> store_error + string option" where
  "leaf_hash leaves tenant index =
     (if i64_max < int index then Inl StorageError
      else case find (\<lambda>l. lr_leaf_index l = index) (tenant_leaves leaves tenant) of
             None \<Rightarrow> Inr None
           | Some l \<Rightarrow> and_then (leaf_hash_from_bytes (lr_leaf_hash l)) (\<lambda>h. Inr (Some h)))"

definition store_sth ::
  "audit_env \<Rightarrow> hook_env \<Rightarrow> sth_row list \<Rightarrow> string \<Rightarrow> signed_tree_head \<Rightarrow> store_error + sth_row list" where
  "store_sth E H sths tenant sth =
     (if i64_max < int (th_tree_size sth) then Inl StorageError
      else if th_witness_signatures sth \<noteq> [] then Inl StorageError
      else if length (th_root_hash sth) \<noteq> 32 then Inl StorageError
      else if list_ex (\<lambda>r. sr_tenant_id r = tenant \<and> sr_tree_size r = th_tree_size sth) sths then Inr sths
      else Inr (sths @ [\<lparr>sr_tenant_id = tenant, sr_tree_size = th_tree_size sth, sr_root_hash = th_root_hash sth,
                         sr_signed_at = fmt_datetime E (th_timestamp sth),
                         sr_signer_key_id = hk_signer_key_id H (th_signature sth),
                         sr_signature_blob = th_signature sth\<rparr>]))"

definition latest_sth :: "audit_env \<Rightarrow> sth_row list \<Rightarrow> string \<Rightarrow> store_error + signed_tree_head option" where
  "latest_sth E sths tenant =
     (case sort_key (\<lambda>r. - int (sr_tree_size r)) (filter (\<lambda>r. sr_tenant_id r = tenant) sths) of
        [] \<Rightarrow> Inr None
      | r # _ \<Rightarrow>
          (case parse_datetime E (sr_signed_at r) of
             Inl _ \<Rightarrow> Inl StorageError
           | Inr t \<Rightarrow>
               if length (sr_root_hash r) \<noteq> 32 then Inl StorageError
               else Inr (Some \<lparr>th_log_id = log_id_for_tenant tenant, th_tree_size = sr_tree_size r,
                              th_root_hash = sr_root_hash r, th_timestamp = t, th_signature = sr_signature_blob r,
                              th_witness_signatures = []\<rparr>)))"

definition current_sth :: "audit_env \<Rightarrow> sth_row list \<Rightarrow> string \<Rightarrow> audit_error + signed_tree_head option" where
  "current_sth E sths tenant =
     (if tenant = [] then Inl AuditInvalidArgument
      else case latest_sth E sths tenant of Inl _ \<Rightarrow> Inl AuditMerkle | Inr x \<Rightarrow> Inr x)"

section \<open>Trust grants\<close>

datatype trust_purpose = Technical | Deferral | Contribution | Service

fun purpose_str :: "trust_purpose \<Rightarrow> string" where
  "purpose_str Technical = ''technical''"
| "purpose_str Deferral = ''deferral''"
| "purpose_str Contribution = ''contribution''"
| "purpose_str Service = ''service''"

definition parse_purpose :: "string \<Rightarrow> trust_purpose option" where
  "parse_purpose s =
     (if s = ''technical'' then Some Technical
      else if s = ''deferral'' then Some Deferral
      else if s = ''contribution'' then Some Contribution
      else if s = ''service'' then Some Service
      else None)"

definition TRUST_GRANT_SUBJECT_KIND :: string where
  "TRUST_GRANT_SUBJECT_KIND = ''trust_grant''"

record trust_grant_payload =
  tg_grantee_key :: string
  tg_purpose :: trust_purpose
  tg_scope :: string
  tg_expires_at :: "instant option"
  tg_rationale :: string

record grant_row =
  gr_grant_id :: string
  gr_grantee_key :: string
  gr_granter_key :: string
  gr_purpose :: string
  gr_scope :: string
  gr_granted_at :: string
  gr_expires_at :: "string option"
  gr_revoked_at :: "string option"
  gr_revoked_by :: "string option"
  gr_chain_event_id :: int
  gr_chain_event_hash :: string
  gr_tenant_id :: string

definition grant_key :: "grant_row \<Rightarrow> string \<times> string \<times> string \<times> string" where
  "grant_key g = (gr_grantee_key g, gr_granter_key g, gr_purpose g, gr_scope g)"

text \<open>The tables of the backend; \<open>db_keys\<close> are the key ids of \<open>federation_keys\<close>, which the grants refer to.\<close>

record audit_db =
  db_rows :: "audit_row list"
  db_leaves :: "leaf_row list"
  db_sths :: "sth_row list"
  db_grants :: "grant_row list"
  db_keys :: "string list"

text \<open>The update half of the upsert keeps the grant id.\<close>

definition upsert_grant :: "string list \<Rightarrow> grant_row list \<Rightarrow> grant_row \<Rightarrow> audit_error + grant_row list" where
  "upsert_grant keys grants g =
     (if gr_grantee_key g \<notin> set keys \<or> gr_granter_key g \<notin> set keys \<or> gr_granter_key g = gr_grantee_key g \<or>
         list_ex (\<lambda>q. gr_grant_id q = gr_grant_id g) grants \<or>
         list_ex (\<lambda>q. gr_tenant_id q = gr_tenant_id g \<and> gr_chain_event_id q = gr_chain_event_id g) grants
      then Inl AuditTrustGrant
      else if list_ex (\<lambda>q. grant_key q = grant_key g) grants
      then Inr (map (\<lambda>q. if grant_key q = grant_key g then g\<lparr>gr_grant_id := gr_grant_id q\<rparr> else q) grants)
      else Inr (grants @ [g]))"

text \<open>\<open>read_payload\<close> is the derived deserializer of \<open>TrustGrantPayload\<close>; \<open>new_grant_id\<close> is the fresh UUID.\<close>

definition project_trust_grant ::
  "audit_env \<Rightarrow> (jvalue \<Rightarrow> trust_grant_payload option) \<Rightarrow> instant \<Rightarrow> string \<Rightarrow> audit_db \<Rightarrow> audit_entry \<Rightarrow> int \<Rightarrow>
     (audit_error + unit) \<times> audit_db" where
  "project_trust_grant E read_payload now new_grant_id db e chain_event_id =
     (case read_payload (ae_payload e) of
        None \<Rightarrow> (Inl AuditTrustGrant, db)
      | Some payload \<Rightarrow>
          if ae_actor_id e = tg_grantee_key payload then (Inl AuditTrustGrant, db)
          else
            let expires_at = map_option (fmt_datetime E) (tg_expires_at payload);
                now_str = fmt_datetime E now;
                is_revocation = (case expires_at of None \<Rightarrow> False | Some x \<Rightarrow> x \<le> now_str) in
            case upsert_grant (db_keys db) (db_grants db)
                   \<lparr>gr_grant_id = new_grant_id, gr_grantee_key = tg_grantee_key payload, gr_granter_key = ae_actor_id e,
                    gr_purpose = purpose_str (tg_purpose payload), gr_scope = tg_scope payload,
                    gr_granted_at = fmt_datetime E (ae_recorded_at e), gr_expires_at = expires_at,
                    gr_revoked_at = (if is_revocation then Some now_str else None),
                    gr_revoked_by = (if is_revocation then Some (ae_actor_id e) else None),
                    gr_chain_event_id = chain_event_id, gr_chain_event_hash = ae_entry_hash e,
                    gr_tenant_id = ae_tenant_id e\<rparr> of
              Inl err \<Rightarrow> (Inl err, db)
            | Inr grants \<Rightarrow> (Inr (), db\<lparr>db_grants := grants\<rparr>))"

section \<open>The Merkle hook\<close>

datatype hook_state =
    HookAppend
  | HookSize
  | HookRoot nat
  | HookSign nat string
  | HookStore signed_tree_head
  | HookDone "audit_error + unit"

text \<open>One lock region (or the signing) of the hook of one entry. \<open>sign\<close> is the installed signer.\<close>

definition hook_step ::
  "audit_env \<Rightarrow> hook_env \<Rightarrow> (string \<Rightarrow> string option) \<Rightarrow> instant \<Rightarrow> audit_entry \<Rightarrow> int \<Rightarrow> hook_state \<times> audit_db \<Rightarrow> hook_state \<times> audit_db" where
  "hook_step E H sign now e chain_event_id = (\<lambda>(st, db).
     let tenant = ae_tenant_id e; log_id = log_id_for_tenant tenant in
     case st of
       HookAppend \<Rightarrow>
         (case append_leaf E H (db_leaves db) tenant \<lparr>lf_entry = e, lf_chain_event_id = chain_event_id\<rparr> of
            Inl _ \<Rightarrow> (HookDone (Inl AuditMerkle), db)
          | Inr (_, leaves) \<Rightarrow> (HookSize, db\<lparr>db_leaves := leaves\<rparr>))
     | HookSize \<Rightarrow> (HookRoot (tree_size (db_leaves db) tenant), db)
     | HookRoot n \<Rightarrow>
         (case all_leaf_hashes (db_leaves db) tenant of
            Inl _ \<Rightarrow> (HookDone (Inl AuditMerkle), db)
          | Inr hashes \<Rightarrow> (HookSign n (hk_merkle_root H hashes), db))
     | HookSign n root_hash \<Rightarrow>
         (case sign (hk_signing_bytes H log_id n root_hash now) of
            None \<Rightarrow> (HookDone (Inl AuditMerkle), db)
          | Some signature \<Rightarrow>
              (HookStore \<lparr>th_log_id = log_id, th_tree_size = n, th_root_hash = root_hash, th_timestamp = now,
                          th_signature = signature, th_witness_signatures = []\<rparr>, db))
     | HookStore sth \<Rightarrow>
         (case store_sth E H (db_sths db) tenant sth of
            Inl _ \<Rightarrow> (HookDone (Inl AuditMerkle), db)
          | Inr sths \<Rightarrow> (HookDone (Inr ()), db\<lparr>db_sths := sths\<rparr>))
     | HookDone r \<Rightarrow> (HookDone r, db))"

fun hook_result :: "hook_state \<Rightarrow> audit_error + unit" where
  "hook_result (HookDone r) = r"
| "hook_result _ = Inl AuditInternal"

text \<open>The hook of one call, with no other step in between; five steps always end it.\<close>

definition merkle_hook ::
  "audit_env \<Rightarrow> hook_env \<Rightarrow> (string \<Rightarrow> string option) option \<Rightarrow> instant \<Rightarrow> audit_db \<Rightarrow> audit_entry \<Rightarrow> int \<Rightarrow>
     (audit_error + unit) \<times> audit_db" where
  "merkle_hook E H signer now db e chain_event_id =
     (case signer of
        None \<Rightarrow> (Inr (), db)
      | Some sign \<Rightarrow>
          (case (hook_step E H sign now e chain_event_id ^^ 5) (HookAppend, db) of (st, db') \<Rightarrow> (hook_result st, db')))"

section \<open>The two writes\<close>

text \<open>What a call reads from outside: the clock, at the tree head and at the projection, and a fresh UUID.\<close>

record call_inputs =
  in_sth_time :: instant
  in_grant_time :: instant
  in_grant_id :: string

record service =
  sv_env :: audit_env
  sv_hook :: hook_env
  sv_signer :: "(string \<Rightarrow> string option) option"
  sv_read_payload :: "jvalue \<Rightarrow> trust_grant_payload option"

definition after_commit ::
  "service \<Rightarrow> call_inputs \<Rightarrow> audit_db \<Rightarrow> audit_entry \<Rightarrow> (audit_error + unit) \<times> audit_db" where
  "after_commit S inp db e =
     (case merkle_hook (sv_env S) (sv_hook S) (sv_signer S) (in_sth_time inp) db e (ae_sequence_number e) of
        (Inl err, db1) \<Rightarrow> (Inl err, db1)
      | (Inr _, db1) \<Rightarrow>
          if ae_subject_kind e = TRUST_GRANT_SUBJECT_KIND
          then project_trust_grant (sv_env S) (sv_read_payload S) (in_grant_time inp) (in_grant_id inp) db1 e (ae_sequence_number e)
          else (Inr (), db1))"

definition record_entry :: "service \<Rightarrow> call_inputs \<Rightarrow> audit_db \<Rightarrow> audit_entry \<Rightarrow> ((audit_error + unit) \<times> audit_db) option" where
  "record_entry S inp db e =
     (case record_commit (sv_env S) (db_rows db) e of
        None \<Rightarrow> None
      | Some (Inl err) \<Rightarrow> Some (Inl err, db)
      | Some (Inr rows) \<Rightarrow> Some (after_commit S inp (db\<lparr>db_rows := rows\<rparr>) e))"

definition try_claim_event ::
  "service \<Rightarrow> call_inputs \<Rightarrow> audit_db \<Rightarrow> string \<Rightarrow> audit_entry \<Rightarrow> ((audit_error + claim_result) \<times> audit_db) option" where
  "try_claim_event S inp db content_hash e =
     (case claim_commit (sv_env S) (db_rows db) content_hash e of
        None \<Rightarrow> None
      | Some (Inl err) \<Rightarrow> Some (Inl err, db)
      | Some (Inr (AlreadyClaimed ref, rows)) \<Rightarrow> Some (Inr (AlreadyClaimed ref), db\<lparr>db_rows := rows\<rparr>)
      | Some (Inr (Stored ref, rows)) \<Rightarrow>
          (case after_commit S inp (db\<lparr>db_rows := rows\<rparr>) e of
             (Inl err, db1) \<Rightarrow> Some (Inl err, db1)
           | (Inr _, db1) \<Rightarrow> Some (Inr (Stored ref), db1)))"

section \<open>What a call changes\<close>

lemma append_leaf_Inr:
  "append_leaf E H leaves tenant leaf = Inr (n, leaves') \<longleftrightarrow>
     n = tree_size leaves tenant \<and>
     \<not> list_ex (\<lambda>l. lr_tenant_id l = tenant \<and> (lr_leaf_index l = n \<or> lr_chain_event_id l = lf_chain_event_id leaf)) leaves \<and>
     length (hk_hash_leaf H (leaf_canonical_bytes E leaf)) = 32 \<and>
     leaves' = leaves @ [\<lparr>lr_tenant_id = tenant, lr_leaf_index = n, lr_chain_event_id = lf_chain_event_id leaf,
       lr_leaf_hash = hk_hash_leaf H (leaf_canonical_bytes E leaf), lr_canonical_bytes = leaf_canonical_bytes E leaf,
       lr_leaf_serialized = hk_leaf_json H leaf\<rparr>]"
  by (auto simp: append_leaf_def Let_def)

text \<open>The five steps in a row.\<close>

lemma merkle_hook_run:
  "merkle_hook E H (Some sign) now db e c =
     (let t = ae_tenant_id e in
      case append_leaf E H (db_leaves db) t \<lparr>lf_entry = e, lf_chain_event_id = c\<rparr> of
        Inl _ \<Rightarrow> (Inl AuditMerkle, db)
      | Inr (_, leaves) \<Rightarrow>
          (case all_leaf_hashes leaves t of
             Inl _ \<Rightarrow> (Inl AuditMerkle, db\<lparr>db_leaves := leaves\<rparr>)
           | Inr hashes \<Rightarrow>
               let n = tree_size leaves t; root_hash = hk_merkle_root H hashes in
               case sign (hk_signing_bytes H (log_id_for_tenant t) n root_hash now) of
                 None \<Rightarrow> (Inl AuditMerkle, db\<lparr>db_leaves := leaves\<rparr>)
               | Some sg \<Rightarrow>
                   (case store_sth E H (db_sths db) t
                           \<lparr>th_log_id = log_id_for_tenant t, th_tree_size = n, th_root_hash = root_hash, th_timestamp = now,
                            th_signature = sg, th_witness_signatures = []\<rparr> of
                      Inl _ \<Rightarrow> (Inl AuditMerkle, db\<lparr>db_leaves := leaves\<rparr>)
                    | Inr sths \<Rightarrow> (Inr (), db\<lparr>db_leaves := leaves, db_sths := sths\<rparr>))))"
  by (simp add: merkle_hook_def hook_step_def Let_def numeral_eq_Suc split: sum.split option.split prod.split)

lemma merkle_hook_cases:
  assumes "merkle_hook E H (Some sign) now db e c = (r, db')"
  obtains (refused) "r = Inl AuditMerkle" "db' = db"
  | (unsigned) n leaves where "r = Inl AuditMerkle" "db' = db\<lparr>db_leaves := leaves\<rparr>"
      "append_leaf E H (db_leaves db) (ae_tenant_id e) \<lparr>lf_entry = e, lf_chain_event_id = c\<rparr> = Inr (n, leaves)"
  | (stored) n leaves hashes sths sg where "r = Inr ()" "db' = db\<lparr>db_leaves := leaves, db_sths := sths\<rparr>"
      "append_leaf E H (db_leaves db) (ae_tenant_id e) \<lparr>lf_entry = e, lf_chain_event_id = c\<rparr> = Inr (n, leaves)"
      "all_leaf_hashes leaves (ae_tenant_id e) = Inr hashes"
      "store_sth E H (db_sths db) (ae_tenant_id e)
         \<lparr>th_log_id = log_id_for_tenant (ae_tenant_id e), th_tree_size = tree_size leaves (ae_tenant_id e),
          th_root_hash = hk_merkle_root H hashes, th_timestamp = now, th_signature = sg, th_witness_signatures = []\<rparr> = Inr sths"
  using assms unfolding merkle_hook_run Let_def
  by (auto split: sum.splits option.splits prod.splits)

lemma merkle_hook_keeps:
  assumes "merkle_hook E H signer now db e c = (r, db')"
  shows "db_rows db' = db_rows db \<and> db_grants db' = db_grants db \<and> db_keys db' = db_keys db \<and>
    (r = Inr () \<or> r = Inl AuditMerkle)"
proof (cases signer)
  case None
  then show ?thesis using assms by (simp add: merkle_hook_def)
next
  case (Some sign)
  from assms[unfolded Some] show ?thesis by (cases rule: merkle_hook_cases) simp_all
qed

lemma project_keeps:
  assumes "project_trust_grant E rp now i db e c = (r, db')"
  shows "db_rows db' = db_rows db \<and> db_leaves db' = db_leaves db \<and> db_sths db' = db_sths db \<and> db_keys db' = db_keys db \<and>
    (r = Inr () \<or> r = Inl AuditTrustGrant \<and> db' = db)"
  using assms
  by (auto simp: project_trust_grant_def upsert_grant_def Let_def split: option.splits if_splits sum.splits)

lemma after_commit_keeps:
  assumes "after_commit S inp db e = (r, db')"
  shows "db_rows db' = db_rows db \<and> db_keys db' = db_keys db \<and> (r = Inr () \<or> r = Inl AuditMerkle \<or> r = Inl AuditTrustGrant)"
  using assms unfolding after_commit_def
  by (auto split: prod.splits sum.splits if_splits dest!: merkle_hook_keeps project_keeps)

lemma record_commit_Inl:
  "record_commit E rows e = Some (Inl err) \<Longrightarrow> err \<noteq> AuditMerkle \<and> err \<noteq> AuditTrustGrant"
  by (auto simp: record_commit_def run_then_def entry_gates_def verify_entry_signature_def chain_gates_def insert_row_def
      split: option.splits sum.splits if_splits)

text \<open>C38: The error tells whether the entry is in the chain. \<open>record_entry\<close> returns an error that is neither of the
  Merkle hook nor of the grant projection exactly when the database is unchanged; with success, and with an error of
  either of these two, the entry is the new last row of the log, and no other row of the log changed.\<close>

theorem record_entry_reports:
  assumes "record_entry S inp db e = Some (r, db')"
  shows "(\<exists>err. r = Inl err \<and> err \<noteq> AuditMerkle \<and> err \<noteq> AuditTrustGrant \<and> db' = db) \<or>
    (r \<in> {Inr (), Inl AuditMerkle, Inl AuditTrustGrant} \<and> db_rows db' = db_rows db @ [entry_row (sv_env S) None e])"
proof (cases "record_commit (sv_env S) (db_rows db) e")
  case (Some x)
  show ?thesis
  proof (cases x)
    case (Inl err)
    then show ?thesis using assms Some record_commit_Inl[of "sv_env S" "db_rows db" e err] by (auto simp: record_entry_def)
  next
    case (Inr rows)
    then have "rows = db_rows db @ [entry_row (sv_env S) None e]" using Some by (simp add: record_commit_iff)
    then show ?thesis using assms Some Inr after_commit_keeps[of S inp "db\<lparr>db_rows := rows\<rparr>" e r db'] by (auto simp: record_entry_def)
  qed
qed (use assms in \<open>simp add: record_entry_def\<close>)

section \<open>Tree heads of calls in a row\<close>

inductive service_run :: "service \<Rightarrow> audit_db \<Rightarrow> bool" for S where
  init: "service_run S \<lparr>db_rows = [], db_leaves = [], db_sths = [], db_grants = [], db_keys = keys\<rparr>"
| recorded: "service_run S db \<Longrightarrow> record_entry S inp db e = Some (r, db') \<Longrightarrow> service_run S db'"
| claimed: "service_run S db \<Longrightarrow> try_claim_event S inp db h e = Some (res, db') \<Longrightarrow> service_run S db'"

lemma after_commit_run:
  assumes "try_claim_event S inp db h e = Some (res, db')"
  obtains (kept) "db' = db"
  | (stored) r where "after_commit S inp (db\<lparr>db_rows := db_rows db @ [entry_row (sv_env S) (Some h) e]\<rparr>) e = (r, db')"
      "appendable (sv_env S) (db_rows db) (Some h) e"
proof (cases "claim_commit (sv_env S) (db_rows db) h e")
  case (Some x)
  show ?thesis
  proof (cases x)
    case (Inr y)
    obtain cr rows where y: "y = (cr, rows)" by (cases y)
    from Some Inr y consider ref where "cr = AlreadyClaimed ref" "rows = db_rows db"
      | "\<exists>ref. cr = Stored ref" "rows = db_rows db @ [entry_row (sv_env S) (Some h) e]" "appendable (sv_env S) (db_rows db) (Some h) e"
      by (auto simp: claim_commit_iff)
    then show ?thesis
    proof cases
      case 1
      then show ?thesis using assms Some Inr y kept by (simp add: try_claim_event_def)
    next
      case 2
      then show ?thesis using assms Some Inr y stored
        by (auto simp: try_claim_event_def split: prod.splits sum.splits)
    qed
  qed (use assms Some kept in \<open>simp add: try_claim_event_def\<close>)
qed (use assms in \<open>simp add: try_claim_event_def\<close>)

text \<open>The leaves of a tenant are numbered in order, and each is the leaf of a row of the log: its bytes are those the
  row's chain hash was taken of.\<close>

definition leaf_bound :: "audit_env \<Rightarrow> hook_env \<Rightarrow> audit_row list \<Rightarrow> leaf_row \<Rightarrow> bool" where
  "leaf_bound E H rows l \<longleftrightarrow>
     length (lr_leaf_hash l) = 32 \<and> lr_leaf_hash l = hk_hash_leaf H (lr_canonical_bytes l) \<and>
     list_ex (\<lambda>r. ar_tenant_id r = lr_tenant_id l \<and> ar_sequence_number r = lr_chain_event_id l \<and>
        ar_entry_hash r = env_sha256 E (lr_canonical_bytes l)) rows"

definition head_ok :: "hook_env \<Rightarrow> leaf_row list \<Rightarrow> sth_row \<Rightarrow> bool" where
  "head_ok H leaves r \<longleftrightarrow>
     sr_tree_size r \<le> tree_size leaves (sr_tenant_id r) \<and>
     sr_root_hash r = hk_merkle_root H (map lr_leaf_hash (take (sr_tree_size r) (tenant_leaves leaves (sr_tenant_id r))))"

definition tree_ok :: "service \<Rightarrow> audit_db \<Rightarrow> bool" where
  "tree_ok S db \<longleftrightarrow>
     (\<forall>t. map lr_leaf_index (tenant_leaves (db_leaves db) t) = [0..<tree_size (db_leaves db) t]) \<and>
     list_all (leaf_bound (sv_env S) (sv_hook S) (db_rows db)) (db_leaves db) \<and>
     list_all (head_ok (sv_hook S) (db_leaves db)) (db_sths db)"

lemma tenant_leaves_append [simp]:
  "tenant_leaves (ls @ [l]) t = tenant_leaves ls t @ (if lr_tenant_id l = t then [l] else [])"
  by (simp add: tenant_leaves_def)

lemma append_leaf_size: "append_leaf E H ls t leaf = Inr (n, ls') \<Longrightarrow> n = tree_size ls t \<and> tree_size ls' t = tree_size ls t + 1"
  by (simp add: append_leaf_Inr) (simp add: tree_size_def)

lemma head_ok_grows: "head_ok H ls r \<Longrightarrow> head_ok H (ls @ [l]) r"
  by (simp add: head_ok_def tree_size_def)

lemma all_leaf_hashes_ok:
  assumes "map lr_leaf_index (tenant_leaves ls t) = [0..<tree_size ls t]" "\<forall>l \<in> set ls. length (lr_leaf_hash l) = 32"
  shows "all_leaf_hashes ls t = Inr (map lr_leaf_hash (tenant_leaves ls t))"
proof -
  have "sort_key lr_leaf_index (tenant_leaves ls t) = tenant_leaves ls t"
    by (rule sort_key_id_if_sorted) (simp add: assms(1))
  moreover have "list_all2 (\<lambda>l h. leaf_hash_from_bytes (lr_leaf_hash l) = Inr h) qs (map lr_leaf_hash qs)"
    if "set qs \<subseteq> set ls" for qs
    using that assms(2) by (induction qs) (auto simp: leaf_hash_from_bytes_def)
  ultimately show ?thesis by (simp add: all_leaf_hashes_def try_map_Inr tenant_leaves_def)
qed

lemma tree_ok_leaf:
  assumes "tree_ok S db" "append_leaf (sv_env S) (sv_hook S) (db_leaves db) (ae_tenant_id e) \<lparr>lf_entry = e, lf_chain_event_id = ae_sequence_number e\<rparr> = Inr (n, leaves)"
    and "entry_row (sv_env S) h e \<in> set (db_rows db)" "compute_entry_hash (sv_env S) e = ae_entry_hash e"
  shows "tree_ok S (db\<lparr>db_leaves := leaves\<rparr>)"
proof -
  obtain l where l: "leaves = db_leaves db @ [l]" "lr_tenant_id l = ae_tenant_id e"
      "lr_leaf_index l = tree_size (db_leaves db) (ae_tenant_id e)" "length (lr_leaf_hash l) = 32"
      "lr_leaf_hash l = hk_hash_leaf (sv_hook S) (lr_canonical_bytes l)" "lr_chain_event_id l = ae_sequence_number e"
      "env_sha256 (sv_env S) (lr_canonical_bytes l) = compute_entry_hash (sv_env S) e"
    using assms(2) by (auto simp: append_leaf_Inr leaf_canonical_bytes_def compute_entry_hash_def)
  have "leaf_bound (sv_env S) (sv_hook S) (db_rows db) l"
    using assms(3,4) l by (auto simp: leaf_bound_def list_ex_iff intro!: bexI[of _ "entry_row (sv_env S) h e"])
  moreover have "map lr_leaf_index (tenant_leaves leaves t) = [0..<tree_size leaves t]" for t
    using assms(1) l(1,2,3) by (simp add: tree_ok_def tree_size_def)
  moreover have "list_all (head_ok (sv_hook S) leaves) (db_sths db)"
    using assms(1) by (auto simp: tree_ok_def l(1) list_all_iff head_ok_grows)
  ultimately show ?thesis using assms(1) by (simp add: tree_ok_def l(1))
qed

lemma tree_ok_hook:
  assumes "tree_ok S db" "merkle_hook (sv_env S) (sv_hook S) signer now db e (ae_sequence_number e) = (r, db')"
    and "entry_row (sv_env S) h e \<in> set (db_rows db)" "compute_entry_hash (sv_env S) e = ae_entry_hash e"
  shows "tree_ok S db'"
proof (cases signer)
  case (Some sign)
  from assms(2)[unfolded Some] show ?thesis
  proof (cases rule: merkle_hook_cases)
    case (unsigned n leaves)
    then show ?thesis using tree_ok_leaf[OF assms(1) unsigned(3) assms(3,4)] by simp
  next
    case (stored n leaves hashes sths sg)
    note ok = tree_ok_leaf[OF assms(1) stored(3) assms(3,4)]
    have "all_leaf_hashes leaves (ae_tenant_id e) = Inr (map lr_leaf_hash (tenant_leaves leaves (ae_tenant_id e)))"
      using ok by (intro all_leaf_hashes_ok) (auto simp: tree_ok_def leaf_bound_def list_all_iff)
    then have hashes: "hashes = map lr_leaf_hash (tenant_leaves leaves (ae_tenant_id e))" using stored(4) by simp
    have "list_all (head_ok (sv_hook S) leaves) sths"
      using ok stored(5) by (auto simp: tree_ok_def store_sth_def head_ok_def hashes tree_size_def split: if_splits)
    then show ?thesis using ok by (simp add: stored(2) tree_ok_def)
  qed (use assms(1) in simp)
qed (use assms(1,2) in \<open>simp add: merkle_hook_def\<close>)

lemma tree_ok_cong:
  assumes "db_leaves db' = db_leaves db" "db_sths db' = db_sths db" "set (db_rows db) \<subseteq> set (db_rows db')"
  shows "tree_ok S db \<Longrightarrow> tree_ok S db'"
  using assms by (fastforce simp: tree_ok_def leaf_bound_def list_all_iff list_ex_iff)

lemma tree_ok_after:
  assumes "tree_ok S db" "appendable (sv_env S) (db_rows db) h e"
    and "after_commit S inp (db\<lparr>db_rows := db_rows db @ [entry_row (sv_env S) h e]\<rparr>) e = (r, db')"
  shows "tree_ok S db'"
proof -
  let ?db = "db\<lparr>db_rows := db_rows db @ [entry_row (sv_env S) h e]\<rparr>"
  obtain r1 db1 where hook: "merkle_hook (sv_env S) (sv_hook S) (sv_signer S) (in_sth_time inp) ?db e (ae_sequence_number e) = (r1, db1)"
    by fastforce
  have "tree_ok S ?db" by (rule tree_ok_cong[OF _ _ _ assms(1)]) auto
  from tree_ok_hook[OF this hook, of h] have "tree_ok S db1" using assms(2) by (simp add: appendable_def entry_gates_Inr)
  moreover have "db' = db1 \<or> (db_leaves db' = db_leaves db1 \<and> db_sths db' = db_sths db1 \<and> db_rows db' = db_rows db1)"
    using assms(3) hook by (auto simp: after_commit_def split: sum.splits if_splits dest!: project_keeps)
  ultimately show ?thesis using tree_ok_cong[of db' db1 S] by auto
qed

lemma record_entry_run:
  assumes "record_entry S inp db e = Some (r, db')"
  obtains (kept) "db' = db"
  | (stored) "after_commit S inp (db\<lparr>db_rows := db_rows db @ [entry_row (sv_env S) None e]\<rparr>) e = (r, db')"
      "appendable (sv_env S) (db_rows db) None e"
  using assms that by (auto simp: record_entry_def record_commit_iff split: option.splits sum.splits)

text \<open>An invariant of the tables that the empty database has and every commit with its hooks keeps holds at every
  moment between calls.\<close>

lemma service_invariant:
  assumes "service_run S db"
    and "\<And>keys. I \<lparr>db_rows = [], db_leaves = [], db_sths = [], db_grants = [], db_keys = keys\<rparr>"
    and "\<And>db h e inp r db'. I db \<Longrightarrow> appendable (sv_env S) (db_rows db) h e \<Longrightarrow>
      after_commit S inp (db\<lparr>db_rows := db_rows db @ [entry_row (sv_env S) h e]\<rparr>) e = (r, db') \<Longrightarrow> I db'"
  shows "I db"
  using assms(1)
proof induction
  case (recorded db inp e r db')
  from recorded(2) show ?case by (cases rule: record_entry_run) (use recorded assms(3) in blast)+
next
  case (claimed db inp h e res db')
  from claimed(2) show ?case by (cases rule: after_commit_run) (use claimed assms(3) in blast)+
qed (rule assms(2))

text \<open>C7: Tree heads of calls in a row are honest. When the hook of one call ends before that of the next begins, every
  stored tree head of size n carries the root of the first n leaves of its tenant, these leaves exist, and each of
  them is bound to a row of the log by the bytes the row's chain hash was taken of.\<close>

theorem heads_match_tree:
  assumes "service_run S db" "r \<in> set (db_sths db)"
  defines "ls \<equiv> take (sr_tree_size r) (tenant_leaves (db_leaves db) (sr_tenant_id r))"
  shows "length ls = sr_tree_size r \<and> sr_root_hash r = hk_merkle_root (sv_hook S) (map lr_leaf_hash ls) \<and>
    list_all (leaf_bound (sv_env S) (sv_hook S) (db_rows db)) ls"
proof -
  have "tree_ok S db"
    using assms(1)
  proof (rule service_invariant)
    show "tree_ok S \<lparr>db_rows = [], db_leaves = [], db_sths = [], db_grants = [], db_keys = keys\<rparr>" for keys
      by (simp add: tree_ok_def tenant_leaves_def tree_size_def)
  qed (rule tree_ok_after)
  then show ?thesis
    using assms(2) by (auto simp: ls_def tree_ok_def head_ok_def list_all_iff tree_size_def tenant_leaves_def dest!: in_set_takeD)
qed

text \<open>C37: Two hooks at once can sign a wrong head. Let the hook of one entry append its leaf and read the tree size, then
  let the hook of another entry of the tenant append, then let the first one go on: the tree head it stores says n+1
  leaves and carries the root of n+2.\<close>

theorem racing_hooks_missign:
  assumes "append_leaf E H (db_leaves db) (ae_tenant_id a) \<lparr>lf_entry = a, lf_chain_event_id = ca\<rparr> = Inr (n, ls1)"
    and "append_leaf E H ls1 (ae_tenant_id a) \<lparr>lf_entry = b, lf_chain_event_id = cb\<rparr> = Inr (m, ls2)"
    and "all_leaf_hashes ls2 (ae_tenant_id a) = Inr hashes" "ae_tenant_id b = ae_tenant_id a"
    and "sign (hk_signing_bytes H (log_id_for_tenant (ae_tenant_id a)) (n + 1) (hk_merkle_root H hashes) now) = Some sg"
    and "length (hk_merkle_root H hashes) = 32" "int n < i64_max"
    and "\<not> list_ex (\<lambda>r. sr_tenant_id r = ae_tenant_id a \<and> sr_tree_size r = n + 1) (db_sths db)"
  shows "\<exists>st1 db1 st2 db2 db3 r.
    (hook_step E H sign now a ca ^^ 2) (HookAppend, db) = (st1, db1) \<and>
    hook_step E H sign' now' b cb (HookAppend, db1) = (st2, db2) \<and>
    (hook_step E H sign now a ca ^^ 3) (st1, db2) = (HookDone (Inr ()), db3) \<and>
    db_sths db3 = db_sths db @ [r] \<and> sr_tree_size r = n + 1 \<and> sr_root_hash r = hk_merkle_root H hashes \<and> length hashes = n + 2"
proof -
  have size: "tree_size ls1 (ae_tenant_id a) = n + 1" "tree_size ls2 (ae_tenant_id a) = n + 2"
    using append_leaf_size[OF assms(1)] append_leaf_size[OF assms(2)] by simp_all
  have hs: "length hashes = n + 2"
    using assms(3) size(2) by (auto simp: all_leaf_hashes_def try_map_Inr tree_size_def dest!: list_all2_lengthD)
  have "(hook_step E H sign now a ca ^^ 2) (HookAppend, db) = (HookRoot (n + 1), db\<lparr>db_leaves := ls1\<rparr>)"
    using assms(1) by (simp add: hook_step_def numeral_eq_Suc size)
  moreover have "hook_step E H sign' now' b cb (HookAppend, db\<lparr>db_leaves := ls1\<rparr>) = (HookSize, db\<lparr>db_leaves := ls2\<rparr>)"
    using assms(2,4) by (simp add: hook_step_def)
  moreover have "\<exists>db3 r. (hook_step E H sign now a ca ^^ 3) (HookRoot (n + 1), db\<lparr>db_leaves := ls2\<rparr>) = (HookDone (Inr ()), db3) \<and>
      db_sths db3 = db_sths db @ [r] \<and> sr_tree_size r = n + 1 \<and> sr_root_hash r = hk_merkle_root H hashes"
    using assms(3,5,6,7,8) by (simp add: hook_step_def store_sth_def numeral_3_eq_3)
  ultimately show ?thesis using hs by blast
qed

section \<open>Grants come from the chain\<close>

definition grant_ok :: "audit_row list \<Rightarrow> grant_row \<Rightarrow> bool" where
  "grant_ok rows g \<longleftrightarrow>
     gr_granter_key g \<noteq> gr_grantee_key g \<and>
     (gr_revoked_by g = None \<or> gr_revoked_by g = Some (gr_granter_key g)) \<and>
     (gr_revoked_at g = None \<longleftrightarrow> gr_revoked_by g = None) \<and>
     list_ex (\<lambda>r. ar_tenant_id r = gr_tenant_id g \<and> ar_sequence_number r = gr_chain_event_id g \<and>
        ar_entry_hash r = gr_chain_event_hash g \<and> ar_actor_id r = gr_granter_key g \<and>
        ar_subject_kind r = TRUST_GRANT_SUBJECT_KIND) rows"

definition grants_ok :: "audit_db \<Rightarrow> bool" where
  "grants_ok db \<longleftrightarrow> distinct (map grant_key (db_grants db)) \<and> list_all (grant_ok (db_rows db)) (db_grants db)"

lemma grant_key_id [simp]: "grant_key (g\<lparr>gr_grant_id := i\<rparr>) = grant_key g"
  by (simp add: grant_key_def)

lemma grant_ok_id [simp]: "grant_ok rows (g\<lparr>gr_grant_id := i\<rparr>) = grant_ok rows g"
  by (simp add: grant_ok_def)

lemma upsert_keeps:
  assumes "upsert_grant keys grants g = Inr grants'" "distinct (map grant_key grants)" "list_all (grant_ok rows) grants"
    and "gr_granter_key g \<noteq> gr_grantee_key g \<Longrightarrow> grant_ok rows g"
  shows "distinct (map grant_key grants') \<and> list_all (grant_ok rows) grants'"
proof -
  let ?u = "\<lambda>q. if grant_key q = grant_key g then g\<lparr>gr_grant_id := gr_grant_id q\<rparr> else q"
  have keys: "map (grant_key \<circ> ?u) grants = map grant_key grants" by simp
  have ok: "grant_ok rows g" using assms(1,4) by (auto simp: upsert_grant_def split: if_splits)
  from assms(1) consider "grants' = map ?u grants" | "grants' = grants @ [g]" "grant_key g \<notin> set (map grant_key grants)"
    by (fastforce simp: upsert_grant_def list_ex_iff split: if_splits)
  then show ?thesis
  proof cases
    case 1
    then show ?thesis using assms(2,3) ok by (simp add: keys) (auto simp: list_all_iff)
  next
    case 2
    then show ?thesis using assms(2,3) ok by simp
  qed
qed

lemma grants_ok_project:
  assumes "grants_ok db" "entry_row E h e \<in> set (db_rows db)" "ae_subject_kind e = TRUST_GRANT_SUBJECT_KIND"
    and "project_trust_grant E rp now i db e (ae_sequence_number e) = (r, db')"
  shows "grants_ok db'"
proof -
  have row: "list_ex (\<lambda>r. ar_tenant_id r = ae_tenant_id e \<and> ar_sequence_number r = ae_sequence_number e \<and>
      ar_entry_hash r = ae_entry_hash e \<and> ar_actor_id r = ae_actor_id e \<and> ar_subject_kind r = TRUST_GRANT_SUBJECT_KIND) (db_rows db)"
    using assms(2,3) by (auto simp: list_ex_iff entry_row_def intro!: bexI[of _ "entry_row E h e"])
  show ?thesis
    using assms(1,4) row upsert_keeps[of "db_keys db" "db_grants db" _ _ "db_rows db"]
    by (fastforce simp: grants_ok_def project_trust_grant_def grant_ok_def Let_def split: option.splits if_splits sum.splits)
qed

lemma grants_ok_after:
  assumes "grants_ok db" "after_commit S inp (db\<lparr>db_rows := db_rows db @ [entry_row (sv_env S) h e]\<rparr>) e = (r, db')"
  shows "grants_ok db'"
proof -
  let ?db = "db\<lparr>db_rows := db_rows db @ [entry_row (sv_env S) h e]\<rparr>"
  obtain r1 db1 where hook: "merkle_hook (sv_env S) (sv_hook S) (sv_signer S) (in_sth_time inp) ?db e (ae_sequence_number e) = (r1, db1)"
    by fastforce
  have "grants_ok ?db" using assms(1) by (auto simp: grants_ok_def grant_ok_def list_all_iff list_ex_iff)
  then have ok: "grants_ok db1" "entry_row (sv_env S) h e \<in> set (db_rows db1)"
    using merkle_hook_keeps[OF hook] by (simp_all add: grants_ok_def)
  show ?thesis
    using assms(2) hook grants_ok_project[OF ok] ok(1) by (auto simp: after_commit_def split: sum.splits if_splits)
qed

text \<open>C39: Only the granter grants and revokes. In every reachable database there is at most one grant row per grantee,
  granter, purpose and scope; no row grants to its own granter; and each row names an entry of the chain, by tenant,
  number and hash, that is a trust grant whose actor is the granter. A row is marked revoked by nobody else.\<close>

theorem grants_come_from_chain:
  assumes "service_run S db" "g \<in> set (db_grants db)"
  shows "distinct (map grant_key (db_grants db)) \<and> grant_ok (db_rows db) g"
proof -
  have "grants_ok db"
    using assms(1)
  proof (rule service_invariant)
    show "grants_ok \<lparr>db_rows = [], db_leaves = [], db_sths = [], db_grants = [], db_keys = keys\<rparr>" for keys
      by (simp add: grants_ok_def)
  qed (rule grants_ok_after)
  then show ?thesis using assms(2) by (auto simp: grants_ok_def list_all_iff)
qed

section \<open>Listing\<close>

record audit_filter =
  af_tenant_id :: string
  af_action_type :: "string option"
  af_actor_id :: "string option"
  af_subject_kind :: "string option"
  af_subject_id :: "string option"
  af_recorded_after :: "instant option"
  af_recorded_before :: "instant option"

record audit_cursor =
  ac_version :: string
  ac_last_ts :: instant
  ac_last_id :: string

definition cursor_from_trailing :: "instant \<Rightarrow> string \<Rightarrow> audit_cursor" where
  "cursor_from_trailing ts i = \<lparr>ac_version = ''v1'', ac_last_ts = ts, ac_last_id = i\<rparr>"

record audit_list_page =
  ap_items :: "audit_entry list"
  ap_next_cursor :: "audit_cursor option"

text \<open>The order of a page, and the row comparison of the keyset predicate, are those of the pair of the two texts.\<close>

definition page_key :: "audit_row \<Rightarrow> string list" where
  "page_key r = [ar_recorded_at r, ar_entry_id r]"

definition given_eq :: "string option \<Rightarrow> string \<Rightarrow> bool" where
  "given_eq x s \<longleftrightarrow> (case x of None \<Rightarrow> True | Some y \<Rightarrow> s = y)"

definition filter_clauses :: "audit_env \<Rightarrow> audit_filter \<Rightarrow> audit_row \<Rightarrow> bool" where
  "filter_clauses E f r \<longleftrightarrow>
     ar_tenant_id r = af_tenant_id f \<and> given_eq (af_action_type f) (ar_action_type r) \<and>
     given_eq (af_actor_id f) (ar_actor_id r) \<and> given_eq (af_subject_kind f) (ar_subject_kind r) \<and>
     given_eq (af_subject_id f) (ar_subject_id r) \<and>
     (case af_recorded_after f of None \<Rightarrow> True | Some t \<Rightarrow> fmt_datetime E t \<le> ar_recorded_at r) \<and>
     (case af_recorded_before f of None \<Rightarrow> True | Some t \<Rightarrow> ar_recorded_at r \<le> fmt_datetime E t)"

definition keyset_bound :: "audit_env \<Rightarrow> audit_cursor option \<Rightarrow> audit_error + string list option" where
  "keyset_bound E cursor =
     (case cursor of
        None \<Rightarrow> Inr None
      | Some cur \<Rightarrow>
          if ac_version cur \<noteq> ''v1'' then Inl AuditInvalidArgument
          else if ac_last_id cur = [] then Inr None
          else Inr (Some [fmt_datetime E (ac_last_ts cur), ac_last_id cur]))"

definition select_page :: "audit_env \<Rightarrow> audit_row list \<Rightarrow> audit_filter \<Rightarrow> string list option \<Rightarrow> audit_row list" where
  "select_page E rows f bound =
     rev (sort_key page_key
       (filter (\<lambda>r. filter_clauses E f r \<and> (case bound of None \<Rightarrow> True | Some k \<Rightarrow> page_key r < k)) rows))"

definition list_entries ::
  "audit_env \<Rightarrow> audit_row list \<Rightarrow> audit_filter \<Rightarrow> audit_cursor option \<Rightarrow> int \<Rightarrow> audit_error + audit_list_page" where
  "list_entries E rows f cursor limit =
     (if af_tenant_id f = [] then Inl AuditInvalidArgument
      else if \<not> (1 \<le> limit \<and> limit \<le> 10000) then Inl AuditInvalidArgument
      else
        and_then (keyset_bound E cursor) (\<lambda>bound.
        and_then (try_map (decode_entry_row E) (take (nat limit) (select_page E rows f bound))) (\<lambda>items.
          Inr \<lparr>ap_items = items,
               ap_next_cursor =
                 (if length items = nat limit \<and> items \<noteq> []
                  then Some (cursor_from_trailing (ae_recorded_at (last items)) (ae_entry_id (last items))) else None)\<rparr>)))"

text \<open>A reader that follows the cursors; \<open>fuel\<close> bounds the number of pages.\<close>

fun walk_pages ::
  "audit_env \<Rightarrow> audit_row list \<Rightarrow> audit_filter \<Rightarrow> int \<Rightarrow> nat \<Rightarrow> audit_cursor option \<Rightarrow> (audit_error + audit_entry list) option" where
  "walk_pages E rows f limit 0 cursor = None"
| "walk_pages E rows f limit (Suc fuel) cursor =
     run_then (Some (list_entries E rows f cursor limit)) (\<lambda>page.
       case ap_next_cursor page of
         None \<Rightarrow> Some (Inr (ap_items page))
       | Some cur \<Rightarrow> run_then (walk_pages E rows f limit fuel (Some cur)) (\<lambda>rest. Some (Inr (ap_items page @ rest))))"

definition readable :: "audit_env \<Rightarrow> audit_row \<Rightarrow> audit_entry \<Rightarrow> bool" where
  "readable E r e \<longleftrightarrow> decode_entry_row E r = Inr e \<and> fmt_datetime E (ae_recorded_at e) = ar_recorded_at r \<and>
     ae_entry_id e = ar_entry_id r \<and> ar_entry_id r \<noteq> []"

lemma select_page_bound:
  "select_page E rows f (Some k) = filter (\<lambda>r. page_key r < k) (select_page E rows f None)"
  by (simp add: select_page_def rev_filter[symmetric] filter_sort)

lemma select_page_desc:
  assumes "distinct (map ar_entry_id rows)"
  shows "sorted_wrt (\<lambda>a b. page_key b < page_key a) (select_page E rows f None)"
proof -
  let ?rs = "filter (filter_clauses E f) rows"
  have "distinct (map page_key ?rs)"
    using distinct_map_filter[OF assms] by (auto simp: distinct_map inj_on_def page_key_def)
  then have "distinct (map page_key (sort_key page_key ?rs))" by (simp add: distinct_map)
  moreover have "sorted (map page_key (sort_key page_key ?rs))" by (rule sorted_sort_key)
  ultimately have "sorted_wrt (<) (map page_key (sort_key page_key ?rs))" by (simp add: strict_sorted_iff)
  then show ?thesis by (simp add: select_page_def sorted_wrt_rev sorted_wrt_map)
qed

lemma filter_below:
  "sorted_wrt (\<lambda>a b. page_key b < page_key a) (ys @ x # zs) \<Longrightarrow> filter (\<lambda>r. page_key r < page_key x) (ys @ x # zs) = zs"
  by (auto simp: sorted_wrt_append filter_empty_conv filter_id_conv not_less dest: less_imp_le)

text \<open>A page that starts where the suffix \<open>rest\<close> of the listing does.\<close>

lemma list_entries_page:
  assumes "af_tenant_id f \<noteq> []" "1 \<le> limit" "limit \<le> 10000"
    and "keyset_bound E cursor = Inr bound" "list_all2 (readable E) (select_page E rows f bound) es"
  shows "list_entries E rows f cursor limit =
    Inr \<lparr>ap_items = take (nat limit) es,
         ap_next_cursor = (if nat limit \<le> length es
           then Some (cursor_from_trailing (ae_recorded_at (es ! (nat limit - 1))) (ae_entry_id (es ! (nat limit - 1)))) else None)\<rparr>"
proof -
  have "list_all2 (\<lambda>r e. decode_entry_row E r = Inr e) (take (nat limit) (select_page E rows f bound)) (take (nat limit) es)"
    using list_all2_takeI[OF assms(5)] by (rule list_all2_mono) (simp add: readable_def)
  then have "try_map (decode_entry_row E) (take (nat limit) (select_page E rows f bound)) = Inr (take (nat limit) es)"
    by (simp add: try_map_Inr)
  moreover have "last (take (nat limit) es) = es ! (nat limit - 1)" if "nat limit \<le> length es"
    using that assms(2) by (cases "nat limit") (simp_all add: take_Suc_conv_app_nth)
  ultimately show ?thesis
    using assms(1-4) by (auto simp: list_entries_def)
qed

lemma list_all2_split: "list_all2 P xs (as @ b # cs) \<Longrightarrow> \<exists>ys x zs. xs = ys @ x # zs \<and> P x b \<and> list_all2 P zs cs"
  by (auto simp: list_all2_append2 list_all2_Cons2)

lemma walk_suffix:
  assumes "af_tenant_id f \<noteq> []" "1 \<le> limit" "limit \<le> 10000" "distinct (map ar_entry_id rows)"
  shows "list_all2 (readable E) (select_page E rows f None) (ds @ es) \<Longrightarrow> keyset_bound E cursor = Inr bound \<Longrightarrow>
    list_all2 (readable E) (select_page E rows f bound) es \<Longrightarrow> length es < fuel \<Longrightarrow>
    walk_pages E rows f limit fuel cursor = Some (Inr es)"
proof (induction fuel arbitrary: ds es cursor bound)
  case (Suc fuel)
  let ?n = "nat limit"
  note page = list_entries_page[OF assms(1-3) Suc.prems(2,3)]
  show ?case
  proof (cases "?n \<le> length es")
    case True
    define e where "e = es ! (?n - 1)"
    obtain m where m: "?n = Suc m" using assms(2) by (cases ?n) auto
    then have es: "es = take m es @ e # drop ?n es" using True by (simp add: e_def id_take_nth_drop[symmetric])
    have split: "list_all2 (readable E) (select_page E rows f None) ((ds @ take m es) @ e # drop ?n es)"
      using Suc.prems(1) es by (metis append_assoc)
    then obtain ys x zs where sp: "select_page E rows f None = ys @ x # zs" "readable E x e" "list_all2 (readable E) zs (drop ?n es)"
      using list_all2_split by metis
    have zs: "select_page E rows f (Some (page_key x)) = zs"
      using filter_below[of ys x zs] select_page_desc[OF assms(4), of E f] by (simp add: select_page_bound sp(1))
    have bound: "keyset_bound E (Some (cursor_from_trailing (ae_recorded_at e) (ae_entry_id e))) = Inr (Some (page_key x))"
      using sp(2) by (simp add: keyset_bound_def cursor_from_trailing_def readable_def page_key_def)
    have "list_all2 (readable E) (select_page E rows f None) ((ds @ take ?n es) @ drop ?n es)" using Suc.prems(1) by simp
    from Suc.IH[OF this bound] have "walk_pages E rows f limit fuel (Some (cursor_from_trailing (ae_recorded_at e) (ae_entry_id e))) = Some (Inr (drop ?n es))"
      using zs sp(3) Suc.prems(4) True m by simp
    then show ?thesis using page True by (simp add: e_def)
  qed (use page in simp)
qed simp


text \<open>The listing without the condition on ids: a page that ends at an entry with an empty id returns the cursor of the
  first page, so a reader that follows it starts again.\<close>

lemma empty_id_restarts:
  assumes "list_entries E rows f cursor limit = Inr p" "ap_next_cursor p = Some c" "ac_last_id c = []"
  shows "list_entries E rows f (Some c) limit = list_entries E rows f None limit"
proof -
  have "ac_version c = ''v1''"
    using assms(1,2) by (auto simp: list_entries_def and_then_Inr cursor_from_trailing_def split: if_splits)
  then have "keyset_bound E (Some c) = keyset_bound E None" using assms(3) by (simp add: keyset_bound_def)
  then show ?thesis by (simp add: list_entries_def)
qed

section \<open>Examples\<close>

definition ex_hook :: hook_env where
  "ex_hook = \<lparr>hk_hash_leaf = ex_sha, hk_leaf_json = (\<lambda>_. []), hk_merkle_root = (\<lambda>hs. replicate 32 (if length hs = 1 then CHR ''a'' else CHR ''b'')),
     hk_signing_bytes = (\<lambda>_ _ _ _. []), hk_signer_key_id = (\<lambda>_. ''k'')\<rparr>"

definition ex_service :: service where
  "ex_service = \<lparr>sv_env = ex_env ex_sha, sv_hook = ex_hook, sv_signer = Some (\<lambda>_. Some ''sig''),
     sv_read_payload = (\<lambda>_. Some \<lparr>tg_grantee_key = ''g'', tg_purpose = Service, tg_scope = ''*'', tg_expires_at = None, tg_rationale = []\<rparr>)\<rparr>"

definition ex_call :: call_inputs where
  "ex_call = \<lparr>in_sth_time = 0, in_grant_time = 0, in_grant_id = ''i''\<rparr>"

definition ex_db :: audit_db where
  "ex_db = \<lparr>db_rows = [], db_leaves = [], db_sths = [], db_grants = [], db_keys = [''k'', ''g'']\<rparr>"

definition ex_grant :: audit_entry where
  "ex_grant = (ex_audit_entry ex_sha ''1'' 1 GENESIS_PREV_HASH)\<lparr>ae_subject_kind := TRUST_GRANT_SUBJECT_KIND\<rparr>"

lemma ex_grant_simps [simp]:
  "ae_entry_id ex_grant = ''1''" "ae_sequence_number ex_grant = 1" "ae_tenant_id ex_grant = ''t''" "ae_actor_id ex_grant = ''k''"
  "ae_subject_kind ex_grant = ''trust_grant''" "ae_entry_hash ex_grant = ex_sha []" "ae_prev_hash ex_grant = GENESIS_PREV_HASH"
  "ae_signature ex_grant = ''s''" "compute_entry_hash (ex_env ex_sha) ex_grant = ex_sha []"
  by (simp_all add: ex_grant_def TRUST_GRANT_SUBJECT_KIND_def compute_entry_hash_def ex_env_def)

lemma ex_grant_gates: "entry_gates (ex_env ex_sha) ex_grant = Inr ()"
  by (simp add: entry_gates_def verify_entry_signature_def verify_hybrid_def verify_ed25519_only_with_policy_def
      apply_policy_def decode_b64_fixed_def ED25519_SIG_LEN_def ED25519_PUBKEY_LEN_def GENESIS_PREV_HASH_def del: replicate.simps)
    (simp add: ex_env_def ex_crypto_def apply_policy_def)

lemma ex_grant_recorded:
  "\<exists>db. record_entry ex_service ex_call ex_db ex_grant = Some (Inr (), db) \<and> db_rows db = [entry_row (ex_env ex_sha) None ex_grant] \<and>
     map sr_tree_size (db_sths db) = [1] \<and> map gr_granter_key (db_grants db) = [''k'']"
proof -
  have "record_commit (ex_env ex_sha) [] ex_grant = Some (Inr [entry_row (ex_env ex_sha) None ex_grant])"
    unfolding record_commit_iff appendable_def
    by (simp add: ex_grant_gates chain_tail_def tenant_rows_def violates_def del: replicate.simps)
  then show ?thesis
    by (simp add: record_entry_def ex_service_def ex_db_def after_commit_def merkle_hook_run append_leaf_def tree_size_def
        tenant_leaves_def all_leaf_hashes_def leaf_hash_from_bytes_def store_sth_def project_trust_grant_def upsert_grant_def
        TRUST_GRANT_SUBJECT_KIND_def ex_call_def ex_hook_def i64_max_def Let_def del: replicate.simps)
qed

lemma ex_grant_run:
  assumes "record_entry ex_service ex_call ex_db ex_grant = Some (r, db)"
  shows "service_run ex_service db"
  using service_run.recorded[OF service_run.init assms[unfolded ex_db_def]] .

theorem record_entry_reports_witness:
  "\<exists>db. record_entry ex_service ex_call ex_db ex_grant = Some (Inr (), db) \<and>
     db_rows db = db_rows ex_db @ [entry_row (sv_env ex_service) None ex_grant]"
proof -
  obtain db where db: "record_entry ex_service ex_call ex_db ex_grant = Some (Inr (), db)" using ex_grant_recorded by blast
  from record_entry_reports[OF db] db show ?thesis by simp
qed

theorem heads_match_tree_witness:
  "\<exists>db r. service_run ex_service db \<and> r \<in> set (db_sths db) \<and> sr_tree_size r = 1 \<and>
     sr_root_hash r = hk_merkle_root ex_hook (map lr_leaf_hash (take 1 (tenant_leaves (db_leaves db) (sr_tenant_id r))))"
proof -
  obtain db where db: "record_entry ex_service ex_call ex_db ex_grant = Some (Inr (), db)" "map sr_tree_size (db_sths db) = [1]"
    using ex_grant_recorded by (elim exE conjE)
  from db(2) obtain r where "db_sths db = [r]" and one: "sr_tree_size r = 1" by (auto simp: map_eq_Cons_conv)
  then have r: "r \<in> set (db_sths db)" by simp
  have "sv_hook ex_service = ex_hook" by (simp add: ex_service_def)
  then have "sr_root_hash r = hk_merkle_root ex_hook (map lr_leaf_hash (take 1 (tenant_leaves (db_leaves db) (sr_tenant_id r))))"
    using heads_match_tree[OF ex_grant_run[OF db(1)] r] by (simp only: one)
  then show ?thesis using r one ex_grant_run[OF db(1)] by blast
qed

theorem grants_come_from_chain_witness:
  "\<exists>db g. service_run ex_service db \<and> g \<in> set (db_grants db) \<and> grant_ok (db_rows db) g"
proof -
  obtain db where db: "record_entry ex_service ex_call ex_db ex_grant = Some (Inr (), db)" "map gr_granter_key (db_grants db) = [''k'']"
    using ex_grant_recorded by (elim exE conjE)
  from db(2) obtain g where "db_grants db = [g]" by (auto simp: map_eq_Cons_conv)
  then have g: "g \<in> set (db_grants db)" by simp
  from grants_come_from_chain[OF ex_grant_run[OF db(1)] g] g ex_grant_run[OF db(1)] show ?thesis by blast
qed

theorem racing_hooks_missign_witness:
  "\<exists>st1 db1 st2 db2 db3 r.
    (hook_step (ex_env ex_sha) ex_hook (\<lambda>_. Some []) 0 (ex_first ex_sha) 1 ^^ 2) (HookAppend, ex_db) = (st1, db1) \<and>
    hook_step (ex_env ex_sha) ex_hook (\<lambda>_. Some []) 0 (ex_second ex_sha) 2 (HookAppend, db1) = (st2, db2) \<and>
    (hook_step (ex_env ex_sha) ex_hook (\<lambda>_. Some []) 0 (ex_first ex_sha) 1 ^^ 3) (st1, db2) = (HookDone (Inr ()), db3) \<and>
    sr_tree_size r = 1 \<and> r \<in> set (db_sths db3) \<and> sr_root_hash r \<noteq> hk_merkle_root ex_hook [ex_sha []]"
proof -
  let ?leaf = "\<lambda>e c n. \<lparr>lr_tenant_id = ''t'', lr_leaf_index = n, lr_chain_event_id = c, lr_leaf_hash = ex_sha [],
    lr_canonical_bytes = leaf_canonical_bytes (ex_env ex_sha) \<lparr>lf_entry = e, lf_chain_event_id = c\<rparr>, lr_leaf_serialized = []\<rparr>"
  let ?ls1 = "[?leaf (ex_first ex_sha) 1 0]" and ?ls2 = "[?leaf (ex_first ex_sha) 1 0, ?leaf (ex_second ex_sha) 2 1]"
  have t: "ae_tenant_id (ex_first ex_sha) = ''t''" "ae_tenant_id (ex_second ex_sha) = ''t''" by (simp_all add: ex_first_def ex_second_def)
  have 1: "append_leaf (ex_env ex_sha) ex_hook (db_leaves ex_db) ''t'' \<lparr>lf_entry = ex_first ex_sha, lf_chain_event_id = 1\<rparr> = Inr (0, ?ls1)"
    "append_leaf (ex_env ex_sha) ex_hook ?ls1 ''t'' \<lparr>lf_entry = ex_second ex_sha, lf_chain_event_id = 2\<rparr> = Inr (1, ?ls2)"
    by (simp_all add: append_leaf_def tree_size_def tenant_leaves_def ex_hook_def ex_db_def Let_def del: replicate.simps)
  have 2: "all_leaf_hashes ?ls2 ''t'' = Inr [ex_sha [], ex_sha []]"
    by (simp add: all_leaf_hashes_def tenant_leaves_def leaf_hash_from_bytes_def del: replicate.simps)
  from racing_hooks_missign[of "ex_env ex_sha" ex_hook ex_db "ex_first ex_sha" 1 0 ?ls1 "ex_second ex_sha" 2 1 ?ls2 _
      "\<lambda>_. Some []" 0 "[]" "\<lambda>_. Some []" 0, unfolded t, OF 1 2]
  obtain st1 db1 st2 db2 db3 r where run:
      "(hook_step (ex_env ex_sha) ex_hook (\<lambda>_. Some []) 0 (ex_first ex_sha) 1 ^^ 2) (HookAppend, ex_db) = (st1, db1)"
      "hook_step (ex_env ex_sha) ex_hook (\<lambda>_. Some []) 0 (ex_second ex_sha) 2 (HookAppend, db1) = (st2, db2)"
      "(hook_step (ex_env ex_sha) ex_hook (\<lambda>_. Some []) 0 (ex_first ex_sha) 1 ^^ 3) (st1, db2) = (HookDone (Inr ()), db3)"
      "db_sths db3 = db_sths ex_db @ [r]" "sr_tree_size r = 1" "sr_root_hash r = hk_merkle_root ex_hook [ex_sha [], ex_sha []]"
    by (auto simp: ex_hook_def ex_db_def i64_max_def simp del: replicate.simps funpow.simps)
  moreover have "hk_merkle_root ex_hook [ex_sha [], ex_sha []] \<noteq> hk_merkle_root ex_hook [ex_sha []]"
    by (simp add: ex_hook_def del: replicate.simps)
  ultimately show ?thesis by (metis in_set_conv_decomp)
qed

lemma ex_named_log: "audit_log (ex_env ex_sha) (\<lambda>e. storable (ex_env ex_sha) e \<and> ae_entry_id e \<noteq> []) (ex_audit_rows ex_sha)"
proof -
  have "audit_log (ex_env ex_sha) (\<lambda>e. storable (ex_env ex_sha) e \<and> ae_entry_id e \<noteq> []) [entry_row (ex_env ex_sha) None (ex_first ex_sha)]"
    using log_from.step[OF log_from.start log_step.recorded[OF ex_record]] by (simp add: ex_first_def)
  from log_from.step[OF this log_step.claimed[OF ex_claim]] show ?thesis by (simp add: ex_second_def)
qed


end
