(* ===== verification/Spec2Isabelle.thy ===== *)
theory Spec2Isabelle
  imports Governance_Policy Cache_Admission Cache_Surface Roster_Plane Audit_Service
begin

text \<open>
  A verification development of the CIRISPersist crate: the persistence layer of the CIRIS federation, in Rust,
  under \<open>src/src/\<close>. The crate stores signed rows and decides, from stored rows alone, who belongs to a group,
  which changes have standing and what may be served from a cache. The development models that deciding code as
  executable functions; what stores the rows is given by its operations.

  \<^bold>\<open>Parts and theories.\<close>

  \<^item> \<open>Persist_Prelude\<close>, \<open>Utf8_Text\<close>, \<open>F64\<close>: what the code uses of its language and standard library: integer widths,
    saturating arithmetic, \<open>BTreeMap\<close> as a sorted association list, \<open>Result\<close> and early return as a sum type, a
    panic as \<^const>\<open>None\<close>, JSON values, text as UTF-8 bytes, double arithmetic, and the locale \<open>replay\<close> of a log
    that is sorted by instant and folded.
  \<^item> \<open>Majority\<close>: the locales \<open>majority_threshold\<close> and \<open>least_majority\<close>, the contract between counting rules and
    decisions.
  \<^item> \<open>Two_Path\<close> (\<open>federation/two_path.rs\<close>) and \<open>Governance_Policy\<close> (\<open>federation/governance_policy.rs\<close>): proposals that
    land by a quorum or, after a window, alone; the corridor a policy must lie in; the table of policies. Shown:
    the decision is exactly the two abstract rules, quorums intersect, the finite probes of the corridor cover every
    roster size, and when the check panics.
  \<^item> \<open>Cache_Key\<close>, \<open>Cache_Lru\<close>, \<open>Cache_Surface\<close>, \<open>Cache_Admission\<close> (\<open>cache/*.rs\<close>): content-addressed keys, the bounded
    LRU, the aggregate read cache as a relation of interleaved lock regions, the admission cache. Shown: what is
    served is fresh, bounds are kept, eviction ends, distinct requests and callers never share a key unless the
    hash collides. The locale \<open>keyed_store\<close> is interpreted on both stores.
  \<^item> \<open>Federation_Types\<close>, \<open>Attestation_Query\<close> (\<open>federation/types.rs\<close>, \<open>federation/attestation_query.rs\<close>): rows, the
    bounded query, its in-memory predicate, the statement rendered for the databases, and the page walk. Shown: the
    statement selects what the predicate admits and the walk is complete. The locale \<open>attestation_store\<close> is
    interpreted on the rendered statements.
  \<^item> \<open>Reverse_Quorum_Policy\<close>, \<open>Reverse_Quorum_Fold\<close>, \<open>Reverse_Quorum_Doors\<close> (\<open>federation/reverse_quorum.rs\<close>): the
    protocol grammar, the objection fold and the doors that admit objections, dismissals and ballots.
  \<^item> \<open>Consensus\<close> (\<open>federation/consensus.rs\<close>): every form of \<open>consensus_protocol\<close>, with rubrics in doubles.
  \<^item> \<open>Roster_Fold\<close>, \<open>Roster_Plane\<close> (\<open>federation/mod.rs\<close>): the replay of a group's roster from its signed rows, the
    preparation of the stored rows for it, and the doors that judge a new row. The replay asks \<open>Consensus\<close> for the
    standing of each row, and the objection fold of \<open>Reverse_Quorum_Doors\<close> for the rows it must leave out. Shown:
    convergence, exact spans and authority intervals, no member without a voucher, agreement of door and replay.
  \<^item> \<open>Canonical_Json\<close> (\<open>verify/canonical.rs\<close>): the writer of canonical bytes and the signing forms. Shown: the bytes
    are a prefix code, so equal signing bytes mean equal payloads outside the signature members.
  \<^item> \<open>Hybrid_Verify\<close> (\<open>verify/hybrid.rs\<close>): the pairing of the two signature halves and the policy for a missing one.
  \<^item> \<open>Audit_Chain\<close> (\<open>audit/types.rs\<close>, \<open>audit/verify.rs\<close>, \<open>audit/sqlite.rs\<close>): the hash-chained log of a tenant, its
    two commits as functions of the table, and \<open>verify_chain\<close>. It hashes and signs the bytes of \<open>Canonical_Json\<close> and
    checks signatures with \<open>Hybrid_Verify\<close>. Shown: written chains verify, what the outcome Ok means, the tail pins
    the chain, a content hash is claimed once; and that lost rows at either end go unnoticed.
  \<^item> \<open>Audit_Service\<close> (\<open>audit/sqlite.rs\<close>, \<open>audit/merkle_leaf.rs\<close>, \<open>audit/merkle_store.rs\<close>, \<open>federation/trust_grant.rs\<close>):
    the whole write path. A commit is followed by the Merkle hook, a machine with one step per lock region, and by
    the projection of trust grants. Shown: what an error tells, tree heads match the tree when hooks do not overlap
    and need not when they do, grants come from their granter's entries, and the page walk lists everything.

  \<^bold>\<open>Parameters.\<close> Code outside the repository is an argument: \<open>sm\<close> (\<open>strict_majority\<close> of \<open>ciris_verify_core\<close>, with
  \<open>strict_majority_law\<close>), \<open>sha\<close> (SHA-256; collisions are stated, never excluded), \<open>chrono\<close> (representable durations
  and instants, with \<open>chrono_laws\<close>), \<open>J\<close> (the databases' text rendering of JSON, with \<open>json_text_law\<close>) and the
  operations of a directory (with \<open>directory_laws\<close>). The audit theories take theirs in the records \<open>crypto\<close>,
  \<open>audit_env\<close> and \<open>hook_env\<close>, with \<open>encoding_laws\<close> (Base64 and timestamps are injective text) and \<open>storable\<close> (an entry
  reads back as written; \<open>store_law\<close> gives it for timestamps without nanoseconds). Every property that assumes such a law has a witness on a
  concrete instance.

  \<^bold>\<open>Termination and fuel.\<close> The walk over the pages of an attestation query need not end; it is a
  \<^theory_text>\<open>partial_function\<close> into \<^typ>\<open>'a option\<close> and is shown to return on every lawful store. The reader that
  follows the cursors of the audit log takes a number of pages as fuel; one more than the number of stored rows is
  shown to be enough. The depth of
  declared consensus expressions is bounded by the code itself.

  \<^bold>\<open>Not modelled.\<close> SQL execution and migrations, cryptography, HTTP and foreign-function shells, asynchronous
  scheduling beyond the lock regions of the cache and of the Merkle hook, the Postgres backend of the audit log,
  refusal messages (their stable tokens are kept), and the
  federation planes that only sequence such calls (blobs, key grants, consent, quarantine, replication).
\<close>

end
